(* ===== verification/Js_Prelude.thy ===== *)
theory Js_Prelude
  imports Complex_Main "HOL-Library.Sublist" "HOL-Library.AList" "HOL-Library.Word"
begin

text \<open>
  Shared vocabulary of the development: the pieces of the JavaScript language and of its
  standard library that the modelled sources use, written as executable functions on lists.

  \<^item> \<open>js_ws\<close>, \<open>js_Number\<close>: white space trimming and the conversion \<open>Number(s)\<close> of a string;
    numbers are exact rationals (rounding to a binary double is left out).
  \<^item> \<open>indexOf\<close>, \<open>lastIndexOf_char\<close>, \<open>split_on\<close>, \<open>join_with\<close>, \<open>slice\<close>: string search and
    splitting, polymorphic in the element type, so that they serve both protocol strings
    (\<open>string\<close>) and text held as UTF-16 code units (\<open>jstring\<close>).
  \<^item> a \<open>Map\<close> is an association list in insertion order: \<open>map_of\<close> reads it, \<open>AList.update\<close> is
    \<open>set\<close> (in place for a known key, at the end for a new one), \<open>AList.delete\<close> is \<open>delete\<close>;
    the locale \<open>js_map\<close> states the laws and is interpreted on these three.
\<close>

named_theorems js_string \<open>facts on string search, splitting and joining\<close>


text \<open>An exception is the left summand of a result, a value the right one.\<close>

type_synonym ('e, 'a) result = "'e + 'a"

subsection \<open>Search, slices, splitting\<close>

text \<open>\<open>s.indexOf(pat)\<close>: the first position at which \<open>pat\<close> occurs (None is JavaScript's -1).\<close>

fun indexOf :: "'a list \<Rightarrow> 'a list \<Rightarrow> nat option" where
  "indexOf [] pat = (if pat = [] then Some 0 else None)"
| "indexOf (x # xs) pat =
     (if prefix pat (x # xs) then Some 0 else map_option Suc (indexOf xs pat))"

text \<open>\<open>s.lastIndexOf(c)\<close> for a single character.\<close>

fun lastIndexOf_char :: "'a list \<Rightarrow> 'a \<Rightarrow> nat option" where
  "lastIndexOf_char [] c = None"
| "lastIndexOf_char (x # xs) c =
     (case lastIndexOf_char xs c of Some i \<Rightarrow> Some (Suc i)
      | None \<Rightarrow> (if x = c then Some 0 else None))"

text \<open>\<open>s.slice(a, b)\<close> for \<open>0 \<le> a\<close> and \<open>0 \<le> b\<close>.\<close>

definition slice :: "nat \<Rightarrow> nat \<Rightarrow> 'a list \<Rightarrow> 'a list" where
  "slice a b s = take (b - a) (drop a s)"

text \<open>\<open>s.split(c)\<close> for a one-element separator: always at least one part.\<close>

fun split_on :: "'a \<Rightarrow> 'a list \<Rightarrow> 'a list list" where
  "split_on c [] = [[]]"
| "split_on c (x # xs) =
     (if x = c then [] # split_on c xs
      else (case split_on c xs of [] \<Rightarrow> [[x]] | p # ps \<Rightarrow> (x # p) # ps))"

text \<open>\<open>parts.join(sep)\<close>.\<close>

fun join_with :: "'a list \<Rightarrow> 'a list list \<Rightarrow> 'a list" where
  "join_with sep [] = []"
| "join_with sep [p] = p"
| "join_with sep (p # q # ps) = p @ sep @ join_with sep (q # ps)"

definition endsWith :: "'a list \<Rightarrow> 'a list \<Rightarrow> bool" where
  "endsWith s pat = suffix pat s"

lemma split_on_nonempty [simp]: "split_on c s \<noteq> []"
  by (induction s) (auto split: list.splits)

lemma join_with_Cons: "ps \<noteq> [] \<Longrightarrow> join_with sep (p # ps) = p @ sep @ join_with sep ps"
  by (cases ps) auto

lemma join_split_on [simp, js_string]: "join_with [c] (split_on c s) = s"
proof (induction s)
  case (Cons x xs)
  obtain p ps where sp: "split_on c xs = p # ps"
    by (cases "split_on c xs") auto
  with Cons show ?case by (cases ps) auto
qed simp

lemma split_on_parts: "p \<in> set (split_on c s) \<Longrightarrow> c \<notin> set p"
proof (induction s arbitrary: p)
  case (Cons x xs)
  obtain q qs where sp: "split_on c xs = q # qs"
    by (cases "split_on c xs") auto
  with Cons show ?case by (auto split: if_splits)
qed simp

lemma split_on_append_part:
  "c \<notin> set p \<Longrightarrow> split_on c (p @ c # s) = p # split_on c s"
  by (induction p) auto

lemma split_on_append: "split_on c (a @ c # b) = split_on c a @ split_on c b"
proof (induction a)
  case (Cons x a)
  then show ?case by (cases "split_on c a") auto
qed simp

lemma split_on_single: "c \<notin> set p \<Longrightarrow> split_on c p = [p]"
  by (induction p) auto

lemma split_on_join:
  "ps \<noteq> [] \<Longrightarrow> (\<And>p. p \<in> set ps \<Longrightarrow> c \<notin> set p) \<Longrightarrow> split_on c (join_with [c] ps) = ps"
proof (induction ps)
  case (Cons p ps)
  then show ?case
    by (cases ps) (auto simp: split_on_append_part split_on_single)
qed simp

lemma length_split_on: "length (split_on c s) = Suc (count_list s c)"
proof (induction s)
  case (Cons x xs)
  obtain q qs where "split_on c xs = q # qs"
    by (cases "split_on c xs") auto
  with Cons show ?case by auto
qed simp

lemma indexOf_None_iff: "indexOf s pat = None \<longleftrightarrow> \<not> sublist pat s"
  by (induction s) (auto simp: sublist_Cons_right)

lemma indexOf_Some:
  "indexOf s pat = Some i \<Longrightarrow> prefix pat (drop i s) \<and> i + length pat \<le> length s"
proof (induction s arbitrary: i)
  case (Cons x xs)
  show ?case
  proof (cases "prefix pat (x # xs)")
    case True
    with Cons.prems show ?thesis by (auto dest: prefix_length_le)
  next
    case False
    with Cons.prems obtain j where "indexOf xs pat = Some j" "i = Suc j" by auto
    with Cons.IH show ?thesis by auto
  qed
qed (auto split: if_splits)

lemma indexOf_least:
  "indexOf s pat = Some i \<Longrightarrow> j < i \<Longrightarrow> \<not> prefix pat (drop j s)"
proof (induction s arbitrary: i j)
  case (Cons x xs)
  show ?case
  proof (cases "prefix pat (x # xs)")
    case True
    with Cons.prems show ?thesis by auto
  next
    case False
    with Cons.prems obtain k where k: "indexOf xs pat = Some k" "i = Suc k" by auto
    show ?thesis
    proof (cases j)
      case 0
      with False show ?thesis by simp
    next
      case (Suc j')
      with k Cons.prems Cons.IH show ?thesis by auto
    qed
  qed
qed (auto split: if_splits)

lemma indexOf_char_append: "indexOf s [c] = Some n \<Longrightarrow> indexOf (s @ t) [c] = Some n"
  by (induction s arbitrary: n) (auto split: if_splits)

lemma indexOf_fresh_char: "c \<notin> set s \<Longrightarrow> indexOf (s @ c # t) [c] = Some (length s)"
  by (induction s) auto

lemma indexOf_Some_decomp:
  assumes "indexOf s pat = Some i"
  shows "s = take i s @ pat @ drop (i + length pat) s"
proof -
  from indexOf_Some [OF assms] obtain t where "drop i s = pat @ t"
    by (auto elim: prefixE)
  then have "drop (i + length pat) s = t"
    by (metis add.commute append_eq_conv_conj drop_drop)
  with \<open>drop i s = pat @ t\<close> show ?thesis
    by (metis append_take_drop_id)
qed

lemma lastIndexOf_char_Some:
  "lastIndexOf_char s c = Some i \<Longrightarrow>
     i < length s \<and> s ! i = c \<and> c \<notin> set (drop (Suc i) s)"
proof (induction s arbitrary: i)
  case (Cons x xs)
  then show ?case
  proof (cases "lastIndexOf_char xs c")
    case None
    have "lastIndexOf_char ys c = None \<Longrightarrow> c \<notin> set ys" for ys :: "'a list"
      by (induction ys) (auto split: option.splits if_splits)
    with None Cons.prems show ?thesis by (auto split: if_splits)
  qed (auto)
qed simp

lemma lastIndexOf_char_append:
  "c \<notin> set t \<Longrightarrow> lastIndexOf_char (s @ c # t) c = Some (length s)"
proof (induction s)
  case Nil
  have "c \<notin> set ys \<Longrightarrow> lastIndexOf_char ys c = None" for ys :: "'a list"
    by (induction ys) auto
  with Nil show ?case by simp
qed simp

lemma slice_0: "slice 0 b s = take b s"
  by (simp add: slice_def)

lemma take_slice: "take a s @ slice a b s = take (max a b) s"
  unfolding slice_def
  by (metis add_diff_inverse_nat append_Nil2 diff_is_0_eq' linorder_not_le max.absorb1
      max.absorb2 nat_less_le take_0 take_add)

subsection \<open>White space and number conversion\<close>

definition code :: "char \<Rightarrow> nat" where
  "code c = of_char c"

definition js_ws :: "char \<Rightarrow> bool" where
  "js_ws c = (code c \<in> {9, 10, 11, 12, 13, 32, 160})"

definition trim :: "string \<Rightarrow> string" where
  "trim s = rev (dropWhile js_ws (rev (dropWhile js_ws s)))"

datatype jsnum = NaN | Infinity | NegInfinity | Num rat

definition is_digit :: "char \<Rightarrow> bool" where
  "is_digit c = (48 \<le> code c \<and> code c \<le> 57)"

definition digit_value :: "char \<Rightarrow> nat option" where
  "digit_value c =
     (if is_digit c then Some (code c - 48)
      else if 97 \<le> code c \<and> code c \<le> 122 then Some (code c - 87)
      else if 65 \<le> code c \<and> code c \<le> 90 then Some (code c - 55)
      else None)"

fun digits_value :: "nat \<Rightarrow> nat \<Rightarrow> string \<Rightarrow> nat option" where
  "digits_value b acc [] = Some acc"
| "digits_value b acc (c # cs) =
     (case digit_value c of
        Some d \<Rightarrow> (if d < b then digits_value b (acc * b + d) cs else None)
      | None \<Rightarrow> None)"

definition js_radix :: "nat \<Rightarrow> string \<Rightarrow> jsnum" where
  "js_radix b s =
     (case (if s = [] then None else digits_value b 0 s) of
        Some n \<Rightarrow> Num (of_nat n) | None \<Rightarrow> NaN)"

definition js_exponent :: "string \<Rightarrow> int option" where
  "js_exponent s =
     (let (neg, ds) = (case s of [] \<Rightarrow> (False, [])
        | c # cs \<Rightarrow> if c = CHR ''-'' then (True, cs) else if c = CHR ''+'' then (False, cs)
                    else (False, s))
      in if ds = [] \<or> \<not> list_all is_digit ds then None
         else map_option (\<lambda>n. if neg then - int n else int n) (digits_value 10 0 ds))"

definition scale10 :: "rat \<Rightarrow> int \<Rightarrow> rat" where
  "scale10 m e = (if 0 \<le> e then m * 10 ^ nat e else m / 10 ^ nat (- e))"

text \<open>An unsigned decimal literal: digits, optional fraction, optional exponent.\<close>

definition js_unsigned :: "string \<Rightarrow> rat option" where
  "js_unsigned s =
     (let ip = takeWhile is_digit s; r1 = dropWhile is_digit s;
          (fp, r2) = (case r1 of [] \<Rightarrow> ([], [])
            | c # r \<Rightarrow> if c = CHR ''.'' then (takeWhile is_digit r, dropWhile is_digit r)
                       else ([], r1))
      in if ip = [] \<and> fp = [] then None
         else
           (let m = scale10 (of_nat (the (digits_value 10 0 (ip @ fp)))) (- int (length fp))
            in (case r2 of [] \<Rightarrow> Some m
                | c # r \<Rightarrow> if c = CHR ''e'' \<or> c = CHR ''E''
                           then map_option (scale10 m) (js_exponent r) else None)))"

definition js_decimal :: "string \<Rightarrow> jsnum" where
  "js_decimal s =
     (let (neg, r) = (case s of [] \<Rightarrow> (False, [])
        | c # cs \<Rightarrow> if c = CHR ''-'' then (True, cs) else if c = CHR ''+'' then (False, cs)
                    else (False, s))
      in if r = ''Infinity'' then (if neg then NegInfinity else Infinity)
         else (case js_unsigned r of None \<Rightarrow> NaN | Some q \<Rightarrow> Num (if neg then - q else q)))"

definition js_Number :: "string \<Rightarrow> jsnum" where
  "js_Number str =
     (let s = trim str in
      if s = [] then Num 0
      else if prefix ''0x'' s \<or> prefix ''0X'' s then js_radix 16 (drop 2 s)
      else if prefix ''0o'' s \<or> prefix ''0O'' s then js_radix 8 (drop 2 s)
      else if prefix ''0b'' s \<or> prefix ''0B'' s then js_radix 2 (drop 2 s)
      else js_decimal s)"

fun isInteger :: "jsnum \<Rightarrow> bool" where
  "isInteger (Num q) = (of_int \<lfloor>q\<rfloor> = q)"
| "isInteger _ = False"

fun isFinite :: "jsnum \<Rightarrow> bool" where
  "isFinite (Num q) = True"
| "isFinite _ = False"

lemmas js_Number_eval =
  js_Number_def trim_def js_ws_def code_def js_decimal_def js_unsigned_def js_radix_def
  js_exponent_def is_digit_def scale10_def digit_value_def

text \<open>Decimal digits of a natural number, as template literals print it.\<close>

fun string_of_nat :: "nat \<Rightarrow> string" where
  "string_of_nat n =
     (if n < 10 then [char_of (48 + n)]
      else string_of_nat (n div 10) @ [char_of (48 + n mod 10)])"

declare string_of_nat.simps [simp del]

lemma digits_value_append:
  "digits_value b acc (s @ t) = Option.bind (digits_value b acc s) (\<lambda>a. digits_value b a t)"
  by (induction s arbitrary: acc) (auto split: option.splits)

lemma code_char_of: "n < 256 \<Longrightarrow> code (char_of n) = n"
  by (simp add: code_def of_char_of)

lemma digit_value_char_of: "d < 10 \<Longrightarrow> digit_value (char_of (48 + d)) = Some d"
  by (simp add: digit_value_def is_digit_def code_char_of)

lemma is_digit_char_of: "(d::nat) < 10 \<Longrightarrow> is_digit (char_of (48 + d))"
  by (simp add: is_digit_def code_char_of)

lemma string_of_nat_digits: "list_all is_digit (string_of_nat n)"
  by (induction n rule: string_of_nat.induct)
     (subst string_of_nat.simps, auto simp: is_digit_char_of)

lemma string_of_nat_nonempty [simp]: "string_of_nat n \<noteq> []"
  by (subst string_of_nat.simps) simp

lemma digits_value_string_of_nat: "digits_value 10 0 (string_of_nat n) = Some n"
proof (induction n rule: string_of_nat.induct)
  case (1 n)
  then show ?case
    by (subst string_of_nat.simps)
       (auto simp: digits_value_append digit_value_char_of)
qed

lemma digit_not_ws: "is_digit c \<Longrightarrow> \<not> js_ws c"
  by (auto simp: is_digit_def js_ws_def)

lemma trim_digits:
  assumes "list_all is_digit s"
  shows "trim s = s"
proof -
  have *: "dropWhile js_ws t = t" if "list_all is_digit t" for t
    using that by (cases t) (auto simp: digit_not_ws)
  have "list_all is_digit (rev s)"
    using assms by (auto simp: list_all_iff)
  with assms show ?thesis by (simp add: trim_def *)
qed

lemma js_unsigned_digits:
  assumes "list_all is_digit s" "s \<noteq> []"
  shows "js_unsigned s = Some (of_nat (the (digits_value 10 0 s)))"
proof -
  have tw: "takeWhile is_digit s = s" and dw: "dropWhile is_digit s = []"
    using assms by (auto simp: list_all_iff)
  show ?thesis using assms(2) by (simp add: js_unsigned_def scale10_def Let_def tw dw)
qed

lemma js_Number_digits:
  assumes "list_all is_digit s" "s \<noteq> []"
  shows "js_Number s = Num (of_nat (the (digits_value 10 0 s)))"
proof -
  from assms obtain c cs where s: "s = c # cs" and c: "is_digit c" and cs: "list_all is_digit cs"
    by (cases s) auto
  have nd: "\<not> is_digit x" if "x \<in> set ''xXoObB+-I''" for x
    using that by (auto simp: is_digit_def code_def)
  have pre: "\<not> prefix [CHR ''0'', x] s" if "x \<in> set ''xXoObB''" for x
    using nd [of x] that cs s by (cases cs) auto
  have sgn: "c \<noteq> CHR ''-''" "c \<noteq> CHR ''+''" "s \<noteq> ''Infinity''"
    using nd [of c] c s by auto
  have "js_decimal s = Num (of_nat (the (digits_value 10 0 s)))"
    using sgn js_unsigned_digits [OF assms] by (simp add: js_decimal_def s)
  with pre trim_digits [OF assms(1)] assms(2) show ?thesis
    by (simp add: js_Number_def Let_def)
qed

lemma js_Number_string_of_nat: "js_Number (string_of_nat n) = Num (of_nat n)"
  by (simp add: js_Number_digits string_of_nat_digits digits_value_string_of_nat)

text \<open>Digits without a leading zero are the decimal digits of their value.\<close>

lemma digits_value_snoc_digit:
  assumes "is_digit c"
  shows "\<exists>d < 10. digit_value c = Some d \<and> c = char_of (48 + d)"
proof -
  have "code c - 48 < 10" "char_of (48 + (code c - 48)) = c"
    using assms by (auto simp: is_digit_def code_def)
  with assms show ?thesis
    by (intro exI [of _ "code c - 48"]) (auto simp: digit_value_def)
qed

lemma string_of_nat_of_digits:
  assumes "list_all is_digit s" "s \<noteq> []" "length s = 1 \<or> hd s \<noteq> CHR ''0''"
  shows "\<exists>n. digits_value 10 0 s = Some n \<and> string_of_nat n = s \<and> (length s > 1 \<longrightarrow> n > 0)"
  using assms
proof (induction s rule: rev_induct)
  case (snoc c s)
  from snoc.prems digits_value_snoc_digit [of c] obtain d where
    d: "d < 10" "digit_value c = Some d" "c = char_of (48 + d)" by auto
  show ?case
  proof (cases "s = []")
    case True
    with d show ?thesis by (simp add: string_of_nat.simps [of d])
  next
    case False
    from False snoc.prems have hd: "hd s \<noteq> CHR ''0''" by (simp add: hd_append)
    with False snoc obtain n where n: "digits_value 10 0 s = Some n" "string_of_nat n = s"
      "length s > 1 \<longrightarrow> n > 0" by auto
    have "n > 0"
    proof (rule ccontr)
      assume "\<not> n > 0"
      with n False have "length s = 1" "s = string_of_nat 0" by (cases s; auto)+
      moreover have "char_of (48 :: nat) = CHR ''0''" by code_simp
      ultimately show False using hd by (simp add: string_of_nat.simps [of 0])
    qed
    with n d False show ?thesis
      by (simp add: digits_value_append string_of_nat.simps [of "n * 10 + d"])
  qed
qed simp

subsection \<open>Maps in insertion order\<close>

text \<open>
  The contract of a JavaScript \<open>Map\<close> the components rely on: \<open>get\<close> after \<open>set\<close> and
  \<open>delete\<close>, and the invariant that a key occurs once.
\<close>

locale js_map =
  fixes get :: "'m \<Rightarrow> 'k \<Rightarrow> 'v option"
    and set_entry :: "'k \<Rightarrow> 'v \<Rightarrow> 'm \<Rightarrow> 'm"
    and delete_entry :: "'k \<Rightarrow> 'm \<Rightarrow> 'm"
    and keys :: "'m \<Rightarrow> 'k list"
  assumes get_set: "get (set_entry k v m) = (get m)(k \<mapsto> v)"
    and get_delete: "get (delete_entry k m) = (get m)(k := None)"
    and keys_get: "k \<in> set (keys m) \<longleftrightarrow> get m k \<noteq> None"
    and keys_set: "keys (set_entry k v m) = (if k \<in> set (keys m) then keys m else keys m @ [k])"
    and keys_delete: "keys (delete_entry k m) = removeAll k (keys m)"
begin

lemma set_delete: "get m k = None \<Longrightarrow> get (delete_entry k (set_entry k v m)) = get m"
  by (auto simp: get_set get_delete fun_eq_iff)

lemma keys_set_delete:
  "get m k = None \<Longrightarrow> keys (delete_entry k (set_entry k v m)) = keys m"
proof -
  assume "get m k = None"
  then have "k \<notin> set (keys m)" by (simp add: keys_get)
  then show ?thesis by (simp add: keys_delete keys_set)
qed

lemma distinct_set: "distinct (keys m) \<Longrightarrow> distinct (keys (set_entry k v m))"
  by (simp add: keys_set)

lemma distinct_delete: "distinct (keys m) \<Longrightarrow> distinct (keys (delete_entry k m))"
  by (simp add: keys_delete distinct_removeAll)

end

interpretation js_alist: js_map map_of AList.update AList.delete "map fst"
proof unfold_locales
  fix k :: 'a and v :: 'b and m :: "('a \<times> 'b) list"
  show "k \<in> set (map fst m) \<longleftrightarrow> map_of m k \<noteq> None"
    by (simp add: map_of_eq_None_iff)
qed (simp_all add: update_conv' delete_conv' update_keys delete_keys)

end
