(* ===== verification/Plugin_Bridge_Args.thy ===== *)
theory Plugin_Bridge_Args
  imports Js_Prelude
begin

text \<open>
  The command line of \<open>tools/plugin-bridge/cli.js\<close>: \<open>parseArgs\<close>, \<open>parseMap\<close>, \<open>checkListen\<close>,
  \<open>checkUpstream\<close> and the checks of \<open>main\<close> up to the point where the routes start.
  An exception is a value of \<open>cli_error\<close>; \<open>cli_message\<close> gives its text. The WHATWG \<open>URL\<close>
  parser of the runtime is the parameter \<open>newURL\<close> (protocol and serialisation of a URL, None
  when the constructor throws); \<open>net.isIP\<close> is modelled by \<open>isIP\<close>.
\<close>

subsection \<open>Errors and data\<close>

datatype cli_error =
    NeedsValue string
  | UnknownArgument string
  | BadMap string
  | NotHostPort string
  | NotAPort string
  | WildcardListen string
  | NotLoopback string
  | NotAUrl string
  | NotWebSocketUrl string

fun cli_message :: "cli_error \<Rightarrow> string" where
  "cli_message (NeedsValue arg) = arg @ '' needs a value''"
| "cli_message (UnknownArgument arg) = ''unknown argument '' @ arg"
| "cli_message (BadMap spec) = ''--map must be <local-host:port>=<ws-url>, got '' @ spec"
| "cli_message (NotHostPort addr) = ''the local side of --map must be host:port, got '' @ addr"
| "cli_message (NotAPort addr) = ''the local side of --map is not a port: '' @ addr"
| "cli_message (WildcardListen addr) = ''--map local side '' @ addr @
     '' is a wildcard; this endpoint is keyless, so name the loopback address explicitly''"
| "cli_message (NotLoopback addr) = ''--map local side '' @ addr @
     '' is not loopback; the bridge serves the browser on THIS machine, and exposing it further would let anyone who can reach it drive your browser''"
| "cli_message (NotAUrl raw) = ''the upstream side of --map is not a URL: '' @ raw"
| "cli_message (NotWebSocketUrl p) = ''the upstream side of --map must be ws:// or wss://, got '' @ p"

record cli_args =
  maps :: "string list"
  quiet :: bool
  help_flag :: bool

record listen_addr =
  host :: string
  port :: rat
  addr :: string

record route =
  listen :: listen_addr
  upstream :: string
  route_spec :: string

subsection \<open>The one dependency: \<open>loadWs\<close>\<close>

text \<open>
  What \<open>require('ws')\<close> finds, a value of the environment: nothing, or a module at a path that
  may or may not export the two classes. \<open>fatalDependency\<close> exits with status 4.
\<close>

record ws_module =
  ws_from :: string
  has_server_class :: bool
  has_socket_class :: bool

datatype dependency = NotInstalled | TooOld string | WsReady

definition loadWs :: "ws_module option \<Rightarrow> dependency" where
  "loadWs found =
     (case found of
        None \<Rightarrow> NotInstalled
      | Some m \<Rightarrow> if \<not> has_server_class m \<or> \<not> has_socket_class m then TooOld (ws_from m)
                 else WsReady)"

definition fatalDependency_exit :: "dependency \<Rightarrow> nat option" where
  "fatalDependency_exit d = (case d of WsReady \<Rightarrow> None | _ \<Rightarrow> Some 4)"

subsection \<open>Arguments\<close>

fun parseArgs_from :: "cli_args \<Rightarrow> string list \<Rightarrow> (cli_error, cli_args) result" where
  "parseArgs_from out [] = Inr out"
| "parseArgs_from out (arg # rest) =
     (if arg = ''--help'' \<or> arg = ''-h'' then parseArgs_from (out\<lparr>help_flag := True\<rparr>) rest
      else if arg = ''--quiet'' then parseArgs_from (out\<lparr>quiet := True\<rparr>) rest
      else if arg = ''--map'' then
        (case rest of
           [] \<Rightarrow> Inl (NeedsValue arg)
         | v # rest' \<Rightarrow>
             if prefix ''--'' v then Inl (NeedsValue arg)
             else parseArgs_from (out\<lparr>maps := maps out @ [v]\<rparr>) rest')
      else Inl (UnknownArgument arg))"

definition parseArgs :: "string list \<Rightarrow> (cli_error, cli_args) result" where
  "parseArgs argv = parseArgs_from \<lparr>maps = [], quiet = False, help_flag = False\<rparr> argv"

subsection \<open>IP addresses: \<open>net.isIP\<close>\<close>

text \<open>An octet as \<open>net.isIP\<close> accepts it: one to three digits, no leading zero, at most 255.\<close>

definition v4_octet :: "string \<Rightarrow> bool" where
  "v4_octet s =
     (s \<noteq> [] \<and> length s \<le> 3 \<and> list_all is_digit s \<and>
      (length s = 1 \<or> hd s \<noteq> CHR ''0'') \<and> the (digits_value 10 0 s) \<le> 255)"

definition isIPv4 :: "string \<Rightarrow> bool" where
  "isIPv4 s = (let ps = split_on CHR ''.'' s in length ps = 4 \<and> list_all v4_octet ps)"

definition is_hex_group :: "string \<Rightarrow> bool" where
  "is_hex_group s = (s \<noteq> [] \<and> length s \<le> 4 \<and> digits_value 16 0 s \<noteq> None)"

text \<open>
  The number of 16-bit groups of a colon-separated part: hexadecimal groups, the last of
  which may be an IPv4 address (two groups) when \<open>v4\<close> allows it.
\<close>

fun v6_groups :: "bool \<Rightarrow> string list \<Rightarrow> nat option" where
  "v6_groups v4 [] = Some 0"
| "v6_groups v4 [g] = (if is_hex_group g then Some 1 else if v4 \<and> isIPv4 g then Some 2 else None)"
| "v6_groups v4 (g # gs) = (if is_hex_group g then map_option Suc (v6_groups v4 gs) else None)"

definition v6_part :: "bool \<Rightarrow> string \<Rightarrow> nat option" where
  "v6_part v4 s = (if s = [] then Some 0 else v6_groups v4 (split_on CHR '':'' s))"

definition v6_zone :: "string \<Rightarrow> bool" where
  "v6_zone z = (z \<noteq> [] \<and> list_all (\<lambda>c. digit_value c \<noteq> None \<or> c \<in> {CHR ''-'', CHR ''.'', CHR '':''}) z)"

definition isIPv6 :: "string \<Rightarrow> bool" where
  "isIPv6 s =
     (let body = takeWhile (\<lambda>c. c \<noteq> CHR ''%'') s; zone = drop (Suc (length body)) s
      in (length body = length s \<or> v6_zone zone) \<and>
         (case indexOf body ''::'' of
            None \<Rightarrow> body \<noteq> [] \<and> v6_part True body = Some 8
          | Some i \<Rightarrow>
              (case (v6_part False (take i body), v6_part True (drop (i + 2) body)) of
                 (Some a, Some b) \<Rightarrow> a + b \<le> 7 | _ \<Rightarrow> False)))"

definition isIP :: "string \<Rightarrow> nat" where
  "isIP s = (if isIPv4 s then 4 else if isIPv6 s then 6 else 0)"

subsection \<open>One route\<close>

text \<open>\<open>addr.slice(0, at).replace(/^\[|\]$/g, '')\<close>.\<close>

definition strip_brackets :: "string \<Rightarrow> string" where
  "strip_brackets h =
     (let h1 = (case h of [] \<Rightarrow> [] | c # cs \<Rightarrow> if c = CHR ''['' then cs else h)
      in if h1 \<noteq> [] \<and> last h1 = CHR '']'' then butlast h1 else h1)"

definition is_loopback_host :: "string \<Rightarrow> bool" where
  "is_loopback_host h =
     (h = ''localhost'' \<or>
      (isIP h = 4 \<and> prefix ''127.'' h) \<or>
      (isIP h = 6 \<and> (h = ''::1'' \<or> h = ''0:0:0:0:0:0:0:1'')))"

definition checkListen :: "string \<Rightarrow> (cli_error, listen_addr) result" where
  "checkListen a =
     (case lastIndexOf_char a CHR '':'' of
        None \<Rightarrow> Inl (NotHostPort a)
      | Some pos \<Rightarrow>
          if pos = 0 then Inl (NotHostPort a)
          else
            (let h = strip_brackets (slice 0 pos a); p = js_Number (drop (Suc pos) a) in
             (case p of
                Num q \<Rightarrow>
                  if \<not> isInteger p \<or> q < 0 \<or> q > 65535 then Inl (NotAPort a)
                  else if h = '''' \<or> h = ''0.0.0.0'' \<or> h = ''::'' then Inl (WildcardListen a)
                  else if \<not> is_loopback_host h then Inl (NotLoopback a)
                  else Inr \<lparr>host = h, port = q, addr = a\<rparr>
              | _ \<Rightarrow> Inl (NotAPort a))))"

definition checkUpstream ::
  "(string \<Rightarrow> (string \<times> string) option) \<Rightarrow> string \<Rightarrow> (cli_error, string) result" where
  "checkUpstream newURL raw =
     (case newURL raw of
        None \<Rightarrow> Inl (NotAUrl raw)
      | Some (protocol, href) \<Rightarrow>
          if protocol \<noteq> ''ws:'' \<and> protocol \<noteq> ''wss:'' then Inl (NotWebSocketUrl protocol)
          else Inr href)"

definition parseMap ::
  "(string \<Rightarrow> (string \<times> string) option) \<Rightarrow> string \<Rightarrow> (cli_error, route) result" where
  "parseMap newURL spec =
     (case indexOf spec ''='' of
        None \<Rightarrow> Inl (BadMap spec)
      | Some pos \<Rightarrow>
          if pos = 0 then Inl (BadMap spec)
          else (case checkListen (slice 0 pos spec) of
                  Inl e \<Rightarrow> Inl e
                | Inr l \<Rightarrow>
                    (case checkUpstream newURL (drop (Suc pos) spec) of
                       Inl e \<Rightarrow> Inl e
                     | Inr u \<Rightarrow> Inr \<lparr>listen = l, upstream = u, route_spec = spec\<rparr>)))"

subsection \<open>The checks of \<open>main\<close>\<close>

text \<open>\<open>args.maps.map(parseMap)\<close>: the first exception ends the call.\<close>

fun parseMaps ::
  "(string \<Rightarrow> (string \<times> string) option) \<Rightarrow> string list \<Rightarrow> (cli_error, route list) result" where
  "parseMaps newURL [] = Inr []"
| "parseMaps newURL (m # ms) =
     (case parseMap newURL m of
        Inl e \<Rightarrow> Inl e
      | Inr r \<Rightarrow> (case parseMaps newURL ms of Inl e \<Rightarrow> Inl e | Inr rs \<Rightarrow> Inr (r # rs)))"

text \<open>The loop over \<open>seen\<close>: the first local address that was met before.\<close>

fun duplicate_listen :: "string set \<Rightarrow> route list \<Rightarrow> string option" where
  "duplicate_listen seen [] = None"
| "duplicate_listen seen (r # rs) =
     (if addr (listen r) \<in> seen then Some (addr (listen r))
      else duplicate_listen (insert (addr (listen r)) seen) rs)"

datatype launch =
    ExitUsage string
  | ExitBad string
  | PrintUsage
  | StartRoutes "route list" bool

definition main_launch ::
  "(string \<Rightarrow> (string \<times> string) option) \<Rightarrow> string list \<Rightarrow> launch" where
  "main_launch newURL argv =
     (case parseArgs argv of
        Inl e \<Rightarrow> ExitUsage (cli_message e)
      | Inr args \<Rightarrow>
          if help_flag args then PrintUsage
          else if maps args = [] then ExitUsage ''at least one --map is required''
          else
            (case parseMaps newURL (maps args) of
               Inl e \<Rightarrow> ExitBad (cli_message e)
             | Inr routes \<Rightarrow>
                 (case duplicate_listen {} routes of
                    Some a \<Rightarrow> ExitBad (a @ '' appears in more than one --map; each local address can forward to exactly one adapter'')
                  | None \<Rightarrow> StartRoutes routes (quiet args))))"

text \<open>The exit status of a launch that does not start: every argument error exits with 2.\<close>

fun launch_exit :: "launch \<Rightarrow> nat option" where
  "launch_exit (ExitUsage m) = Some 2"
| "launch_exit (ExitBad m) = Some 2"
| "launch_exit PrintUsage = Some 0"
| "launch_exit (StartRoutes rs q) = None"

subsection \<open>What the command line accepts\<close>

text \<open>The words of a command line, and how they are written.\<close>

datatype cli_word = WHelp | WShortHelp | WQuiet | WMap string

fun render_word :: "cli_word \<Rightarrow> string list" where
  "render_word WHelp = [''--help'']"
| "render_word WShortHelp = [''-h'']"
| "render_word WQuiet = [''--quiet'']"
| "render_word (WMap m) = [''--map'', m]"

fun word_map :: "cli_word \<Rightarrow> string list" where
  "word_map (WMap m) = [m]"
| "word_map _ = []"

fun word_ok :: "cli_word \<Rightarrow> bool" where
  "word_ok (WMap m) = (\<not> prefix ''--'' m)"
| "word_ok _ = True"

definition args_of_words :: "cli_args \<Rightarrow> cli_word list \<Rightarrow> cli_args" where
  "args_of_words out ws =
     out\<lparr>maps := maps out @ concat (map word_map ws),
         quiet := (quiet out \<or> WQuiet \<in> set ws),
         help_flag := (help_flag out \<or> WHelp \<in> set ws \<or> WShortHelp \<in> set ws)\<rparr>"

lemma args_of_words_Nil [simp]: "args_of_words out [] = out"
  by (simp add: args_of_words_def)

lemma parseArgs_from_words:
  "list_all word_ok ws \<Longrightarrow>
     parseArgs_from out (concat (map render_word ws)) = Inr (args_of_words out ws)"
proof (induction ws arbitrary: out)
  case (Cons w ws)
  then show ?case by (cases w) (simp_all add: args_of_words_def)
qed simp

lemma parseArgs_from_complete:
  "parseArgs_from out argv = Inr a \<Longrightarrow>
     \<exists>ws. list_all word_ok ws \<and> argv = concat (map render_word ws) \<and> a = args_of_words out ws"
proof (induction out argv rule: parseArgs_from.induct)
  case (1 out)
  then show ?case by (intro exI [of _ "[]"]) simp
next
  case (2 out arg rest)
  have step: "\<exists>ws. list_all word_ok ws \<and> arg # rest = concat (map render_word ws) \<and> a = args_of_words out ws"
    if "word_ok w" "arg # rest = render_word w @ rest'"
      "\<exists>ws. list_all word_ok ws \<and> rest' = concat (map render_word ws) \<and> a = args_of_words out' ws"
      "\<And>ws. args_of_words out' ws = args_of_words out (w # ws)" for w rest' out'
    using that by (metis (no_types) concat.simps(2) list.pred_inject(2) list.simps(9))
  consider "arg = ''--help''" | "arg = ''-h''" | "arg = ''--quiet''" |
    v rest' where "arg = ''--map''" "rest = v # rest'" "\<not> prefix ''--'' v"
    using "2.prems" by (auto split: if_splits list.splits)
  then show ?case
  proof cases
    case 1
    with 2 show ?thesis by (intro step [of WHelp rest "out\<lparr>help_flag := True\<rparr>"])
        (auto simp: args_of_words_def)
  next
    case 2
    with "2.IH" "2.prems" show ?thesis by (intro step [of WShortHelp rest "out\<lparr>help_flag := True\<rparr>"])
        (auto simp: args_of_words_def)
  next
    case 3
    with 2 show ?thesis by (intro step [of WQuiet rest "out\<lparr>quiet := True\<rparr>"])
        (auto simp: args_of_words_def)
  next
    case (4 v rest')
    with 2 show ?thesis by (intro step [of "WMap v" rest' "out\<lparr>maps := maps out @ [v]\<rparr>"])
        (auto simp: args_of_words_def)
  qed
qed

subsection \<open>What a loopback host is\<close>

lemma v4_octet_iff: "v4_octet s \<longleftrightarrow> (\<exists>n \<le> 255. s = string_of_nat n)"
proof
  assume "v4_octet s"
  then show "\<exists>n \<le> 255. s = string_of_nat n"
    using string_of_nat_of_digits [of s] by (auto simp: v4_octet_def)
next
  assume "\<exists>n \<le> 255. s = string_of_nat n"
  then obtain n where n: "n \<le> 255" "s = string_of_nat n" by blast
  have "length s \<le> 3 \<and> (length s = 1 \<or> hd s \<noteq> CHR ''0'')"
  proof -
    have hd0: "char_of (48 + k) \<noteq> CHR ''0''" if "k > 0" "k < 10" for k :: nat
    proof
      assume "char_of (48 + k) = CHR ''0''"
      then have "code (char_of (48 + k)) = code CHR ''0''" by simp
      with that show False by (simp add: code_char_of) (simp add: code_def)
    qed
    consider "n < 10" | "10 \<le> n" "n < 100" | "100 \<le> n" by linarith
    then show ?thesis
      using n hd0 [of "n div 10"] hd0 [of "n div 10 div 10"]
      by cases (auto simp: string_of_nat.simps [of n] string_of_nat.simps [of "n div 10"]
          string_of_nat.simps [of "n div 10 div 10"])
  qed
  with n string_of_nat_digits [of n] digits_value_string_of_nat [of n] show "v4_octet s"
    by (simp add: v4_octet_def)
qed

lemma dot_notin_digits: "CHR ''.'' \<notin> set (string_of_nat n)"
  using string_of_nat_digits [of n] by (auto simp: list_all_iff is_digit_def code_def)

lemma isIPv4_iff:
  "isIPv4 s \<longleftrightarrow> (\<exists>a b c d. a \<le> 255 \<and> b \<le> 255 \<and> c \<le> 255 \<and> d \<le> 255 \<and>
     s = join_with ''.'' (map string_of_nat [a, b, c, d]))"
proof
  assume "isIPv4 s"
  then obtain p q r t where sp: "split_on CHR ''.'' s = [p, q, r, t]"
    and oct: "v4_octet p" "v4_octet q" "v4_octet r" "v4_octet t"
    by (auto simp: isIPv4_def Let_def numeral_eq_Suc length_Suc_conv)
  have "s = join_with ''.'' [p, q, r, t]"
    by (metis sp join_split_on)
  moreover from oct obtain a b c d where "a \<le> 255" "b \<le> 255" "c \<le> 255" "d \<le> 255"
    "p = string_of_nat a" "q = string_of_nat b" "r = string_of_nat c" "t = string_of_nat d"
    unfolding v4_octet_iff by blast
  ultimately show "\<exists>a b c d. a \<le> 255 \<and> b \<le> 255 \<and> c \<le> 255 \<and> d \<le> 255 \<and>
     s = join_with ''.'' (map string_of_nat [a, b, c, d])" by auto
next
  assume "\<exists>a b c d. a \<le> 255 \<and> b \<le> 255 \<and> c \<le> 255 \<and> d \<le> 255 \<and>
     s = join_with ''.'' (map string_of_nat [a, b, c, d])"
  then obtain a b c d where le: "a \<le> 255" "b \<le> 255" "c \<le> 255" "d \<le> 255"
    and s: "s = join_with ''.'' (map string_of_nat [a, b, c, d])" by blast
  have "split_on CHR ''.'' s = map string_of_nat [a, b, c, d]"
    unfolding s by (rule split_on_join) (auto simp: dot_notin_digits)
  with le show "isIPv4 s"
    by (auto simp: isIPv4_def v4_octet_iff)
qed

text \<open>The loopback addresses: a name, the two spellings of \<open>::1\<close>, and \<open>127.0.0.0/8\<close>.\<close>

definition loopback_spec :: "string \<Rightarrow> bool" where
  "loopback_spec h \<longleftrightarrow>
     h = ''localhost'' \<or> h = ''::1'' \<or> h = ''0:0:0:0:0:0:0:1'' \<or>
     (\<exists>b c d. b \<le> 255 \<and> c \<le> 255 \<and> d \<le> 255 \<and>
        h = join_with ''.'' (map string_of_nat [127, b, c, d]))"

lemma string_of_nat_127: "string_of_nat 127 = ''127''"
  by code_simp

lemma isIP_loopback6: "isIP ''::1'' = 6" "isIP ''0:0:0:0:0:0:0:1'' = 6"
  by code_simp+

lemma ipv4_127_prefix:
  assumes s: "s = join_with ''.'' (map string_of_nat [a, b, c, d])"
  shows "prefix ''127.'' s \<longleftrightarrow> a = 127"
proof
  assume "prefix ''127.'' s"
  then obtain t where t: "s = ''127'' @ CHR ''.'' # t" by (auto elim!: prefixE)
  have "split_on CHR ''.'' s = ''127'' # split_on CHR ''.'' t"
    unfolding t by (rule split_on_append_part) simp
  moreover have "split_on CHR ''.'' s = map string_of_nat [a, b, c, d]"
    unfolding s by (rule split_on_join) (auto simp: dot_notin_digits)
  ultimately have "string_of_nat a = string_of_nat 127"
    by (simp add: string_of_nat_127)
  then show "a = 127"
    by (metis digits_value_string_of_nat option.inject)
next
  assume "a = 127"
  then show "prefix ''127.'' s" by (simp add: s string_of_nat_127)
qed

lemma is_loopback_host_iff: "is_loopback_host h \<longleftrightarrow> loopback_spec h"
proof -
  have "isIP h = 4 \<longleftrightarrow> isIPv4 h" by (simp add: isIP_def)
  have "isIPv4 h \<and> prefix ''127.'' h \<longleftrightarrow>
     (\<exists>b c d. b \<le> 255 \<and> c \<le> 255 \<and> d \<le> 255 \<and>
        h = join_with ''.'' (map string_of_nat [127, b, c, d]))" (is "?l \<longleftrightarrow> ?r")
  proof
    assume ?l
    then obtain a b c d where "b \<le> 255" "c \<le> 255" "d \<le> 255"
      and h: "h = join_with ''.'' (map string_of_nat [a, b, c, d])"
      unfolding isIPv4_iff by blast
    moreover have "a = 127" using \<open>?l\<close> ipv4_127_prefix [OF h] by blast
    ultimately show ?r by blast
  next
    assume ?r
    then obtain b c d where le: "b \<le> 255" "c \<le> 255" "d \<le> 255"
      and h: "h = join_with ''.'' (map string_of_nat [127, b, c, d])" by blast
    have "prefix ''127.'' h" using ipv4_127_prefix [OF h] by simp
    moreover have "isIPv4 h" unfolding isIPv4_iff
      by (rule exI [of _ 127], intro exI conjI, simp, rule le, rule le, rule le, rule h)
    ultimately show ?l by blast
  qed
  with \<open>isIP h = 4 \<longleftrightarrow> isIPv4 h\<close> show ?thesis
    using isIP_loopback6 by (auto simp: is_loopback_host_def loopback_spec_def)
qed

subsection \<open>A started bridge is loopback only\<close>

definition route_ok :: "(string \<Rightarrow> (string \<times> string) option) \<Rightarrow> route \<Rightarrow> bool" where
  "route_ok newURL r \<longleftrightarrow>
     loopback_spec (host (listen r)) \<and>
     (\<exists>n \<le> 65535. port (listen r) = of_nat n) \<and>
     (\<exists>local raw p. route_spec r = local @ ''='' @ raw \<and> addr (listen r) = local \<and>
        CHR ''='' \<notin> set local \<and> newURL raw = Some (p, upstream r) \<and> (p = ''ws:'' \<or> p = ''wss:''))"

lemma checkListen_ok:
  assumes "checkListen a = Inr l"
  shows "addr l = a \<and> loopback_spec (host l) \<and> (\<exists>n \<le> 65535. port l = of_nat n)"
proof -
  from assms obtain n where "0 \<le> n" "n \<le> 65535" "port l = of_int n"
    and l: "addr l = a" "is_loopback_host (host l)"
    by (auto simp: checkListen_def Let_def not_less split: option.splits if_splits jsnum.splits)
  then have "nat n \<le> 65535 \<and> port l = of_nat (nat n)" by simp
  with l show ?thesis by (auto simp: is_loopback_host_iff)
qed

lemma indexOf_char_prefix:
  assumes "indexOf s [c] = Some i"
  shows "s = take i s @ [c] @ drop (Suc i) s" "c \<notin> set (take i s)"
proof -
  show "s = take i s @ [c] @ drop (Suc i) s"
    using indexOf_Some_decomp [OF assms] by simp
  show "c \<notin> set (take i s)"
  proof
    assume "c \<in> set (take i s)"
    then obtain j where j: "j < i" "j < length s" "s ! j = c"
      by (auto simp: in_set_conv_nth)
    then have "drop j s = c # drop (Suc j) s" by (metis Cons_nth_drop_Suc)
    with indexOf_least [OF assms \<open>j < i\<close>] show False by simp
  qed
qed

lemma parseMap_ok:
  assumes "parseMap newURL spec = Inr r"
  shows "route_ok newURL r \<and> route_spec r = spec"
proof -
  from assms obtain i where i: "indexOf spec ''='' = Some i"
    and l: "checkListen (take i spec) = Inr (listen r)"
    and u: "checkUpstream newURL (drop (Suc i) spec) = Inr (upstream r)"
    and s: "route_spec r = spec"
    by (auto simp: parseMap_def slice_0 split: option.splits if_splits sum.splits)
  from u obtain p where "newURL (drop (Suc i) spec) = Some (p, upstream r)" "p = ''ws:'' \<or> p = ''wss:''"
    by (auto simp: checkUpstream_def split: option.splits if_splits)
  with indexOf_char_prefix [OF i] checkListen_ok [OF l] s show ?thesis
    unfolding route_ok_def by metis
qed

lemma parseMaps_ok:
  "parseMaps newURL ms = Inr rs \<Longrightarrow> list_all (route_ok newURL) rs \<and> map route_spec rs = ms"
  by (induction ms arbitrary: rs) (auto split: sum.splits dest: parseMap_ok)

lemma duplicate_listen_None:
  "duplicate_listen seen rs = None \<Longrightarrow>
     distinct (map (addr \<circ> listen) rs) \<and> set (map (addr \<circ> listen) rs) \<inter> seen = {}"
proof (induction rs arbitrary: seen)
  case (Cons r rs)
  from Cons.prems have "addr (listen r) \<notin> seen"
    and "duplicate_listen (insert (addr (listen r)) seen) rs = None"
    by (simp_all split: if_splits)
  with Cons.IH [of "insert (addr (listen r)) seen"] show ?case by auto
qed simp

lemma string_of_nat_code: "x \<in> set (string_of_nat n) \<Longrightarrow> 48 \<le> code x \<and> code x \<le> 57"
  using string_of_nat_digits [of n] by (auto simp: list_all_iff is_digit_def)

lemma loopback_cases:
  assumes "loopback_spec h"
  obtains "h = ''localhost''" | "h = ''::1''" | "h = ''0:0:0:0:0:0:0:1''"
  | b c d where "h = ''127.'' @ string_of_nat b @ ''.'' @ string_of_nat c @ ''.'' @ string_of_nat d"
  using assms by (auto simp: loopback_spec_def string_of_nat_127)

lemma loopback_no_equals: "loopback_spec h \<Longrightarrow> CHR ''='' \<notin> set h"
proof -
  have "CHR ''='' \<notin> set (string_of_nat n)" for n
    using string_of_nat_code [of "CHR ''=''" n] by (auto simp: code_def)
  then show "loopback_spec h \<Longrightarrow> CHR ''='' \<notin> set h"
    by (erule_tac loopback_cases) simp_all
qed

lemma loopback_no_brackets: "loopback_spec h \<Longrightarrow> strip_brackets h = h"
proof -
  have "last (string_of_nat n) \<noteq> CHR '']''" for n
    using string_of_nat_code [of "last (string_of_nat n)" n] by (auto simp: code_def)
  then show "loopback_spec h \<Longrightarrow> strip_brackets h = h"
    by (erule_tac loopback_cases) (simp_all add: strip_brackets_def)
qed

lemma loopback_not_wildcard:
  "loopback_spec h \<Longrightarrow> h \<noteq> '''' \<and> h \<noteq> ''0.0.0.0'' \<and> h \<noteq> ''::''"
  by (erule loopback_cases) simp_all

lemmas loopback_chars = loopback_no_equals loopback_no_brackets loopback_not_wildcard

lemma checkListen_render:
  assumes h: "loopback_spec h" and p: "p \<le> 65535"
  shows "checkListen (h @ '':'' @ string_of_nat p) =
    Inr \<lparr>host = h, port = of_nat p, addr = h @ '':'' @ string_of_nat p\<rparr>"
proof -
  have "CHR '':'' \<notin> set (string_of_nat p)"
    using string_of_nat_digits [of p] by (auto simp: list_all_iff is_digit_def code_def)
  then have "lastIndexOf_char (h @ '':'' @ string_of_nat p) CHR '':'' = Some (length h)"
    by (simp add: lastIndexOf_char_append)
  moreover have "of_int \<lfloor>rat_of_nat p\<rfloor> = rat_of_nat p" by simp
  ultimately show ?thesis
    using loopback_chars [OF h] h p
    by (simp add: checkListen_def slice_0 js_Number_string_of_nat is_loopback_host_iff)
qed

subsection \<open>Properties\<close>

text \<open>
  C1. A bridge that starts serves loopback addresses only: whatever the arguments, when
  \<open>main\<close> gets as far as starting routes there is at least one, every local host is a loopback
  name or address (never a wildcard), every local port is an integer up to 65535, every
  upstream is a URL with protocol \<open>ws:\<close> or \<open>wss:\<close> taken from the right of the first equals
  sign, and no two routes share a local address.
\<close>

theorem main_launch_safe:
  assumes "main_launch newURL argv = StartRoutes rs q"
  shows "rs \<noteq> [] \<and> list_all (route_ok newURL) rs \<and> distinct (map (addr \<circ> listen) rs)"
proof -
  from assms obtain a where a: "parseArgs argv = Inr a" "maps a \<noteq> []"
    and rs: "parseMaps newURL (maps a) = Inr rs" "duplicate_listen {} rs = None"
    by (auto simp: main_launch_def split: sum.splits if_splits option.splits)
  from parseMaps_ok [OF rs(1)] a have "rs \<noteq> []" by auto
  with parseMaps_ok [OF rs(1)] duplicate_listen_None [OF rs(2)] show ?thesis by simp
qed

theorem main_launch_safe_witness:
  "route_ok (\<lambda>u. Some (''ws:'', u))
     \<lparr>listen = \<lparr>host = ''127.0.0.1'', port = 8090, addr = ''127.0.0.1:8090''\<rparr>,
      upstream = ''ws://a/'', route_spec = ''127.0.0.1:8090=ws://a/''\<rparr>"
proof -
  have "main_launch (\<lambda>u. Some (''ws:'', u)) [''--map'', ''127.0.0.1:8090=ws://a/'']
    = StartRoutes [\<lparr>listen = \<lparr>host = ''127.0.0.1'', port = 8090, addr = ''127.0.0.1:8090''\<rparr>,
      upstream = ''ws://a/'', route_spec = ''127.0.0.1:8090=ws://a/''\<rparr>] False"
    by (simp add: main_launch_def parseArgs_def parseMap_def checkListen_def checkUpstream_def
        slice_def strip_brackets_def is_loopback_host_def isIP_def isIPv4_def v4_octet_def
        js_Number_eval Let_def)
  from main_launch_safe [OF this] show ?thesis by simp
qed

text \<open>
  The argument parser accepts exactly the sequences of the words \<open>--help\<close>, \<open>-h\<close>,
  \<open>--quiet\<close> and \<open>--map value\<close> whose values do not start with two dashes, and returns the
  values in the order given and the flags that occur.
\<close>

theorem parseArgs_iff:
  "parseArgs argv = Inr a \<longleftrightarrow>
     (\<exists>ws. list_all word_ok ws \<and> argv = concat (map render_word ws) \<and>
        a = args_of_words \<lparr>maps = [], quiet = False, help_flag = False\<rparr> ws)"
  unfolding parseArgs_def using parseArgs_from_words parseArgs_from_complete by fastforce

text \<open>
  Round trip of a route: for every loopback host, port and upstream text the runtime's URL
  parser accepts as a WebSocket URL, \<open>parseMap\<close> of \<open>host:port=url\<close> returns exactly that host,
  that port and the serialised URL.
\<close>

theorem parseMap_render:
  assumes h: "loopback_spec h" and p: "p \<le> 65535"
    and u: "newURL u = Some (proto, href)" "proto = ''ws:'' \<or> proto = ''wss:''"
  shows "parseMap newURL (h @ '':'' @ string_of_nat p @ ''='' @ u) =
    Inr \<lparr>listen = \<lparr>host = h, port = of_nat p, addr = h @ '':'' @ string_of_nat p\<rparr>,
         upstream = href, route_spec = h @ '':'' @ string_of_nat p @ ''='' @ u\<rparr>"
proof -
  let ?l = "h @ '':'' @ string_of_nat p"
  have "CHR ''='' \<notin> set ?l"
    using loopback_no_equals [OF h] string_of_nat_digits [of p]
    by (auto simp: list_all_iff is_digit_def code_def)
  then have "indexOf (?l @ CHR ''='' # u) ''='' = Some (length ?l)"
    by (rule indexOf_fresh_char)
  then have i: "indexOf (h @ '':'' @ string_of_nat p @ ''='' @ u) ''='' = Some (length ?l)"
    by simp
  have t: "take (length ?l) (h @ '':'' @ string_of_nat p @ ''='' @ u) = ?l"
    "drop (Suc (length ?l)) (h @ '':'' @ string_of_nat p @ ''='' @ u) = u" by simp_all
  have c: "checkListen ?l = Inr \<lparr>host = h, port = of_nat p, addr = ?l\<rparr>"
    by (rule checkListen_render [OF h p])
  have up: "checkUpstream newURL u = Inr href"
    using u by (auto simp: checkUpstream_def)
  show ?thesis
    unfolding parseMap_def i using t c up loopback_not_wildcard [OF h]
    by (simp only: option.case slice_0) simp
qed

theorem parseMap_render_witness:
  "parseMap (\<lambda>u. Some (''wss:'', u @ ''/'')) (''localhost'' @ '':'' @ string_of_nat 8091 @ ''='' @ ''wss://x'') =
    Inr \<lparr>listen = \<lparr>host = ''localhost'', port = of_nat 8091, addr = ''localhost'' @ '':'' @ string_of_nat 8091\<rparr>,
         upstream = ''wss://x/'', route_spec = ''localhost'' @ '':'' @ string_of_nat 8091 @ ''='' @ ''wss://x''\<rparr>"
  by (rule parseMap_render [where proto = "''wss:''"]) (simp_all add: loopback_spec_def)

end
