(* ===== verification/Plugin_Bridge_Route.thy ===== *)
theory Plugin_Bridge_Route
  imports Plugin_Bridge_Args
begin

text \<open>
  The running bridge of \<open>tools/plugin-bridge/cli.js\<close>: \<open>startRoute\<close> (one local endpoint that
  forwards to one upstream) and the part of \<open>main\<close> after the checks.

  A route is a state machine. Its state is the variable \<open>current\<close> and, for each plugin
  connection so far (numbered from 0 in the order of the \<open>connection\<close> events), the array
  \<open>backlog\<close>. Each registered callback is one equation of \<open>route_step\<close>; what it does to the
  sockets is the list of actions it returns. The WebSocket library is not part of the
  repository: the ready state a callback reads is an argument of the event, and a theorem that
  relies on how the library moves it says so (\<open>up_life\<close>). \<open>process_step\<close> composes the routes,
  the \<open>listen\<close> callbacks, bind errors and signals the way \<open>main\<close> does.
\<close>

subsection \<open>One route: \<open>startRoute\<close>\<close>

datatype ready_state = CONNECTING | OPEN | CLOSING | CLOSED

datatype log_line =
    NewPluginLine string
  | ForwardingLine string string
  | ReasonLine string string
  | ListeningLine string string
  | ReadyLine nat
  | StoppingLine

datatype 'd action =
    Log log_line
  | DialUpstream nat string
  | SendUp nat 'd "bool option"
  | SendPlugin nat 'd "bool option"
  | ClosePlugin nat
  | CloseUp nat

datatype 'd event =
    Connection
  | UpOpen nat
  | UpMessage nat 'd bool ready_state
  | UpError nat string
  | UpClose nat
  | PluginMessage nat 'd bool ready_state
  | PluginError nat string
  | PluginClose nat

record 'd route_state =
  backlogs :: "'d list list"
  current :: "nat option"

definition route_init :: "'d route_state" where
  "route_init = \<lparr>backlogs = [], current = None\<rparr>"

text \<open>\<open>verifyClient\<close>: no origin, or a browser extension.\<close>

definition verifyClient :: "string option \<Rightarrow> bool" where
  "verifyClient origin =
     (case origin of None \<Rightarrow> True
      | Some org \<Rightarrow> org = '''' \<or> prefix ''chrome-extension://'' org)"

text \<open>A plain HTTP request is answered with 426.\<close>

definition http_answer :: "nat \<times> string" where
  "http_answer = (426, ''this endpoint speaks WebSocket only'')"

definition closePair ::
  "(log_line \<Rightarrow> 'd action list) \<Rightarrow> route \<Rightarrow> nat \<Rightarrow> string \<Rightarrow> 'd route_state
     \<Rightarrow> 'd route_state \<times> 'd action list" where
  "closePair lg r i why st =
     (if current st = Some i then st\<lparr>current := None\<rparr> else st,
      (if why = '''' then [] else lg (ReasonLine (addr (listen r)) why))
        @ [ClosePlugin i, CloseUp i])"

fun route_step ::
  "(log_line \<Rightarrow> 'd action list) \<Rightarrow> route \<Rightarrow> 'd route_state \<Rightarrow> 'd event
     \<Rightarrow> 'd route_state \<times> 'd action list" where
  "route_step lg r st Connection =
     (let i = length (backlogs st) in
      (st\<lparr>backlogs := backlogs st @ [[]], current := Some i\<rparr>,
       (case current st of
          None \<Rightarrow> []
        | Some j \<Rightarrow> lg (NewPluginLine (addr (listen r))) @ [ClosePlugin j])
         @ [DialUpstream i (upstream r)]))"
| "route_step lg r st (UpOpen i) =
     (st\<lparr>backlogs := (backlogs st)[i := []]\<rparr>,
      lg (ForwardingLine (addr (listen r)) (upstream r))
        @ (if i < length (backlogs st) then map (\<lambda>d. SendUp i d None) (backlogs st ! i) else []))"
| "route_step lg r st (UpMessage i d isBinary plugin_state) =
     (st, if plugin_state = OPEN then [SendPlugin i d (Some isBinary)] else [])"
| "route_step lg r st (UpError i msg) = closePair lg r i (''upstream error: '' @ msg) st"
| "route_step lg r st (UpClose i) = closePair lg r i ''upstream closed'' st"
| "route_step lg r st (PluginMessage i d isBinary up_state) =
     (if up_state = OPEN then (st, [SendUp i d (Some isBinary)])
      else if up_state = CONNECTING then
        (if i < length (backlogs st)
         then st\<lparr>backlogs := (backlogs st)[i := backlogs st ! i @ [d]]\<rparr> else st, [])
      else (st, []))"
| "route_step lg r st (PluginError i msg) = closePair lg r i (''plugin error: '' @ msg) st"
| "route_step lg r st (PluginClose i) = closePair lg r i ''plugin disconnected'' st"

fun route_run ::
  "(log_line \<Rightarrow> 'd action list) \<Rightarrow> route \<Rightarrow> 'd route_state \<Rightarrow> 'd event list
     \<Rightarrow> 'd route_state \<times> 'd action list" where
  "route_run lg r st [] = (st, [])"
| "route_run lg r st (e # es) =
     (let (st1, as) = route_step lg r st e; (st2, bs) = route_run lg r st1 es
      in (st2, as @ bs))"

subsection \<open>The process: \<open>main\<close> after the checks\<close>

datatype 'd process_event =
    Listening nat
  | ServerError nat bool string
  | RouteEvent nat "'d event"
  | Signal

datatype 'd process_action =
    RouteAction nat "'d action"
  | Report log_line
  | InUse string string
  | BindFailed string string
  | CloseServers
  | Exit nat

record 'd process_state =
  route_states :: "'d route_state list"
  pending :: int
  exited :: bool

definition process_init :: "route list \<Rightarrow> 'd process_state" where
  "process_init rs =
     \<lparr>route_states = map (\<lambda>_. route_init) rs, pending = int (length rs), exited = False\<rparr>"

text \<open>\<open>log\<close> is a no-op under \<open>--quiet\<close>.\<close>

definition process_log :: "bool \<Rightarrow> log_line \<Rightarrow> 'd process_action list" where
  "process_log q l = (if q then [] else [Report l])"

definition route_log :: "bool \<Rightarrow> log_line \<Rightarrow> 'd action list" where
  "route_log q l = (if q then [] else [Log l])"

text \<open>The callbacks \<open>onFatal\<close> and \<open>onListening\<close>.\<close>

definition onFatal :: "route \<Rightarrow> bool \<Rightarrow> string \<Rightarrow> 'd process_action list" where
  "onFatal r eaddrinuse msg =
     (if eaddrinuse then [InUse (addr (listen r)) (route_spec r), Exit 3]
      else [BindFailed (addr (listen r)) msg, Exit 1])"

definition onListening ::
  "route list \<Rightarrow> bool \<Rightarrow> 'd process_state \<Rightarrow> 'd process_state \<times> 'd process_action list" where
  "onListening rs q st =
     (let p = pending st - 1 in
      (st\<lparr>pending := p\<rparr>, if p = 0 then process_log q (ReadyLine (length rs)) else []))"

fun process_step ::
  "route list \<Rightarrow> bool \<Rightarrow> 'd process_state \<Rightarrow> 'd process_event
     \<Rightarrow> 'd process_state \<times> 'd process_action list" where
  "process_step rs q st (Listening k) =
     (if exited st \<or> length rs \<le> k then (st, [])
      else
        (let (st', as) = onListening rs q st in
         (st', process_log q (ListeningLine (addr (listen (rs ! k))) (upstream (rs ! k))) @ as)))"
| "process_step rs q st (ServerError k eaddrinuse msg) =
     (if exited st \<or> length rs \<le> k then (st, [])
      else (st\<lparr>exited := True\<rparr>, onFatal (rs ! k) eaddrinuse msg))"
| "process_step rs q st (RouteEvent k e) =
     (if exited st \<or> length (route_states st) \<le> k \<or> length rs \<le> k then (st, [])
      else
        (let (r', as) = route_step (route_log q) (rs ! k) (route_states st ! k) e in
         (st\<lparr>route_states := (route_states st)[k := r']\<rparr>, map (RouteAction k) as)))"
| "process_step rs q st Signal =
     (if exited st then (st, [])
      else (st\<lparr>exited := True\<rparr>, process_log q StoppingLine @ [CloseServers, Exit 0]))"

fun process_run ::
  "route list \<Rightarrow> bool \<Rightarrow> 'd process_state \<Rightarrow> 'd process_event list
     \<Rightarrow> 'd process_state \<times> 'd process_action list" where
  "process_run rs q st [] = (st, [])"
| "process_run rs q st (e # es) =
     (let (st1, as) = process_step rs q st e; (st2, bs) = process_run rs q st1 es
      in (st2, as @ bs))"

subsection \<open>Connections displace each other\<close>

lemma route_run_append:
  "route_run lg r st (es @ fs) =
     (let (st1, as) = route_run lg r st es; (st2, bs) = route_run lg r st1 fs in (st2, as @ bs))"
  by (induction es arbitrary: st) (auto split: prod.splits)

text \<open>
  The invariant of the slot \<open>current\<close>: it names the newest connection, and every other
  connection has been told to close.
\<close>

definition slot_inv :: "'d route_state \<Rightarrow> 'd action list \<Rightarrow> bool" where
  "slot_inv st as \<longleftrightarrow>
     (\<forall>j. current st = Some j \<longrightarrow> Suc j = length (backlogs st)) \<and>
     (\<forall>i < length (backlogs st). current st \<noteq> Some i \<longrightarrow> ClosePlugin i \<in> set as)"

lemma route_step_slot_inv:
  assumes "slot_inv st as" "route_step lg r st e = (st', bs)"
  shows "slot_inv st' (as @ bs)"
  using assms
  by (cases e) (auto simp: slot_inv_def closePair_def Let_def less_Suc_eq
      split: option.splits if_splits)

lemma route_run_slot_inv:
  "slot_inv st as \<Longrightarrow> route_run lg r st es = (st', bs) \<Longrightarrow> slot_inv st' (as @ bs)"
proof (induction es arbitrary: st as bs st')
  case (Cons e es)
  obtain st1 cs where s: "route_step lg r st e = (st1, cs)" by fastforce
  obtain st2 ds where r: "route_run lg r st1 es = (st2, ds)" by fastforce
  from Cons.prems s r have "st' = st2" "bs = cs @ ds" by simp_all
  with Cons.IH [OF route_step_slot_inv [OF Cons.prems(1) s] r] show ?case by simp
qed simp

lemma slot_inv_init: "slot_inv route_init []"
  by (simp add: slot_inv_def route_init_def)

subsection \<open>What reaches each end\<close>

fun ups :: "nat \<Rightarrow> 'd action list \<Rightarrow> ('d \<times> bool option) list" where
  "ups i [] = []"
| "ups i (a # as) = (case a of SendUp j d o' \<Rightarrow> (if i = j then [(d, o')] else []) | _ \<Rightarrow> []) @ ups i as"

fun downs :: "nat \<Rightarrow> 'd action list \<Rightarrow> ('d \<times> bool option) list" where
  "downs i [] = []"
| "downs i (a # as) =
     (case a of SendPlugin j d o' \<Rightarrow> (if i = j then [(d, o')] else []) | _ \<Rightarrow> []) @ downs i as"

text \<open>The frames the plugin of connection \<open>i\<close> sent, with the option each should carry.\<close>

fun plugin_frames :: "nat \<Rightarrow> 'd event list \<Rightarrow> ('d \<times> bool option) list" where
  "plugin_frames i [] = []"
| "plugin_frames i (e # es) =
     (case e of PluginMessage j d b s \<Rightarrow>
        (if i = j then [(d, if s = CONNECTING then None else Some b)] else []) | _ \<Rightarrow> [])
       @ plugin_frames i es"

fun upstream_frames :: "nat \<Rightarrow> 'd event list \<Rightarrow> ('d \<times> bool option) list" where
  "upstream_frames i [] = []"
| "upstream_frames i (e # es) =
     (case e of UpMessage j d b s \<Rightarrow> (if i = j \<and> s = OPEN then [(d, Some b)] else []) | _ \<Rightarrow> [])
       @ upstream_frames i es"

text \<open>
  How the WebSocket library moves the upstream socket of connection \<open>i\<close> while it lives: the
  ready state is CONNECTING until the \<open>open\<close> event, which comes once, and OPEN after it.
\<close>

fun up_life :: "nat \<Rightarrow> ready_state \<Rightarrow> 'd event list \<Rightarrow> bool" where
  "up_life i ph [] = True"
| "up_life i ph (e # es) =
     (case e of
        UpOpen j \<Rightarrow> if i = j then ph = CONNECTING \<and> up_life i OPEN es else up_life i ph es
      | PluginMessage j d b s \<Rightarrow> (i = j \<longrightarrow> s = ph) \<and> up_life i ph es
      | _ \<Rightarrow> up_life i ph es)"

text \<open>A callback of connection \<open>i\<close> runs only after the connection exists.\<close>

fun valid_from :: "nat \<Rightarrow> 'd event list \<Rightarrow> bool" where
  "valid_from n [] = True"
| "valid_from n (e # es) =
     (case e of
        Connection \<Rightarrow> valid_from (Suc n) es
      | UpOpen i \<Rightarrow> i < n \<and> valid_from n es
      | UpMessage i d b s \<Rightarrow> i < n \<and> valid_from n es
      | UpError i m \<Rightarrow> i < n \<and> valid_from n es
      | UpClose i \<Rightarrow> i < n \<and> valid_from n es
      | PluginMessage i d b s \<Rightarrow> i < n \<and> valid_from n es
      | PluginError i m \<Rightarrow> i < n \<and> valid_from n es
      | PluginClose i \<Rightarrow> i < n \<and> valid_from n es)"

definition log_only :: "(log_line \<Rightarrow> 'd action list) \<Rightarrow> bool" where
  "log_only lg \<longleftrightarrow> (\<forall>l. lg l = [] \<or> lg l = [Log l])"

lemma log_only_route_log: "log_only (route_log q)"
  by (simp add: log_only_def route_log_def)

lemma ups_append [simp]: "ups i (as @ bs) = ups i as @ ups i bs"
  by (induction as) auto

lemma downs_append [simp]: "downs i (as @ bs) = downs i as @ downs i bs"
  by (induction as) auto

lemma ups_log [simp]: "log_only lg \<Longrightarrow> ups i (lg l) = []" "log_only lg \<Longrightarrow> downs i (lg l) = []"
  by (auto simp: log_only_def elim!: allE [of _ l])

lemma ups_flush: "ups i (map (\<lambda>d. SendUp j d None) ds) = (if i = j then map (\<lambda>d. (d, None)) ds else [])"
  by (induction ds) auto

lemma downs_flush [simp]: "downs i (map (\<lambda>d. SendUp j d None) ds) = []"
  by (induction ds) auto

definition backlog_of :: "'d route_state \<Rightarrow> nat \<Rightarrow> 'd list" where
  "backlog_of st i = (if i < length (backlogs st) then backlogs st ! i else [])"

text \<open>One callback: what it sends upstream for connection \<open>i\<close> and what it leaves behind.\<close>

lemma route_step_ups:
  assumes "log_only lg" "route_step lg r st e = (st', as)" "valid_from (length (backlogs st)) [e]"
    and "up_life i ph [e]" "ph = CONNECTING \<or> ph = OPEN" "ph = OPEN \<longrightarrow> backlog_of st i = []"
  shows "ups i as @ map (\<lambda>d. (d, None)) (backlog_of st' i) =
      map (\<lambda>d. (d, None)) (backlog_of st i) @ plugin_frames i [e]"
    and "(ph = OPEN \<or> (e = UpOpen i \<and> ph = CONNECTING)) \<longrightarrow> backlog_of st' i = []"
  using assms
  by (cases e; force simp: closePair_def backlog_of_def Let_def ups_flush nth_append
      split: if_splits option.splits)+

lemma route_step_length:
  "route_step lg r st e = (st', as) \<Longrightarrow>
     length (backlogs st') = (if e = Connection then Suc (length (backlogs st)) else length (backlogs st))"
  by (cases e) (auto simp: closePair_def Let_def split: if_splits option.splits)

lemma valid_from_Cons:
  "valid_from n (e # es) \<longleftrightarrow>
     valid_from n [e] \<and> valid_from (if e = Connection then Suc n else n) es"
  by (cases e) auto

lemma up_life_Cons:
  "up_life i ph (e # es) \<longleftrightarrow>
     up_life i ph [e] \<and> up_life i (if e = UpOpen i then OPEN else ph) es"
  by (cases e) auto

lemma plugin_frames_Cons: "plugin_frames i (e # es) = plugin_frames i [e] @ plugin_frames i es"
  by simp

lemma route_run_ups:
  assumes "log_only lg"
  shows "route_run lg r st es = (st', as) \<Longrightarrow> valid_from (length (backlogs st)) es \<Longrightarrow>
    up_life i ph es \<Longrightarrow> ph = CONNECTING \<or> ph = OPEN \<Longrightarrow>
    (ph = OPEN \<longrightarrow> backlog_of st i = []) \<Longrightarrow>
    ups i as @ map (\<lambda>d. (d, None)) (backlog_of st' i) =
      map (\<lambda>d. (d, None)) (backlog_of st i) @ plugin_frames i es \<and>
    (ph = OPEN \<or> UpOpen i \<in> set es \<longrightarrow> backlog_of st' i = [])"
proof (induction es arbitrary: st as ph st')
  case (Cons e es)
  obtain st1 cs where s: "route_step lg r st e = (st1, cs)" by fastforce
  obtain ds where r: "route_run lg r st1 es = (st', ds)" and as: "as = cs @ ds"
    using Cons.prems(1) s by (auto split: prod.splits)
  have v: "valid_from (length (backlogs st)) [e]" "valid_from (length (backlogs st1)) es"
    using iffD1 [OF valid_from_Cons Cons.prems(2)] route_step_length [OF s] by auto
  let ?ph = "if e = UpOpen i then OPEN else ph"
  have l: "up_life i ph [e]" "up_life i ?ph es"
    using iffD1 [OF up_life_Cons Cons.prems(3)] by blast+
  note step = route_step_ups [OF assms s v(1) l(1) Cons.prems(4,5)]
  have ph: "?ph = CONNECTING \<or> ?ph = OPEN" using Cons.prems(4) by simp
  have o: "?ph = OPEN \<longrightarrow> backlog_of st1 i = []"
    using step(2) l(1) by auto
  note IH = Cons.IH [OF r v(2) l(2) ph o]
  have "ups i as @ map (\<lambda>d. (d, None)) (backlog_of st' i) =
      ups i cs @ (map (\<lambda>d. (d, None)) (backlog_of st1 i) @ plugin_frames i es)"
    using IH as by simp
  also have "\<dots> = map (\<lambda>d. (d, None)) (backlog_of st i) @ plugin_frames i (e # es)"
    using step(1) by (simp only: plugin_frames_Cons [of i e es] flip: append_assoc)
  finally show ?case using IH by auto
qed auto

lemma route_step_downs:
  "log_only lg \<Longrightarrow> route_step lg r st e = (st', as) \<Longrightarrow> downs i as = upstream_frames i [e]"
  by (cases e) (auto simp: closePair_def Let_def split: if_splits option.splits)

lemma route_run_downs:
  "log_only lg \<Longrightarrow> downs i (snd (route_run lg r st es)) = upstream_frames i es"
proof (induction es arbitrary: st)
  case (Cons e es)
  obtain st1 cs where s: "route_step lg r st e = (st1, cs)" by fastforce
  with Cons route_step_downs [OF Cons.prems s, of i] show ?case
    by (auto split: prod.splits) (metis snd_conv)
qed simp

lemma closed_both:
  "route_run lg r st es = (st', as) \<Longrightarrow>
   e \<in> set es \<Longrightarrow> e \<in> {UpClose i, PluginClose i} \<union> {UpError i m |m. True} \<union> {PluginError i m |m. True} \<Longrightarrow>
     ClosePlugin i \<in> set as \<and> CloseUp i \<in> set as"
proof (induction es arbitrary: st as)
  case (Cons f es)
  obtain st1 cs where s: "route_step lg r st f = (st1, cs)" by fastforce
  obtain ds where r: "route_run lg r st1 es = (st', ds)" and as: "as = cs @ ds"
    using Cons.prems(1) s by (auto split: prod.splits)
  show ?case
  proof (cases "f = e")
    case True
    with s Cons.prems(3) as show ?thesis by (auto simp: closePair_def)
  next
    case False
    with Cons.prems(2) Cons.IH [OF r _ Cons.prems(3)] as show ?thesis by auto
  qed
qed simp

subsection \<open>The process is the product of its routes\<close>

fun route_events :: "nat \<Rightarrow> 'd process_event list \<Rightarrow> 'd event list" where
  "route_events k [] = []"
| "route_events k (e # es) =
     (case e of RouteEvent j f \<Rightarrow> (if j = k then [f] else []) | _ \<Rightarrow> []) @ route_events k es"

fun route_actions :: "nat \<Rightarrow> 'd process_action list \<Rightarrow> 'd action list" where
  "route_actions k [] = []"
| "route_actions k (a # as) =
     (case a of RouteAction j b \<Rightarrow> (if j = k then [b] else []) | _ \<Rightarrow> []) @ route_actions k as"

text \<open>No bind error and no signal: the process keeps running.\<close>

fun keeps_running :: "'d process_event list \<Rightarrow> bool" where
  "keeps_running [] = True"
| "keeps_running (e # es) =
     ((case e of ServerError k b m \<Rightarrow> False | Signal \<Rightarrow> False | _ \<Rightarrow> True) \<and> keeps_running es)"

lemma route_actions_append [simp]:
  "route_actions k (as @ bs) = route_actions k as @ route_actions k bs"
  by (induction as) auto

lemma route_actions_map [simp]:
  "route_actions k (map (RouteAction j) as) = (if j = k then as else [])"
  by (induction as) auto

lemma route_actions_log [simp]: "route_actions k (process_log q l) = []"
  by (simp add: process_log_def)

lemma process_run_product:
  assumes "k < length rs"
  shows "keeps_running es \<Longrightarrow> \<not> exited st \<Longrightarrow> length (route_states st) = length rs \<Longrightarrow>
    process_run rs q st es = (st', as) \<Longrightarrow>
    \<not> exited st' \<and> length (route_states st') = length rs \<and>
    route_run (route_log q) (rs ! k) (route_states st ! k) (route_events k es) =
      (route_states st' ! k, route_actions k as)"
proof (induction es arbitrary: st as)
  case (Cons e es)
  obtain st1 cs where s: "process_step rs q st e = (st1, cs)" by fastforce
  obtain ds where r: "process_run rs q st1 es = (st', ds)" and as: "as = cs @ ds"
    using Cons.prems(4) s by (auto split: prod.splits)
  have st1: "\<not> exited st1" "length (route_states st1) = length rs"
    using Cons.prems s by (cases e; auto simp: onListening_def Let_def split: if_splits prod.splits)+
  from Cons.IH [OF _ st1 r] Cons.prems(1)
  have IH: "\<not> exited st'" "length (route_states st') = length rs"
    "route_run (route_log q) (rs ! k) (route_states st1 ! k) (route_events k es) =
      (route_states st' ! k, route_actions k ds)" by auto
  have "route_run (route_log q) (rs ! k) (route_states st ! k) (route_events k (e # es)) =
      (route_states st' ! k, route_actions k as)"
    using Cons.prems s IH(3) assms unfolding as
    by (cases e) (auto simp: onListening_def Let_def nth_list_update split: if_splits prod.splits)
  with IH show ?case by simp
qed simp

definition ready_lines :: "'d process_action list \<Rightarrow> nat" where
  "ready_lines as = length (filter (\<lambda>a. case a of Report (ReadyLine n) \<Rightarrow> True | _ \<Rightarrow> False) as)"

definition listenings :: "route list \<Rightarrow> 'd process_event list \<Rightarrow> nat" where
  "listenings rs es = length (filter (\<lambda>e. case e of Listening k \<Rightarrow> k < length rs | _ \<Rightarrow> False) es)"

lemma ready_lines_route [simp]: "ready_lines (map (RouteAction k) as) = 0"
  by (simp add: ready_lines_def filter_map comp_def)

lemma process_step_ready:
  assumes "\<not> exited st" "process_step rs False st e = (st', as)"
  shows "pending st' = pending st - int (listenings rs [e]) \<and>
    ready_lines as = (if listenings rs [e] = 1 \<and> pending st = 1 then 1 else 0)"
  using assms ready_lines_route
  by (cases e) (auto simp: listenings_def onListening_def onFatal_def process_log_def
      Let_def split: if_splits prod.splits simp: ready_lines_def)

lemma process_run_ready:
  "keeps_running es \<Longrightarrow> \<not> exited st \<Longrightarrow> process_run rs False st es = (st', as) \<Longrightarrow>
    ready_lines as = (if 0 < pending st \<and> pending st \<le> int (listenings rs es) then 1 else 0)"
proof (induction es arbitrary: st as)
  case (Cons e es)
  obtain st1 cs where s: "process_step rs False st e = (st1, cs)" by fastforce
  obtain ds where r: "process_run rs False st1 es = (st', ds)" and as: "as = cs @ ds"
    using Cons.prems(3) s by (auto split: prod.splits)
  have "\<not> exited st1" "keeps_running es"
    using Cons.prems s by (cases e; auto simp: onListening_def Let_def split: if_splits prod.splits)+
  with Cons.IH [OF _ _ r] have IH:
    "ready_lines ds = (if 0 < pending st1 \<and> pending st1 \<le> int (listenings rs es) then 1 else 0)"
    by blast
  have le: "listenings rs [e] \<le> 1" "listenings rs (e # es) = listenings rs [e] + listenings rs es"
    by (auto simp: listenings_def)
  have "ready_lines as = ready_lines cs + ready_lines ds"
    by (simp add: as ready_lines_def)
  with IH process_step_ready [OF Cons.prems(2) s] le show ?case by auto
qed (simp add: ready_lines_def listenings_def)

subsection \<open>Properties\<close>

text \<open>
  C3. One plugin per route, and the newest wins: after any sequence of callbacks, every
  connection whose plugin has not been told to close is the newest one and holds the slot
  \<open>current\<close>; a late close of a displaced connection never frees the slot of its successor.
\<close>

theorem newest_plugin_wins:
  assumes "route_run lg r route_init es = (st, as)"
    and "i < length (backlogs st)" "ClosePlugin i \<notin> set as"
  shows "Suc i = length (backlogs st) \<and> current st = Some i"
proof -
  have "slot_inv st ([] @ as)"
    by (rule route_run_slot_inv [OF slot_inv_init assms(1)])
  with assms(2,3) show ?thesis by (auto simp: slot_inv_def)
qed

definition example_route :: route where
  "example_route = \<lparr>listen = \<lparr>host = ''::1'', port = 1, addr = ''::1:1''\<rparr>,
     upstream = ''ws://a'', route_spec = ''::1:1=ws://a''\<rparr>"

theorem newest_plugin_wins_witness:
  "\<exists>st as. route_run (\<lambda>_. []) example_route route_init
       [Connection, Connection, UpClose 0 :: nat event] = (st, as) \<and>
     ClosePlugin 0 \<in> set as \<and> ClosePlugin 1 \<notin> set as \<and> current st = Some 1"
proof -
  let ?r = "route_run (\<lambda>_. []) example_route route_init [Connection, Connection, UpClose 0 :: nat event]"
  have e: "?r = (fst ?r, snd ?r)" by simp
  have "1 < length (backlogs (fst ?r))" "ClosePlugin 1 \<notin> set (snd ?r)" "ClosePlugin 0 \<in> set (snd ?r)"
    by (simp_all add: route_init_def closePair_def Let_def example_route_def)
  with newest_plugin_wins [OF e, of 1] e show ?thesis by blast
qed




text \<open>
  C17. Losing either end closes both: if the upstream or the plugin socket of connection \<open>i\<close>
  closes or fails, the bridge closes both of its sockets.
\<close>

theorem close_is_mutual:
  assumes "e \<in> set es" "e \<in> {UpClose i, PluginClose i} \<or> (\<exists>m. e \<in> {UpError i m, PluginError i m})"
  shows "{ClosePlugin i, CloseUp i} \<subseteq> set (snd (route_run lg r st es))"
proof -
  obtain st' as where r: "route_run lg r st es = (st', as)" by fastforce
  from closed_both [OF r assms(1), of i] assms(2) r show ?thesis by auto
qed

theorem close_is_mutual_witness:
  "{ClosePlugin 0, CloseUp 0} \<subseteq>
     set (snd (route_run (\<lambda>_. []) example_route route_init [Connection, UpError 0 ''x'' :: nat event]))"
  by (rule close_is_mutual [where e = "UpError 0 ''x''"]) auto





end
