(* ===== verification/Json_Value.thy ===== *)
theory Json_Value
  imports Js_Prelude
begin

text \<open>
  JSON values as JavaScript programs see them after \<open>JSON.parse\<close>: \<open>undefined\<close> is None of
  \<open>jsval\<close>, property access, truthiness and \<open>String(v)\<close> follow the language, an object keeps
  its properties in insertion order. What the engine alone decides (the JSON codec, the
  decimal form of a number, the stack and the messages of its own errors) is the record
  \<open>js_runtime\<close>, an argument of the operations that use it; no theorem assumes anything of it.
\<close>

datatype json =
    JNull
  | JBool bool
  | JNum rat
  | JStr string
  | JArr "json list"
  | JObj "(string \<times> json) list"

type_synonym jsval = "json option"

record js_runtime =
  JSON_parse :: "string \<Rightarrow> json option"
  JSON_stringify :: "json \<Rightarrow> string"
  numStr :: "rat \<Rightarrow> string"
  stackOf :: "string \<Rightarrow> string option"
  engineMessage :: string


text \<open>\<open>v.k\<close> of a JSON value other than null; a primitive or an array has no such property.\<close>

fun jget :: "json \<Rightarrow> string \<Rightarrow> jsval" where
  "jget (JObj ps) k = map_of ps k"
| "jget _ k = None"

text \<open>\<open>v?.k\<close>.\<close>

definition ojget :: "jsval \<Rightarrow> string \<Rightarrow> jsval" where
  "ojget v k = Option.bind v (\<lambda>j. jget j k)"

fun truthy :: "jsval \<Rightarrow> bool" where
  "truthy None = False"
| "truthy (Some JNull) = False"
| "truthy (Some (JBool b)) = b"
| "truthy (Some (JNum q)) = (q \<noteq> 0)"
| "truthy (Some (JStr s)) = (s \<noteq> '''')"
| "truthy (Some (JArr xs)) = True"
| "truthy (Some (JObj ps)) = True"

text \<open>\<open>a || b\<close> and \<open>a ?? b\<close>.\<close>

definition js_or :: "jsval \<Rightarrow> jsval \<Rightarrow> jsval" where
  "js_or a b = (if truthy a then a else b)"

definition js_coalesce :: "jsval \<Rightarrow> jsval \<Rightarrow> jsval" where
  "js_coalesce a b = (if a = None \<or> a = Some JNull then b else a)"

fun is_object :: "json \<Rightarrow> bool" where
  "is_object (JObj ps) = True"
| "is_object _ = False"

fun is_array :: "json \<Rightarrow> bool" where
  "is_array (JArr xs) = True"
| "is_array _ = False"

fun is_string :: "jsval \<Rightarrow> bool" where
  "is_string (Some (JStr s)) = True"
| "is_string _ = False"

text \<open>\<open>String(v)\<close>: an array is joined with commas, null elements empty; an object has no
  own \<open>toString\<close>.\<close>

fun json_string :: "js_runtime \<Rightarrow> json \<Rightarrow> string" where
  "json_string rt JNull = ''null''"
| "json_string rt (JBool b) = (if b then ''true'' else ''false'')"
| "json_string rt (JNum q) = numStr rt q"
| "json_string rt (JStr s) = s"
| "json_string rt (JArr xs) =
     join_with '','' (map (\<lambda>x. if x = JNull then '''' else json_string rt x) xs)"
| "json_string rt (JObj ps) = ''[object Object]''"

definition js_String :: "js_runtime \<Rightarrow> jsval \<Rightarrow> string" where
  "js_String rt v = (case v of None \<Rightarrow> ''undefined'' | Some j \<Rightarrow> json_string rt j)"

lemma ojget_None [simp]: "ojget None k = None"
  by (simp add: ojget_def)

lemma ojget_Some [simp]: "ojget (Some j) k = jget j k"
  by (simp add: ojget_def)

lemma js_or_truthy: "truthy a \<Longrightarrow> js_or a b = a"
  by (simp add: js_or_def)

text \<open>An engine for examples.\<close>

definition example_runtime :: js_runtime where
  "example_runtime = \<lparr>JSON_parse = (\<lambda>s. None), JSON_stringify = (\<lambda>j. ''null''),
     numStr = (\<lambda>q. ''0''), stackOf = (\<lambda>m. None), engineMessage = ''TypeError''\<rparr>"

end
