(* ===== verification/Coderunner_Rpc.thy ===== *)
theory Coderunner_Rpc
  imports Json_Value
begin

text \<open>
  The MCP client of \<open>drivers/tools/coderunner/runner.mjs\<close>: its connection to the host. State
  is the record \<open>rpc_state\<close> (the module's variables \<open>pending\<close>, \<open>nextID\<close>, \<open>inputBuffer\<close>,
  \<open>progressCount\<close>, \<open>requestID\<close>, \<open>toolNames\<close>, \<open>cancelled\<close>); an operation returns the new state
  and what it does to the outside: lines written (\<open>Sent\<close>), promises settled (\<open>Resolve\<close>,
  \<open>Reject\<close>), the abort signal.
\<close>

subsection \<open>State and effects\<close>

record atoll_error =
  err_code :: json
  err_detail :: json

datatype rpc_out =
    Sent json
  | Resolve json jsval
  | Reject json atoll_error
  | AbortSignal
  | ProcessExit nat

record rpc_state =
  pending_calls :: "(json \<times> unit) list"
  nextID :: nat
  inputBuffer :: string
  progressCount :: nat
  requestID :: jsval
  toolNames :: "(string \<times> jsval) list"
  cancelled :: bool

definition rpc_init :: rpc_state where
  "rpc_init = \<lparr>pending_calls = [], nextID = 1, inputBuffer = '''', progressCount = 0,
     requestID = Some JNull, toolNames = [], cancelled = False\<rparr>"

definition AtollError :: "json \<Rightarrow> jsval \<Rightarrow> atoll_error" where
  "AtollError c d = \<lparr>err_code = c, err_detail = the (js_or d (Some (JStr '''')))\<rparr>"

definition cancelled_error :: atoll_error where
  "cancelled_error = AtollError (JStr ''cancelled'') (Some (JStr ''execution cancelled''))"

subsection \<open>Sending\<close>

definition send :: "(string \<times> json) list \<Rightarrow> rpc_out" where
  "send msg = Sent (JObj ((''jsonrpc'', JStr ''2.0'') # msg))"

definition call_id :: "nat \<Rightarrow> json" where
  "call_id n = JNum (of_nat n)"

definition request :: "string \<Rightarrow> json \<Rightarrow> rpc_state \<Rightarrow> json \<times> rpc_state \<times> rpc_out list" where
  "request method params st =
     (let i = call_id (nextID st) in
      (i, st\<lparr>nextID := Suc (nextID st), pending_calls := AList.update i () (pending_calls st)\<rparr>,
       [send [(''id'', i), (''method'', JStr method), (''params'', params)]]))"

definition notify :: "string \<Rightarrow> json \<Rightarrow> rpc_out" where
  "notify method params = send [(''method'', JStr method), (''params'', params)]"

text \<open>\<open>textOf\<close>: a string as it is, another value as JSON, \<open>undefined\<close> as its name.\<close>

definition textOf :: "js_runtime \<Rightarrow> jsval list \<Rightarrow> string" where
  "textOf rt values =
     join_with '' '' (map (\<lambda>v. case v of
        None \<Rightarrow> ''undefined''
      | Some (JStr s) \<Rightarrow> s
      | Some j \<Rightarrow> JSON_stringify rt j) values)"

definition logMessage :: "js_runtime \<Rightarrow> string \<Rightarrow> string \<Rightarrow> jsval list \<Rightarrow> rpc_out" where
  "logMessage rt level logger values =
     notify ''notifications/message''
       (JObj [(''level'', JStr level), (''logger'', JStr logger), (''data'', JStr (textOf rt values))])"

datatype console_method = ConsoleLog | ConsoleInfo | ConsoleDebug | ConsoleWarn | ConsoleError

fun console :: "js_runtime \<Rightarrow> console_method \<Rightarrow> jsval list \<Rightarrow> rpc_out" where
  "console rt ConsoleLog vs = logMessage rt ''info'' ''console'' vs"
| "console rt ConsoleInfo vs = logMessage rt ''info'' ''console'' vs"
| "console rt ConsoleDebug vs = logMessage rt ''debug'' ''console'' vs"
| "console rt ConsoleWarn vs = logMessage rt ''warning'' ''console'' vs"
| "console rt ConsoleError vs = logMessage rt ''error'' ''console'' vs"

subsection \<open>Tool calls and their results\<close>

definition callArguments :: "jsval \<Rightarrow> json" where
  "callArguments input =
     (case input of
        Some (JObj ps) \<Rightarrow> JObj ps
      | Some j \<Rightarrow> JObj [(''$input'', j)]
      | None \<Rightarrow> JObj [(''$input'', JNull)])"

definition textContent :: "jsval \<Rightarrow> jsval" where
  "textContent result =
     (case ojget result ''content'' of
        Some (JArr blocks) \<Rightarrow>
          (case find (\<lambda>c. jget c ''type'' = Some (JStr ''text'')) blocks of
             Some b \<Rightarrow> jget b ''text'' | None \<Rightarrow> None)
      | _ \<Rightarrow> None)"

definition unwrapResult :: "js_runtime \<Rightarrow> jsval \<Rightarrow> (atoll_error, json) result" where
  "unwrapResult rt result =
     (if truthy result \<and> truthy (ojget result ''isError'') then
        (let structured = js_or (ojget result ''structuredContent'') (Some (JObj [])) in
         Inl (AtollError
           (the (js_or (ojget structured ''error_code'') (Some (JStr ''call_failed''))))
           (js_or (js_or (ojget structured ''detail'') (textContent result)) (Some (JStr '''')))))
      else
        (case ojget result ''structuredContent'' of
           Some s \<Rightarrow> Inr s
         | None \<Rightarrow>
             (case textContent result of
                None \<Rightarrow> Inr JNull
              | Some t \<Rightarrow>
                  (case JSON_parse rt (json_string rt t) of Some v \<Rightarrow> Inr v | None \<Rightarrow> Inr t))))"

definition callTool ::
  "json \<Rightarrow> json \<Rightarrow> json option \<Rightarrow> rpc_state \<Rightarrow> json \<times> rpc_state \<times> rpc_out list" where
  "callTool name args meta st =
     request ''tools/call''
       (JObj ([(''name'', name), (''arguments'', args)]
          @ (case meta of None \<Rightarrow> [] | Some m \<Rightarrow> [(''_meta'', m)]))) st"

subsection \<open>Receiving\<close>

definition receive :: "js_runtime \<Rightarrow> json \<Rightarrow> rpc_state \<Rightarrow> rpc_state \<times> rpc_out list" where
  "receive rt msg st =
     (if jget msg ''jsonrpc'' \<noteq> Some (JStr ''2.0'') then (st, [])
      else
        (case (jget msg ''method'', jget msg ''id'') of
           (None, Some i) \<Rightarrow>
             (case map_of (pending_calls st) i of
                None \<Rightarrow> (st, [])
              | Some u \<Rightarrow>
                  (st\<lparr>pending_calls := AList.delete i (pending_calls st)\<rparr>,
                   if truthy (jget msg ''error'') then
                     (let e = jget msg ''error''; d = js_or (ojget e ''data'') (Some (JObj [])) in
                      [Reject i (AtollError
                         (the (js_or (ojget d ''code'') (Some (JStr ''rpc_error''))))
                         (js_or (js_or (ojget d ''detail'') (ojget e ''message'')) (Some (JStr ''''))))])
                   else [Resolve i (jget msg ''result'')]))
         | (Some m, Some i) \<Rightarrow>
             (st, if m = JStr ''ping'' then [send [(''id'', i), (''result'', JObj [])]]
                  else [send [(''id'', i),
                    (''error'', JObj [(''code'', JNum (-32601)),
                      (''message'', JStr (''method not found: '' @ json_string rt m))])]])
         | _ \<Rightarrow> (st, [])))"

text \<open>One line of the host: blank lines and lines that are not JSON are dropped.\<close>

definition receive_line :: "js_runtime \<Rightarrow> string \<Rightarrow> rpc_state \<Rightarrow> rpc_state \<times> rpc_out list" where
  "receive_line rt line st =
     (if trim line = '''' then (st, [])
      else (case JSON_parse rt line of None \<Rightarrow> (st, []) | Some msg \<Rightarrow> receive rt msg st))"

definition newline :: char where
  "newline = CHR 0x0A"

lemma receive_keeps [simp]:
  "inputBuffer (fst (receive rt msg st)) = inputBuffer st"
  "nextID (fst (receive rt msg st)) = nextID st"
  "toolNames (fst (receive rt msg st)) = toolNames st"
  "cancelled (fst (receive rt msg st)) = cancelled st"
  by (simp_all add: receive_def split: option.split)

lemma receive_line_keeps [simp]:
  "inputBuffer (fst (receive_line rt line st)) = inputBuffer st"
  "nextID (fst (receive_line rt line st)) = nextID st"
  "toolNames (fst (receive_line rt line st)) = toolNames st"
  "cancelled (fst (receive_line rt line st)) = cancelled st"
  by (simp_all add: receive_line_def split: option.split)

text \<open>The loop of the \<open>data\<close> callback: take lines off the buffer until none is complete.\<close>

function drain :: "js_runtime \<Rightarrow> rpc_state \<Rightarrow> rpc_state \<times> rpc_out list" where
  "drain rt st =
     (case indexOf (inputBuffer st) [newline] of
        None \<Rightarrow> (st, [])
      | Some n \<Rightarrow>
          (let line = slice 0 n (inputBuffer st);
               (st1, as) = receive_line rt line (st\<lparr>inputBuffer := drop (Suc n) (inputBuffer st)\<rparr>);
               (st2, bs) = drain rt st1
           in (st2, as @ bs)))"
  by pat_completeness auto
termination
proof (relation "measure (\<lambda>(rt, st). length (inputBuffer st))", goal_cases)
  case (2 rt st n line x st1 as)
  have "inputBuffer st1 = drop (Suc n) (inputBuffer st)"
    using receive_line_keeps(1) [of rt line "st\<lparr>inputBuffer := drop (Suc n) (inputBuffer st)\<rparr>"] 2
    by (metis fst_conv rpc_state.select_convs(3) rpc_state.surjective rpc_state.update_convs(3))
  moreover have "inputBuffer st \<noteq> []"
    using 2 by (auto dest!: indexOf_Some)
  ultimately show ?case by simp
qed simp

declare drain.simps [simp del]

definition on_data :: "js_runtime \<Rightarrow> string \<Rightarrow> rpc_state \<Rightarrow> rpc_state \<times> rpc_out list" where
  "on_data rt chunk st = drain rt (st\<lparr>inputBuffer := inputBuffer st @ chunk\<rparr>)"

definition on_end :: "rpc_state \<Rightarrow> rpc_state \<times> rpc_out list" where
  "on_end st =
     (st\<lparr>cancelled := True, pending_calls := []\<rparr>,
      AbortSignal # map (\<lambda>p. Reject (fst p) cancelled_error) (pending_calls st))"

subsection \<open>The stream of lines does not depend on its chunks\<close>

lemma receive_buffer_indep:
  "receive rt msg (st\<lparr>inputBuffer := b\<rparr>) =
     (let (st1, as) = receive rt msg st in (st1\<lparr>inputBuffer := b\<rparr>, as))"
  by (auto simp: receive_def Let_def split: option.split)

lemma receive_line_buffer_indep:
  "receive_line rt line (st\<lparr>inputBuffer := b\<rparr>) =
     (let (st1, as) = receive_line rt line st in (st1\<lparr>inputBuffer := b\<rparr>, as))"
  by (auto simp: receive_line_def receive_buffer_indep split: option.split)

lemma drain_no_line: "indexOf (inputBuffer st) [newline] = None \<Longrightarrow> drain rt st = (st, [])"
  by (subst drain.simps) simp

lemma drain_line:
  assumes "indexOf (inputBuffer st) [newline] = Some n"
    and "receive_line rt (take n (inputBuffer st)) st = (st1, as)"
    and "drain rt (st1\<lparr>inputBuffer := drop (Suc n) (inputBuffer st)\<rparr>) = (st2, bs)"
  shows "drain rt st = (st2, as @ bs)"
  using assms
  by (subst drain.simps) (simp add: slice_0 receive_line_buffer_indep)

lemma drain_append:
  "drain rt st = (st1, as) \<Longrightarrow>
   drain rt (st\<lparr>inputBuffer := inputBuffer st @ c\<rparr>) =
     (let (st2, bs) = drain rt (st1\<lparr>inputBuffer := inputBuffer st1 @ c\<rparr>) in (st2, as @ bs))"
proof (induction "length (inputBuffer st)" arbitrary: st as rule: less_induct)
  case less
  show ?case
  proof (cases "indexOf (inputBuffer st) [newline]")
    case None
    then have "st1 = st" "as = []"
      using less.prems drain_no_line [of st rt] by auto
    then show ?thesis by simp
  next
    case (Some n)
    obtain t as1 where line: "receive_line rt (take n (inputBuffer st)) st = (t, as1)"
      by (cases "receive_line rt (take n (inputBuffer st)) st") auto
    let ?b = "drop (Suc n) (inputBuffer st)"
    obtain u bs1 where rest: "drain rt (t\<lparr>inputBuffer := ?b\<rparr>) = (u, bs1)"
      by (cases "drain rt (t\<lparr>inputBuffer := ?b\<rparr>)") auto
    have eq: "u = st1" "as = as1 @ bs1"
      using drain_line [OF Some line rest] less.prems by auto
    have n: "n < length (inputBuffer st)"
      using indexOf_Some [OF Some] by simp
    obtain v cs where ih: "drain rt (st1\<lparr>inputBuffer := inputBuffer st1 @ c\<rparr>) = (v, cs)"
      by (cases "drain rt (st1\<lparr>inputBuffer := inputBuffer st1 @ c\<rparr>)") auto
    have "drain rt (t\<lparr>inputBuffer := ?b @ c\<rparr>) = (v, bs1 @ cs)"
      using less.hyps [of "t\<lparr>inputBuffer := ?b\<rparr>" bs1] rest eq n ih by simp
    moreover have "receive_line rt (take n (inputBuffer st @ c)) (st\<lparr>inputBuffer := inputBuffer st @ c\<rparr>)
        = (t\<lparr>inputBuffer := inputBuffer st @ c\<rparr>, as1)"
      using line n by (simp add: receive_line_buffer_indep)
    ultimately show ?thesis
      using drain_line [of "st\<lparr>inputBuffer := inputBuffer st @ c\<rparr>" n rt] n ih eq
        indexOf_char_append [OF Some, of c] by simp
  qed
qed

fun on_chunks :: "js_runtime \<Rightarrow> string list \<Rightarrow> rpc_state \<Rightarrow> rpc_state \<times> rpc_out list" where
  "on_chunks rt [] st = (st, [])"
| "on_chunks rt (c # cs) st =
     (let (st1, as) = on_data rt c st; (st2, bs) = on_chunks rt cs st1 in (st2, as @ bs))"

lemma on_data_append:
  "on_data rt (c @ d) st =
     (let (st1, as) = on_data rt c st; (st2, bs) = on_data rt d st1 in (st2, as @ bs))"
proof -
  obtain st1 as where "on_data rt c st = (st1, as)"
    by (cases "on_data rt c st") auto
  then show ?thesis
    using drain_append [of rt "st\<lparr>inputBuffer := inputBuffer st @ c\<rparr>" st1 as d]
    by (simp add: on_data_def)
qed

text \<open>C23. The client reads the same messages however the host's byte stream is cut into
  chunks: handling a non-empty sequence of chunks, the state and every effect in order
  included, is handling their concatenation at once.\<close>

theorem chunking_irrelevant:
  "on_chunks rt (c # cs) st = on_data rt (concat (c # cs)) st"
proof (induction cs arbitrary: c st)
  case Nil
  then show ?case by (simp add: case_prod_beta)
next
  case (Cons d ds)
  show ?case
    using Cons.IH [of d] by (simp add: on_data_append [of rt c] case_prod_beta Let_def)
qed

end
