(* ===== verification/Coderunner_Main.thy ===== *)
theory Coderunner_Main
  imports Coderunner_Rpc "HOL-Library.Multiset"
begin

text \<open>
  The life of a \<open>drivers/tools/coderunner/runner.mjs\<close> process: \<open>main\<close> as a state machine over
  the promises it awaits, \<open>fail\<close>, the \<open>atoll\<close> object given to the program, and the handlers of
  stdin and of uncaught errors. The program itself is the environment: what its import and
  its \<open>run\<close> do, and the calls it makes, are events. Continuations of promises settled while
  a chunk is handled run after the chunk, in the order of settlement.
\<close>

subsection \<open>The process\<close>

datatype thrown = ThrownError string "string option" | ThrownValue jsval

datatype main_pc =
    AwaitInitialize json
  | AwaitTools json
  | AwaitContext json
  | ImportingProgram
  | RunningProgram
  | AwaitReturn json
  | MainOver

record atoll_object =
  actors :: json
  self_id :: jsval
  channel :: jsval
  requestId :: jsval
  program_args :: jsval

record runner =
  rpc :: rpc_state
  pc :: main_pc
  fails :: "json list"
  atoll :: "atoll_object option"
  exit_code :: "nat option"

datatype import_result = ImportThrew thrown | ImportedNoRun | ImportedRun
datatype run_result = RunThrew thrown | RunReturned jsval | RunNotSerializable thrown

datatype runner_event =
    StdinData string
  | StdinEnd
  | ProgramImported import_result
  | ProgramFinished run_result
  | AtollCall jsval jsval jsval "jsnum option"
  | AtollLog "jsval list"
  | AtollProgress jsval jsval
  | ConsoleCall console_method "jsval list"
  | UncaughtError thrown bool

definition PROTOCOL_VERSION :: string where "PROTOCOL_VERSION = ''2025-06-18''"
definition TOOL_CONTEXT :: string where "TOOL_CONTEXT = ''atoll_context''"
definition TOOL_RETURN :: string where "TOOL_RETURN = ''atoll_return''"
definition TOOL_FAIL :: string where "TOOL_FAIL = ''atoll_fail''"

lemmas tool_defs = TOOL_CONTEXT_def TOOL_RETURN_def TOOL_FAIL_def

text \<open>A rejection as the value a \<open>catch\<close> clause sees: \<open>AtollError\<close> is an Error whose message is
  its detail, or its code when the detail is empty.\<close>

definition thrown_of :: "js_runtime \<Rightarrow> atoll_error \<Rightarrow> thrown" where
  "thrown_of rt e =
     (let m = js_String rt (js_or (Some (err_detail e)) (Some (err_code e))) in
      ThrownError m (stackOf rt m))"

definition engine_error :: "js_runtime \<Rightarrow> thrown" where
  "engine_error rt = ThrownError (engineMessage rt) (stackOf rt (engineMessage rt))"

definition opt_field :: "string \<Rightarrow> jsval \<Rightarrow> (string \<times> json) list" where
  "opt_field k v = (case v of None \<Rightarrow> [] | Some j \<Rightarrow> [(k, j)])"

definition fail :: "js_runtime \<Rightarrow> string \<Rightarrow> thrown \<Rightarrow> string \<Rightarrow> runner \<Rightarrow> runner \<times> rpc_out list" where
  "fail rt kind err fallback p =
     (let message = (case err of ThrownError m s \<Rightarrow> m
                     | ThrownValue v \<Rightarrow> js_String rt (js_coalesce v (Some (JStr fallback))));
          stack = (case err of ThrownError m (Some s) \<Rightarrow> if s \<noteq> '''' then Some (JStr s) else None
                   | _ \<Rightarrow> None);
          (i, r, outs) = callTool (JStr TOOL_FAIL)
            (JObj ([(''kind'', JStr kind), (''message'', JStr message)] @ opt_field ''stack'' stack))
            None (rpc p)
      in (p\<lparr>rpc := r, fails := fails p @ [i]\<rparr>, outs))"

definition main_fail :: "js_runtime \<Rightarrow> string \<Rightarrow> thrown \<Rightarrow> string \<Rightarrow> runner \<Rightarrow> runner \<times> rpc_out list" where
  "main_fail rt kind err fallback p = fail rt kind err fallback (p\<lparr>pc := MainOver\<rparr>)"

subsection \<open>The \<open>atoll\<close> object\<close>

definition makeAtoll :: "json \<Rightarrow> atoll_object" where
  "makeAtoll context =
     \<lparr>actors = the (js_or (jget context ''actors'') (Some (JObj []))),
      self_id = jget context ''self'', channel = jget context ''channel'',
      requestId = jget context ''request_id'', program_args = jget context ''args''\<rparr>"

definition tool_key :: "js_runtime \<Rightarrow> jsval \<Rightarrow> jsval \<Rightarrow> string" where
  "tool_key rt target word = js_String rt target @ '' '' @ js_String rt word"

definition deadline_meta :: "jsnum option \<Rightarrow> json option" where
  "deadline_meta deadlineMs =
     (case deadlineMs of
        Some (Num q) \<Rightarrow> if 0 < q then Some (JObj [(''atoll/deadline_ms'', JNum (of_int \<lfloor>q\<rfloor>))]) else None
      | _ \<Rightarrow> None)"

definition atoll_call ::
  "js_runtime \<Rightarrow> jsval \<Rightarrow> jsval \<Rightarrow> jsval \<Rightarrow> jsnum option \<Rightarrow> rpc_state
     \<Rightarrow> (atoll_error, json) result \<times> rpc_state \<times> rpc_out list" where
  "atoll_call rt target word input deadlineMs st =
     (if cancelled st then (Inl cancelled_error, st, [])
      else
        (let name = Option.bind (map_of (toolNames st) (tool_key rt target word)) id in
         if \<not> truthy name then
           (Inl (AtollError (JStr ''undeclared_capability'')
              (Some (JStr (tool_key rt target word @ '' is not in requires'')))), st, [])
         else
           (let (i, st1, outs) = callTool (the name) (callArguments input) (deadline_meta deadlineMs) st
            in (Inr i, st1, outs))))"

definition progress :: "jsval \<Rightarrow> jsval \<Rightarrow> rpc_state \<Rightarrow> rpc_state \<times> rpc_out list" where
  "progress status v st =
     (let st1 = st\<lparr>progressCount := progressCount st + 1\<rparr> in
      (st1, [notify ''notifications/progress''
         (JObj (opt_field ''progressToken'' (requestID st1)
            @ [(''progress'', JNum (of_nat (progressCount st1)))]
            @ opt_field ''message'' status
            @ [(''value'', case v of None \<Rightarrow> JNull | Some j \<Rightarrow> j)]))]))"

subsection \<open>\<open>main\<close>\<close>

definition main_start :: "runner \<times> rpc_out list" where
  "main_start =
     (let (i, r, outs) = request ''initialize''
        (JObj [(''protocolVersion'', JStr PROTOCOL_VERSION), (''capabilities'', JObj []),
           (''clientInfo'', JObj [(''name'', JStr ''atoll-coderunner-node''), (''version'', JStr ''1'')])])
        rpc_init
      in (\<lparr>rpc = r, pc = AwaitInitialize i, fails = [], atoll = None, exit_code = None\<rparr>, outs))"

text \<open>One tool of \<open>tools/list\<close>; a tool without target or word is no capability.\<close>

definition register_tool :: "js_runtime \<Rightarrow> json \<Rightarrow> (string \<times> jsval) list \<Rightarrow> (string \<times> jsval) list" where
  "register_tool rt tool names =
     (let meta = js_or (jget tool ''_meta'') (Some (JObj []));
          target = ojget meta ''atoll/target''; word = ojget meta ''atoll/word'';
          actor = ojget meta ''atoll/actor'' in
      if \<not> truthy target \<or> \<not> truthy word then names
      else
        (let names1 = AList.update (tool_key rt target word) (jget tool ''name'') names in
         if truthy actor then AList.update (tool_key rt actor word) (jget tool ''name'') names1
         else names1))"

text \<open>The loop over the list; null as a tool is an error of the engine (a TypeError) and ends it.\<close>

fun register_tools :: "js_runtime \<Rightarrow> json list \<Rightarrow> (string \<times> jsval) list \<Rightarrow> bool \<times> (string \<times> jsval) list" where
  "register_tools rt [] names = (True, names)"
| "register_tools rt (tool # tools) names =
     (if tool = JNull then (False, names)
      else register_tools rt tools (register_tool rt tool names))"

text \<open>The iterable \<open>listed.tools || []\<close>; None is a TypeError. The characters of a string are
  tools without \<open>_meta\<close>.\<close>

definition listed_tools :: "jsval \<Rightarrow> json list option" where
  "listed_tools listed =
     (if listed = None \<or> listed = Some JNull then None
      else
        (case js_or (ojget listed ''tools'') (Some (JArr [])) of
           Some (JArr tools) \<Rightarrow> Some tools
         | Some (JStr s) \<Rightarrow> Some (map (\<lambda>c. JStr [c]) s)
         | _ \<Rightarrow> None))"

definition after_initialize :: "runner \<Rightarrow> runner \<times> rpc_out list" where
  "after_initialize p =
     (let (i, r, outs) = request ''tools/list'' (JObj []) (rpc p) in
      (p\<lparr>rpc := r, pc := AwaitTools i\<rparr>, notify ''notifications/initialized'' (JObj []) # outs))"

definition after_tools :: "js_runtime \<Rightarrow> jsval \<Rightarrow> runner \<Rightarrow> runner \<times> rpc_out list" where
  "after_tools rt listed p =
     (case listed_tools listed of
        None \<Rightarrow> main_fail rt ''exception'' (engine_error rt) ''runtime failed'' p
      | Some tools \<Rightarrow>
          (let (ok, names) = register_tools rt tools (toolNames (rpc p));
               p1 = p\<lparr>rpc := (rpc p)\<lparr>toolNames := names\<rparr>\<rparr> in
           if ok then
             (let (i, r, outs) = callTool (JStr TOOL_CONTEXT) (JObj []) None (rpc p1) in
              (p1\<lparr>rpc := r, pc := AwaitContext i\<rparr>, outs))
           else main_fail rt ''exception'' (engine_error rt) ''runtime failed'' p1))"

definition after_context ::
  "js_runtime \<Rightarrow> string option \<Rightarrow> jsval \<Rightarrow> runner \<Rightarrow> runner \<times> rpc_out list" where
  "after_context rt programPath res p =
     (case unwrapResult rt res of
        Inl e \<Rightarrow> main_fail rt ''exception'' (thrown_of rt e) ''runtime failed'' p
      | Inr context \<Rightarrow>
          if context = JNull then main_fail rt ''exception'' (engine_error rt) ''runtime failed'' p
          else
            (let p1 = p\<lparr>rpc := (rpc p)\<lparr>requestID := jget context ''request_id''\<rparr>,
                        atoll := Some (makeAtoll context)\<rparr> in
             if programPath = None \<or> programPath = Some '''' then
               main_fail rt ''syntax''
                 (ThrownError ''ATOLL_PROGRAM is not set'' (stackOf rt ''ATOLL_PROGRAM is not set''))
                 ''program import failed'' p1
             else (p1\<lparr>pc := ImportingProgram\<rparr>, [])))"

definition after_import :: "js_runtime \<Rightarrow> import_result \<Rightarrow> runner \<Rightarrow> runner \<times> rpc_out list" where
  "after_import rt res p =
     (case res of
        ImportThrew e \<Rightarrow> main_fail rt ''syntax'' e ''program import failed'' p
      | ImportedNoRun \<Rightarrow>
          main_fail rt ''invalid_output'' (ThrownValue (Some JNull)) ''program does not export run'' p
      | ImportedRun \<Rightarrow> (p\<lparr>pc := RunningProgram\<rparr>, []))"

definition after_run :: "js_runtime \<Rightarrow> run_result \<Rightarrow> runner \<Rightarrow> runner \<times> rpc_out list" where
  "after_run rt res p =
     (case res of
        RunThrew e \<Rightarrow> main_fail rt ''exception'' e ''program threw'' p
      | RunNotSerializable e \<Rightarrow>
          main_fail rt ''invalid_output'' e ''run result is not JSON serializable'' p
      | RunReturned None \<Rightarrow>
          main_fail rt ''invalid_output''
            (ThrownError ''run returned undefined'' (stackOf rt ''run returned undefined''))
            ''run result is not JSON serializable'' p
      | RunReturned (Some v) \<Rightarrow>
          (case JSON_parse rt (JSON_stringify rt v) of
             None \<Rightarrow> main_fail rt ''exception'' (engine_error rt) ''runtime failed'' p
           | Some w \<Rightarrow>
               (let (i, r, outs) = callTool (JStr TOOL_RETURN) (JObj [(''value'', w)]) None (rpc p) in
                (p\<lparr>rpc := r, pc := AwaitReturn i\<rparr>, outs))))"

definition process_exit :: "nat \<Rightarrow> runner \<Rightarrow> runner \<times> rpc_out list" where
  "process_exit n p = (p\<lparr>exit_code := Some n\<rparr>, [ProcessExit n])"

text \<open>The continuation of the promise of request \<open>i\<close>, if \<open>main\<close> or a \<open>fail\<close> awaits it.\<close>

definition continue_main ::
  "js_runtime \<Rightarrow> string option \<Rightarrow> json \<Rightarrow> (atoll_error, jsval) result \<Rightarrow> runner \<Rightarrow> runner \<times> rpc_out list" where
  "continue_main rt programPath i res p =
     (if exit_code p \<noteq> None then (p, [])
      else if i \<in> set (fails p) then process_exit 1 p
      else if pc p \<in> {AwaitInitialize i, AwaitTools i, AwaitContext i, AwaitReturn i} then
        (case res of
           Inl e \<Rightarrow> main_fail rt ''exception'' (thrown_of rt e) ''runtime failed'' p
         | Inr v \<Rightarrow>
             (case pc p of
                AwaitInitialize _ \<Rightarrow> after_initialize p
              | AwaitTools _ \<Rightarrow> after_tools rt v p
              | AwaitContext _ \<Rightarrow> after_context rt programPath v p
              | _ \<Rightarrow>
                  (case unwrapResult rt v of
                     Inl e \<Rightarrow> main_fail rt ''exception'' (thrown_of rt e) ''runtime failed'' p
                   | Inr _ \<Rightarrow> process_exit 0 p)))
      else (p, []))"

fun continue_all ::
  "js_runtime \<Rightarrow> string option \<Rightarrow> rpc_out list \<Rightarrow> runner \<Rightarrow> runner \<times> rpc_out list" where
  "continue_all rt path [] p = (p, [])"
| "continue_all rt path (out # outs) p =
     (let (p1, as) = (case out of
             Resolve i v \<Rightarrow> continue_main rt path i (Inr v) p
           | Reject i e \<Rightarrow> continue_main rt path i (Inl e) p
           | _ \<Rightarrow> (p, []));
          (p2, bs) = continue_all rt path outs p1
      in (p2, as @ bs))"

definition on_rpc ::
  "js_runtime \<Rightarrow> string option \<Rightarrow> (rpc_state \<times> rpc_out list) \<Rightarrow> runner \<Rightarrow> runner \<times> rpc_out list" where
  "on_rpc rt path ro p =
     (let (r, outs) = ro; (p1, as) = continue_all rt path outs (p\<lparr>rpc := r\<rparr>) in (p1, outs @ as))"

definition runner_step ::
  "js_runtime \<Rightarrow> string option \<Rightarrow> runner_event \<Rightarrow> runner \<Rightarrow> runner \<times> rpc_out list" where
  "runner_step rt path e p =
     (if exit_code p \<noteq> None then (p, [])
      else
        (case e of
           StdinData chunk \<Rightarrow> on_rpc rt path (on_data rt chunk (rpc p)) p
         | StdinEnd \<Rightarrow> on_rpc rt path (on_end (rpc p)) p
         | ProgramImported res \<Rightarrow> if pc p = ImportingProgram then after_import rt res p else (p, [])
         | ProgramFinished res \<Rightarrow> if pc p = RunningProgram then after_run rt res p else (p, [])
         | AtollCall target word input deadlineMs \<Rightarrow>
             (let (res, r, outs) = atoll_call rt target word input deadlineMs (rpc p) in
              (p\<lparr>rpc := r\<rparr>, outs))
         | AtollLog vs \<Rightarrow> (p, [logMessage rt ''info'' ''atoll'' vs])
         | AtollProgress status v \<Rightarrow>
             (let (r, outs) = progress status v (rpc p) in (p\<lparr>rpc := r\<rparr>, outs))
         | ConsoleCall m vs \<Rightarrow> (p, [console rt m vs])
         | UncaughtError err promise \<Rightarrow>
             fail rt ''exception'' err (if promise then ''unhandled rejection'' else ''uncaught exception'') p))"

fun runner_run ::
  "js_runtime \<Rightarrow> string option \<Rightarrow> runner_event list \<Rightarrow> runner \<Rightarrow> runner \<times> rpc_out list" where
  "runner_run rt path [] p = (p, [])"
| "runner_run rt path (e # es) p =
     (let (p1, as) = runner_step rt path e p; (p2, bs) = runner_run rt path es p1 in (p2, as @ bs))"

text \<open>The whole life of the process: \<open>main\<close> starts, then the events.\<close>

definition runner_life ::
  "js_runtime \<Rightarrow> string option \<Rightarrow> runner_event list \<Rightarrow> runner \<times> rpc_out list" where
  "runner_life rt path es =
     (let (p, as) = main_start; (p1, bs) = runner_run rt path es p in (p1, as @ bs))"

subsection \<open>Every request is settled at most once\<close>

text \<open>The ids of the requests among the messages sent, and of the promises settled.\<close>

definition rpc_msg :: "json \<Rightarrow> string \<Rightarrow> json \<Rightarrow> rpc_out" where
  "rpc_msg i method params = send [(''id'', i), (''method'', JStr method), (''params'', params)]"

fun requested :: "rpc_out list \<Rightarrow> json list" where
  "requested [] = []"
| "requested (Sent m # outs) =
     (if jget m ''method'' \<noteq> None then (case jget m ''id'' of None \<Rightarrow> [] | Some i \<Rightarrow> [i]) else [])
     @ requested outs"
| "requested (_ # outs) = requested outs"

fun settled :: "rpc_out list \<Rightarrow> json list" where
  "settled [] = []"
| "settled (Resolve i v # outs) = i # settled outs"
| "settled (Reject i e # outs) = i # settled outs"
| "settled (_ # outs) = settled outs"

definition call_keys :: "rpc_state \<Rightarrow> json list" where
  "call_keys st = map fst (pending_calls st)"

definition rpc_wf :: "rpc_state \<Rightarrow> bool" where
  "rpc_wf st \<longleftrightarrow> distinct (call_keys st) \<and> set (call_keys st) \<subseteq> call_id ` {1..<nextID st} \<and> 1 \<le> nextID st"

text \<open>An operation from \<open>st\<close> to \<open>st'\<close> issues consecutive ids and settles only what was pending
  or what it issued.\<close>

definition accounted :: "rpc_state \<Rightarrow> rpc_state \<Rightarrow> rpc_out list \<Rightarrow> bool" where
  "accounted st st' outs \<longleftrightarrow>
     nextID st \<le> nextID st' \<and>
     requested outs = map call_id [nextID st..<nextID st'] \<and>
     mset (settled outs) + mset (call_keys st') = mset (call_keys st) + mset (requested outs)"

lemma requested_append [simp]: "requested (as @ bs) = requested as @ requested bs"
  by (induction as rule: requested.induct) auto

lemma settled_append [simp]: "settled (as @ bs) = settled as @ settled bs"
  by (induction as rule: settled.induct) auto

lemma settled_map_Reject [simp]: "settled (map (\<lambda>x. Reject (fst x) e) ps) = map fst ps"
  by (induction ps) simp_all

lemma requested_map_Reject [simp]: "requested (map (\<lambda>x. Reject (fst x) e) ps) = []"
  by (induction ps) simp_all

lemma call_id_inj [simp]: "call_id m = call_id n \<longleftrightarrow> m = n"
  by (simp add: call_id_def)

lemma send_simps [simp]:
  "requested (send msg # outs) = requested [send msg] @ requested outs"
  "settled (send msg # outs) = settled outs"
  by (simp_all add: send_def)

lemma accounted_refl [simp]: "accounted st st []"
  by (simp add: accounted_def)

lemma accounted_trans:
  assumes "accounted st st1 as" "accounted st1 st2 bs"
  shows "accounted st st2 (as @ bs)"
proof -
  have "[nextID st..<nextID st2] = [nextID st..<nextID st1] @ [nextID st1..<nextID st2]"
    using assms unfolding accounted_def
    by (metis le_add_diff_inverse upt_add_eq_append)
  moreover have "mset (settled (as @ bs)) + mset (call_keys st2)
      = mset (call_keys st) + mset (requested (as @ bs))"
  proof -
    have "mset (settled as) + (mset (settled bs) + mset (call_keys st2))
        = mset (settled as) + mset (call_keys st1) + mset (requested bs)"
      using assms(2) by (simp add: accounted_def add.assoc)
    also have "\<dots> = mset (call_keys st) + mset (requested as) + mset (requested bs)"
      using assms(1) by (simp add: accounted_def)
    finally show ?thesis by (simp add: add.assoc)
  qed
  ultimately show ?thesis
    using assms by (simp add: accounted_def)
qed

lemma distinct_submset:
  assumes "mset xs \<subseteq># mset ys" "distinct ys"
  shows "distinct xs"
proof -
  obtain zs where "mset ys = mset (xs @ zs)"
    using assms(1) by (metis ex_mset mset_append subset_mset.add_diff_inverse)
  then show ?thesis
    using assms(2) mset_eq_imp_distinct_iff distinct_append by blast
qed

lemma accounted_wf:
  assumes "rpc_wf st" "accounted st st' outs"
  shows "rpc_wf st'"
proof -
  have new: "requested outs = map call_id [nextID st..<nextID st']" "nextID st \<le> nextID st'"
    using assms(2) by (simp_all add: accounted_def)
  have "distinct (call_keys st @ requested outs)"
    using assms(1) unfolding new by (auto simp: rpc_wf_def distinct_map inj_on_def)
  moreover have sub: "mset (call_keys st') \<subseteq># mset (call_keys st @ requested outs)"
    using assms(2) unfolding accounted_def mset_append by (metis mset_subset_eq_add_right)
  ultimately have "distinct (call_keys st')"
    using distinct_submset by blast
  moreover have "set (call_keys st') \<subseteq> set (call_keys st) \<union> set (requested outs)"
    using set_mset_mono [OF sub] by simp
  moreover have "set (call_keys st) \<union> set (requested outs) \<subseteq> call_id ` {1..<nextID st'}"
    using assms(1) new unfolding rpc_wf_def by fastforce
  ultimately have "distinct (call_keys st')" "set (call_keys st') \<subseteq> call_id ` {1..<nextID st'}"
    by blast+
  then show ?thesis
    using assms(1) new(2) unfolding rpc_wf_def by linarith
qed

lemma accounted_request:
  assumes "rpc_wf st"
  shows "accounted st (fst (snd (request m params st))) (snd (snd (request m params st)))"
proof -
  have "call_id (nextID st) \<notin> set (call_keys st)"
    using assms by (auto simp: rpc_wf_def)
  then have "call_keys (fst (snd (request m params st))) = call_keys st @ [call_id (nextID st)]"
    by (simp add: request_def call_keys_def Let_def AList.update_keys)
  then show ?thesis
    by (simp add: accounted_def request_def Let_def send_def)
qed

lemma accounted_receive:
  assumes "rpc_wf st"
  shows "accounted st (fst (receive rt msg st)) (snd (receive rt msg st))"
proof (cases "jget msg ''jsonrpc'' = Some (JStr ''2.0'') \<and> jget msg ''method'' = None \<and>
    (\<exists>i. jget msg ''id'' = Some i \<and> map_of (pending_calls st) i \<noteq> None)")
  case True
  then obtain i where i: "jget msg ''id'' = Some i" "map_of (pending_calls st) i = Some ()"
    by auto
  let ?st = "st\<lparr>pending_calls := AList.delete i (pending_calls st)\<rparr>"
  have "i \<in> set (call_keys st)"
    using i(2) by (force simp: call_keys_def dest: map_of_SomeD)
  moreover have "call_keys ?st = removeAll i (call_keys st)"
    by (simp add: call_keys_def AList.delete_keys)
  moreover have "distinct (call_keys st)"
    using assms by (simp add: rpc_wf_def)
  ultimately have "add_mset i (mset (call_keys ?st)) = mset (call_keys st)"
    by (simp flip: distinct_remove1_removeAll)
  moreover have "fst (receive rt msg st) = ?st" "settled (snd (receive rt msg st)) = [i]"
      "requested (snd (receive rt msg st)) = []"
    using True i by (simp_all add: receive_def Let_def)
  ultimately show ?thesis
    by (simp add: accounted_def)
next
  case False
  then have "fst (receive rt msg st) = st" "requested (snd (receive rt msg st)) = []"
    "settled (snd (receive rt msg st)) = []"
    by (auto simp: receive_def send_def Let_def split: option.split)
  then show ?thesis by (simp add: accounted_def)
qed

lemma accounted_cong:
  assumes "pending_calls st1 = pending_calls st" "nextID st1 = nextID st"
  shows "accounted st1 st' outs = accounted st st' outs" "rpc_wf st1 = rpc_wf st"
    "accounted st' st1 outs = accounted st' st outs"
  using assms by (simp_all add: accounted_def rpc_wf_def call_keys_def)

lemma accounted_receive_line:
  "rpc_wf st \<Longrightarrow> accounted st (fst (receive_line rt line st)) (snd (receive_line rt line st))"
  by (auto simp: receive_line_def accounted_receive split: option.split)

lemma accounted_drain: "rpc_wf st \<Longrightarrow> drain rt st = (st', outs) \<Longrightarrow> accounted st st' outs"
proof (induction "length (inputBuffer st)" arbitrary: st outs rule: less_induct)
  case less
  show ?case
  proof (cases "indexOf (inputBuffer st) [newline]")
    case None
    then show ?thesis using less.prems drain_no_line [of st rt] by simp
  next
    case (Some n)
    obtain t as where line: "receive_line rt (take n (inputBuffer st)) st = (t, as)"
      by (cases "receive_line rt (take n (inputBuffer st)) st") auto
    let ?u = "t\<lparr>inputBuffer := drop (Suc n) (inputBuffer st)\<rparr>"
    obtain v bs where rest: "drain rt ?u = (v, bs)"
      by (cases "drain rt ?u") auto
    have eq: "st' = v" "outs = as @ bs"
      using drain_line [OF Some line rest] less.prems by auto
    have acc: "accounted st ?u as"
      using accounted_receive_line [OF less.prems(1), of rt "take n (inputBuffer st)"] line
      by (simp add: accounted_cong(3) [of ?u t])
    have "length (inputBuffer ?u) < length (inputBuffer st)"
      using indexOf_Some [OF Some] by auto
    then have "accounted ?u v bs"
      using less.hyps [OF _ accounted_wf [OF less.prems(1) acc]] rest eq(1) by simp
    with acc show ?thesis
      unfolding eq by (rule accounted_trans)
  qed
qed

lemma accounted_on_data:
  "rpc_wf st \<Longrightarrow> on_data rt c st = (st', outs) \<Longrightarrow> accounted st st' outs"
  using accounted_drain [of "st\<lparr>inputBuffer := inputBuffer st @ c\<rparr>" rt st' outs]
  by (simp add: on_data_def accounted_cong [of "st\<lparr>inputBuffer := inputBuffer st @ c\<rparr>" st])

lemma accounted_on_end: "on_end st = (st', outs) \<Longrightarrow> accounted st st' outs"
  by (auto simp: on_end_def accounted_def call_keys_def)

text \<open>The same for the whole process.\<close>

definition runner_accounted :: "runner \<Rightarrow> runner \<times> rpc_out list \<Rightarrow> bool" where
  "runner_accounted p r \<longleftrightarrow> (rpc_wf (rpc p) \<longrightarrow> accounted (rpc p) (rpc (fst r)) (snd r))"

lemma accounted_callTool:
  "rpc_wf st \<Longrightarrow> accounted st (fst (snd (callTool n a m st))) (snd (snd (callTool n a m st)))"
  by (simp add: callTool_def accounted_request)

lemma runner_accounted_request:
  assumes "request m params (rpc p1) = (i, r, outs)" "rpc p2 = r"
    "pending_calls (rpc p1) = pending_calls (rpc p)" "nextID (rpc p1) = nextID (rpc p)"
  shows "runner_accounted p (p2, outs)"
  using accounted_request [of "rpc p1" m params] assms(1,2)
  by (simp add: runner_accounted_def accounted_cong [OF assms(3,4)])

lemma runner_accounted_callTool:
  assumes "callTool n a m (rpc p1) = (i, r, outs)" "rpc p2 = r"
    "pending_calls (rpc p1) = pending_calls (rpc p)" "nextID (rpc p1) = nextID (rpc p)"
  shows "runner_accounted p (p2, outs)"
  using assms unfolding callTool_def by (rule runner_accounted_request)

lemma runner_accounted_fail:
  assumes "pending_calls (rpc p1) = pending_calls (rpc p)" "nextID (rpc p1) = nextID (rpc p)"
  shows "runner_accounted p (fail rt kind e fb p1)" "runner_accounted p (main_fail rt kind e fb p1)"
  using assms accounted_callTool [of "rpc p1"]
  by (simp_all add: main_fail_def fail_def Let_def case_prod_beta runner_accounted_def
      accounted_cong [OF assms])

lemma runner_accounted_quiet:
  assumes "pending_calls (rpc p') = pending_calls (rpc p)" "nextID (rpc p') = nextID (rpc p)"
    "requested outs = []" "settled outs = []"
  shows "runner_accounted p (p', outs)"
  using assms by (simp add: runner_accounted_def accounted_def call_keys_def)

lemma runner_accounted_notify:
  "runner_accounted p (p', outs) \<Longrightarrow> runner_accounted p (p', notify m ps # outs)"
  by (simp add: runner_accounted_def accounted_def notify_def send_def)

lemma runner_accounted_trans:
  "runner_accounted p (p1, as) \<Longrightarrow> runner_accounted p1 (p2, bs) \<Longrightarrow> runner_accounted p (p2, as @ bs)"
  unfolding runner_accounted_def fst_conv snd_conv using accounted_trans accounted_wf by blast

lemma runner_accounted_continue: "runner_accounted p (continue_main rt path i res p)"
proof -
  have init: "runner_accounted p (after_initialize p)"
    using accounted_request [of "rpc p"]
    by (simp add: after_initialize_def Let_def case_prod_beta runner_accounted_def
        accounted_def notify_def send_def)
  have ask: "runner_accounted p (p\<lparr>rpc := fst (snd (callTool n a m ((rpc p)\<lparr>toolNames := ns\<rparr>))), pc := c\<rparr>,
      snd (snd (callTool n a m ((rpc p)\<lparr>toolNames := ns\<rparr>))))" for n a m ns c
    using accounted_callTool [of "(rpc p)\<lparr>toolNames := ns\<rparr>" n a m]
      accounted_cong(1,2) [of "(rpc p)\<lparr>toolNames := ns\<rparr>" "rpc p"]
    by (simp add: runner_accounted_def)
  have tools: "runner_accounted p (after_tools rt v p)" for v
    by (simp add: after_tools_def Let_def case_prod_beta ask runner_accounted_fail split: option.split)
  have ctx: "runner_accounted p (after_context rt path v p)" for v
    by (simp add: after_context_def Let_def runner_accounted_fail runner_accounted_quiet split: sum.split)
  have exit: "runner_accounted p (process_exit n p)" for n
    by (simp add: process_exit_def runner_accounted_quiet)
  show ?thesis
    by (simp add: continue_main_def init tools ctx exit runner_accounted_fail runner_accounted_quiet
        split: sum.split main_pc.split)
qed

lemma runner_accounted_continue_all: "runner_accounted p (continue_all rt path outs p)"
proof (induction outs arbitrary: p)
  case (Cons out outs)
  define q where "q = (case out of
       Resolve i v \<Rightarrow> continue_main rt path i (Inr v) p
     | Reject i e \<Rightarrow> continue_main rt path i (Inl e) p
     | _ \<Rightarrow> (p, []))"
  have "runner_accounted p q"
    by (simp add: q_def runner_accounted_continue runner_accounted_quiet split: rpc_out.split)
  then show ?case
    using runner_accounted_trans [of p "fst q" "snd q"] Cons.IH [of "fst q"]
    by (simp add: Let_def case_prod_beta flip: q_def)
qed (simp add: runner_accounted_quiet)

lemma runner_accounted_on_rpc:
  assumes "rpc_wf (rpc p) \<Longrightarrow> accounted (rpc p) (fst ro) (snd ro)"
  shows "runner_accounted p (on_rpc rt path ro p)"
proof -
  let ?p = "p\<lparr>rpc := fst ro\<rparr>"
  have "runner_accounted p (?p, snd ro)"
    using assms by (simp add: runner_accounted_def)
  moreover have "runner_accounted ?p (fst (continue_all rt path (snd ro) ?p), snd (continue_all rt path (snd ro) ?p))"
    by (simp add: runner_accounted_continue_all)
  ultimately show ?thesis
    using runner_accounted_trans by (simp add: on_rpc_def Let_def case_prod_beta)
qed

lemma runner_accounted_step: "runner_accounted p (runner_step rt path e p)"
proof -
  have data: "runner_accounted p (on_rpc rt path (on_data rt c (rpc p)) p)" for c
    by (rule runner_accounted_on_rpc) (simp add: accounted_on_data)
  have fin: "runner_accounted p (on_rpc rt path (on_end (rpc p)) p)"
    by (rule runner_accounted_on_rpc) (simp add: accounted_on_end)
  have imp: "runner_accounted p (after_import rt res p)" for res
    by (simp add: after_import_def runner_accounted_fail runner_accounted_quiet split: import_result.split)
  have ret: "runner_accounted p (p\<lparr>rpc := fst (snd (callTool n a m (rpc p))), pc := c\<rparr>,
      snd (snd (callTool n a m (rpc p))))" for n a m c
    using accounted_callTool [of "rpc p"] by (simp add: runner_accounted_def)
  have run: "runner_accounted p (after_run rt res p)" for res
    by (simp add: after_run_def Let_def case_prod_beta runner_accounted_fail ret
        split: run_result.split option.split)
  have call: "runner_accounted p (p\<lparr>rpc := fst (snd (atoll_call rt t w x d (rpc p)))\<rparr>,
      snd (snd (atoll_call rt t w x d (rpc p))))" for t w x d
    using accounted_callTool [of "rpc p"]
    by (simp add: atoll_call_def Let_def case_prod_beta runner_accounted_def)
  have quiet: "requested [notify m ps] = []" "settled [notify m ps] = []" for m ps
    by (simp_all add: notify_def send_def)
  have cons: "requested [console rt m vs] = []" "settled [console rt m vs] = []" for m vs
    by (cases m; simp add: logMessage_def quiet)+
  show ?thesis
    by (simp add: runner_step_def data fin imp run call cons logMessage_def quiet progress_def Let_def
        case_prod_beta runner_accounted_fail runner_accounted_quiet split: runner_event.split)
qed

lemma runner_accounted_run: "runner_accounted p (runner_run rt path es p)"
proof (induction es arbitrary: p)
  case (Cons e es)
  obtain p1 as where 1: "runner_step rt path e p = (p1, as)"
    by (cases "runner_step rt path e p")
  obtain p2 bs where 2: "runner_run rt path es p1 = (p2, bs)"
    by (cases "runner_run rt path es p1")
  note * = 1 2
  have "runner_accounted p (p1, as)" "runner_accounted p1 (p2, bs)"
    using runner_accounted_step [of p rt path e] Cons.IH [of p1] * by simp_all
  then show ?case
    using runner_accounted_trans [of p p1 as p2 bs] * by simp
qed (simp add: runner_accounted_quiet)

text \<open>C4. Whatever the host sends and the program does, request ids are issued in order
  without gaps, and every request issued is either still pending or has been settled,
  exactly once: the settled ids and the pending ones together are the ids issued.\<close>

theorem requests_settled_once:
  assumes "runner_life rt path es = (p, outs)"
  shows "requested outs = map call_id [1..<nextID (rpc p)] \<and> distinct (settled outs) \<and>
    mset (settled outs) + mset (map fst (pending_calls (rpc p))) = mset (requested outs)"
proof -
  define p0 where "p0 = fst main_start"
  define as where "as = snd main_start"
  define bs where "bs = snd (runner_run rt path es p0)"
  have run: "runner_run rt path es p0 = (p, bs)" "outs = as @ bs"
    using assms unfolding runner_life_def Let_def p0_def as_def bs_def case_prod_beta by auto
  have wf0: "rpc_wf rpc_init"
    by (simp add: rpc_wf_def rpc_init_def call_keys_def)
  have acc0: "accounted rpc_init (rpc p0) as"
    unfolding p0_def as_def main_start_def Let_def case_prod_beta
    using accounted_request [OF wf0] by simp
  have "accounted (rpc p0) (rpc p) bs"
    using runner_accounted_run [of p0 rt path es] run accounted_wf [OF wf0 acc0]
    by (simp add: runner_accounted_def)
  from accounted_trans [OF acc0 this]
  have acc: "accounted rpc_init (rpc p) outs" by (simp add: run)
  then have eq: "requested outs = map call_id [1..<nextID (rpc p)]"
    "mset (settled outs) + mset (call_keys (rpc p)) = mset (requested outs)"
    by (simp_all add: accounted_def rpc_init_def call_keys_def)
  then have "distinct (requested outs)"
    by (simp add: distinct_map inj_on_def)
  moreover have "mset (settled outs) \<subseteq># mset (requested outs)"
    using eq(2) by (metis mset_subset_eq_add_left)
  ultimately have "distinct (settled outs)"
    using distinct_submset by blast
  with eq show ?thesis by (simp add: call_keys_def)
qed

theorem requests_settled_once_witness:
  "\<exists>p outs. runner_life example_runtime None [StdinEnd] = (p, outs) \<and>
     settled outs = [call_id 1] \<and> requested outs = [call_id 1, call_id 2] \<and> distinct (settled outs)"
  using requests_settled_once [OF surjective_pairing, of example_runtime None "[StdinEnd]"]
  by (simp add: runner_life_def main_start_def request_def rpc_init_def runner_step_def on_rpc_def
      on_end_def continue_main_def main_fail_def fail_def callTool_def Let_def opt_field_def
      example_runtime_def thrown_of_def cancelled_error_def send_def case_prod_beta call_id_def)

end
