(* ===== verification/Coderunner_Life.thy ===== *)
theory Coderunner_Life
  imports Coderunner_Main
begin

text \<open>
  What a whole life of the coderunner process guarantees: an invariant that ties the state of
  \<open>main\<close> to the history of effects (\<open>runner_hist\<close>), kept by every step, and the properties that
  follow from it: exit codes, capabilities of the program's calls, reports after the end of
  the input.
\<close>

subsection \<open>What the host can hold the process to\<close>

text \<open>The exit codes among the effects; the tool calls and the tools granted.\<close>

fun exits :: "rpc_out list \<Rightarrow> nat list" where
  "exits [] = []"
| "exits (ProcessExit n # outs) = n # exits outs"
| "exits (_ # outs) = exits outs"

definition tool_call :: "json \<Rightarrow> json \<Rightarrow> json \<Rightarrow> json option \<Rightarrow> rpc_out" where
  "tool_call i name args meta =
     rpc_msg i ''tools/call'' (JObj ([(''name'', name), (''arguments'', args)]
        @ (case meta of None \<Rightarrow> [] | Some m \<Rightarrow> [(''_meta'', m)])))"

text \<open>Tool \<open>tool\<close> of a \<open>tools/list\<close> answer grants the capability with key \<open>k\<close>.\<close>

definition declares :: "js_runtime \<Rightarrow> json \<Rightarrow> string \<Rightarrow> bool" where
  "declares rt tool k \<longleftrightarrow>
     (let meta = js_or (jget tool ''_meta'') (Some (JObj []));
          target = ojget meta ''atoll/target''; word = ojget meta ''atoll/word'';
          actor = ojget meta ''atoll/actor'' in
      truthy target \<and> truthy word \<and>
      (k = tool_key rt target word \<or> truthy actor \<and> k = tool_key rt actor word))"

definition granted :: "rpc_out list \<Rightarrow> json \<Rightarrow> bool" where
  "granted h tool \<longleftrightarrow>
     (\<exists>i listed tools. rpc_msg i ''tools/list'' (JObj []) \<in> set h \<and> Resolve i listed \<in> set h \<and>
        listed_tools listed = Some tools \<and> tool \<in> set tools)"

text \<open>The answer to the \<open>atoll_return\<close> call that carries the program's value.\<close>

definition returned :: "js_runtime \<Rightarrow> runner_event list \<Rightarrow> json \<Rightarrow> rpc_out list \<Rightarrow> bool" where
  "returned rt es i h \<longleftrightarrow>
     (\<exists>v w. ProgramFinished (RunReturned (Some v)) \<in> set es \<and>
        JSON_parse rt (JSON_stringify rt v) = Some w \<and>
        tool_call i (JStr TOOL_RETURN) (JObj [(''value'', w)]) None \<in> set h)"

definition reported :: "json \<Rightarrow> rpc_out list \<Rightarrow> bool" where
  "reported i h \<longleftrightarrow> (\<exists>args. tool_call i (JStr TOOL_FAIL) args None \<in> set h)"

definition exit_ok :: "js_runtime \<Rightarrow> runner_event list \<Rightarrow> nat \<Rightarrow> rpc_out list \<Rightarrow> bool" where
  "exit_ok rt es n h \<longleftrightarrow>
     (n = 0 \<and> (\<exists>i v x. returned rt es i h \<and> Resolve i v \<in> set h \<and> unwrapResult rt v = Inr x)) \<or>
     (n = 1 \<and> (\<exists>i. reported i h \<and> i \<in> set (settled h)))"

definition runner_hist :: "js_runtime \<Rightarrow> runner_event list \<Rightarrow> runner \<Rightarrow> rpc_out list \<Rightarrow> bool" where
  "runner_hist rt es p h \<longleftrightarrow>
     exits h = (case exit_code p of None \<Rightarrow> [] | Some n \<Rightarrow> [n]) \<and>
     (\<forall>i \<in> set (fails p). reported i h) \<and>
     (\<forall>i. pc p = AwaitTools i \<longrightarrow> rpc_msg i ''tools/list'' (JObj []) \<in> set h) \<and>
     (\<forall>i. pc p = AwaitReturn i \<longrightarrow> returned rt es i h) \<and>
     (\<forall>k v. map_of (toolNames (rpc p)) k = Some v \<longrightarrow>
        (\<exists>tool. granted h tool \<and> declares rt tool k \<and> jget tool ''name'' = v)) \<and>
     (\<forall>n. exit_code p = Some n \<longrightarrow> exit_ok rt es n h)"

lemma exits_append [simp]: "exits (as @ bs) = exits as @ exits bs"
  by (induction as rule: exits.induct) auto

lemma exits_send [simp]: "exits (send m # outs) = exits outs" "exits (rpc_msg i n ps # outs) = exits outs"
  by (simp_all add: send_def rpc_msg_def)

lemma history_mono:
  "granted h tool \<Longrightarrow> granted (h @ as) tool"
  "returned rt es i h \<Longrightarrow> returned rt (es @ fs) i (h @ as)"
  "reported i h \<Longrightarrow> reported i (h @ as)"
  by (auto simp: granted_def returned_def reported_def)

lemma exit_ok_mono: "exit_ok rt es n h \<Longrightarrow> exit_ok rt (es @ fs) n (h @ as)"
  using history_mono(2,3) by (fastforce simp: exit_ok_def)

lemma hist_update:
  assumes "runner_hist rt es p h" "exits as = []"
    and "toolNames (rpc p') = toolNames (rpc p)" "exit_code p' = exit_code p"
    and "\<And>i. i \<in> set (fails p') \<Longrightarrow> i \<in> set (fails p) \<or> reported i (h @ as)"
    and "\<And>i. pc p' = AwaitTools i \<Longrightarrow> pc p = AwaitTools i \<or> rpc_msg i ''tools/list'' (JObj []) \<in> set as"
    and "\<And>i. pc p' = AwaitReturn i \<Longrightarrow> pc p = AwaitReturn i \<or> returned rt (es @ fs) i (h @ as)"
  shows "runner_hist rt (es @ fs) p' (h @ as)"
proof -
  have "\<forall>n. exit_code p' = Some n \<longrightarrow> exit_ok rt (es @ fs) n (h @ as)"
    using assms(1,4) exit_ok_mono by (simp add: runner_hist_def)
  moreover have "\<forall>k v. map_of (toolNames (rpc p')) k = Some v \<longrightarrow>
        (\<exists>tool. granted (h @ as) tool \<and> declares rt tool k \<and> jget tool ''name'' = v)"
    using assms(1,3) history_mono(1) unfolding runner_hist_def by metis
  moreover have "\<forall>i \<in> set (fails p'). reported i (h @ as)"
    using assms(1,5) history_mono(3) unfolding runner_hist_def by blast
  moreover have "\<forall>i. pc p' = AwaitReturn i \<longrightarrow> returned rt (es @ fs) i (h @ as)"
    using assms(1,7) history_mono(2) unfolding runner_hist_def by blast
  moreover have "\<forall>i. pc p' = AwaitTools i \<longrightarrow> rpc_msg i ''tools/list'' (JObj []) \<in> set (h @ as)"
    using assms(1,6) unfolding runner_hist_def by auto
  ultimately show ?thesis
    using assms(1,2,4) by (simp add: runner_hist_def)
qed

lemma request_eq:
  "request m ps st = (call_id (nextID st),
     st\<lparr>nextID := Suc (nextID st), pending_calls := AList.update (call_id (nextID st)) () (pending_calls st)\<rparr>,
     [rpc_msg (call_id (nextID st)) m ps])"
  by (simp add: request_def rpc_msg_def Let_def)

lemma callTool_eq:
  "callTool n a m st = (call_id (nextID st),
     st\<lparr>nextID := Suc (nextID st), pending_calls := AList.update (call_id (nextID st)) () (pending_calls st)\<rparr>,
     [tool_call (call_id (nextID st)) n a m])"
  by (simp add: callTool_def request_eq tool_call_def)

lemma exits_tool_call [simp]: "exits (tool_call i n a m # outs) = exits outs"
  by (simp add: tool_call_def)

lemma fail_shape:
  "\<exists>args. fail rt kind e fb p =
     (p\<lparr>rpc := fst (snd (callTool (JStr TOOL_FAIL) args None (rpc p))),
        fails := fails p @ [call_id (nextID (rpc p))]\<rparr>,
      [tool_call (call_id (nextID (rpc p))) (JStr TOOL_FAIL) args None])"
  by (auto simp: fail_def callTool_eq Let_def)

lemma hist_fail:
  assumes "runner_hist rt es p h"
  shows "runner_hist rt (es @ fs) (fst (fail rt kind e fb p)) (h @ snd (fail rt kind e fb p))"
proof -
  obtain args where "fail rt kind e fb p =
     (p\<lparr>rpc := fst (snd (callTool (JStr TOOL_FAIL) args None (rpc p))),
        fails := fails p @ [call_id (nextID (rpc p))]\<rparr>,
      [tool_call (call_id (nextID (rpc p))) (JStr TOOL_FAIL) args None])"
    using fail_shape by blast
  then show ?thesis
    by (auto intro!: hist_update [OF assms] simp: callTool_eq reported_def)
qed

lemma hist_pc:
  assumes "runner_hist rt es p h" "\<And>i. c \<noteq> AwaitTools i" "\<And>i. c \<noteq> AwaitReturn i"
  shows "runner_hist rt es (p\<lparr>pc := c\<rparr>) h"
  using hist_update [OF assms(1), of "[]" "p\<lparr>pc := c\<rparr>" "[]"] assms(2,3) by simp

lemma hist_main_fail:
  assumes "runner_hist rt es p h"
  shows "runner_hist rt (es @ fs) (fst (main_fail rt kind e fb p)) (h @ snd (main_fail rt kind e fb p))"
  unfolding main_fail_def by (rule hist_fail [OF hist_pc [OF assms]]) simp_all

text \<open>Registering the tools of a list answers only for tools of that list.\<close>

lemma register_tool_declares:
  assumes "map_of (register_tool rt tool names) k = Some v"
  shows "map_of names k = Some v \<or> declares rt tool k \<and> jget tool ''name'' = v"
  using assms
  by (auto simp: register_tool_def declares_def Let_def update_conv' split: if_splits)

lemma register_tools_declares:
  "map_of (snd (register_tools rt tools names)) k = Some v \<Longrightarrow>
   map_of names k = Some v \<or> (\<exists>tool \<in> set tools. declares rt tool k \<and> jget tool ''name'' = v)"
proof (induction tools arbitrary: names)
  case (Cons tool tools)
  then show ?case
    using register_tool_declares [of rt tool names k v] by (auto split: if_splits)
qed simp

lemma hist_tools:
  assumes "runner_hist rt es p h" "pc p = AwaitTools i" "Resolve i listed \<in> set h"
    "listed_tools listed = Some tools"
  shows "runner_hist rt es (p\<lparr>rpc := (rpc p)\<lparr>toolNames := snd (register_tools rt tools (toolNames (rpc p)))\<rparr>\<rparr>) h"
proof -
  have "granted h tool" if "tool \<in> set tools" for tool
    using assms that unfolding granted_def runner_hist_def by blast
  then have "\<forall>k v. map_of (snd (register_tools rt tools (toolNames (rpc p)))) k = Some v \<longrightarrow>
        (\<exists>tool. granted h tool \<and> declares rt tool k \<and> jget tool ''name'' = v)"
    using assms(1) register_tools_declares unfolding runner_hist_def by metis
  then show ?thesis
    using assms(1) by (simp add: runner_hist_def)
qed

lemma hist_after_tools:
  assumes "runner_hist rt es p h" "pc p = AwaitTools i" "Resolve i listed \<in> set h"
  shows "runner_hist rt (es @ fs) (fst (after_tools rt listed p)) (h @ snd (after_tools rt listed p))"
proof (cases "listed_tools listed")
  case None
  then show ?thesis
    using hist_main_fail [OF assms(1)] by (simp add: after_tools_def)
next
  case (Some tools)
  let ?p = "p\<lparr>rpc := (rpc p)\<lparr>toolNames := snd (register_tools rt tools (toolNames (rpc p)))\<rparr>\<rparr>"
  have p: "runner_hist rt es ?p h"
    by (rule hist_tools [OF assms Some])
  show ?thesis
  proof (cases "fst (register_tools rt tools (toolNames (rpc p)))")
    case True
    then show ?thesis
      using Some by (auto intro!: hist_update [OF p] simp: after_tools_def callTool_eq case_prod_beta Let_def)
  next
    case False
    then show ?thesis
      using Some hist_main_fail [OF p] by (simp add: after_tools_def case_prod_beta Let_def)
  qed
qed
lemma hist_after_context:
  assumes "runner_hist rt es p h"
  shows "runner_hist rt (es @ fs) (fst (after_context rt path v p)) (h @ snd (after_context rt path v p))"
proof (cases "unwrapResult rt v")
  case (Inl e)
  then show ?thesis
    using hist_main_fail [OF assms] by (simp add: after_context_def)
next
  case (Inr ctx)
  let ?p = "p\<lparr>rpc := (rpc p)\<lparr>requestID := jget ctx ''request_id''\<rparr>, atoll := Some (makeAtoll ctx)\<rparr>"
  have p: "runner_hist rt es ?p h"
    using hist_update [OF assms, of "[]" ?p "[]"] by simp
  have "runner_hist rt (es @ fs) (?p\<lparr>pc := ImportingProgram\<rparr>) (h @ [])"
    by (rule hist_update [OF p]) simp_all
  then show ?thesis
    using Inr hist_main_fail [OF assms] hist_main_fail [OF p] by (simp add: after_context_def Let_def)
qed

lemma hist_exit:
  assumes "runner_hist rt es p h" "exit_code p = None" "exit_ok rt es n h"
  shows "runner_hist rt es (fst (process_exit n p)) (h @ snd (process_exit n p))"
proof -
  have "exit_ok rt es n (h @ [ProcessExit n])"
    using exit_ok_mono [OF assms(3), of "[]" "[ProcessExit n]"] by simp
  moreover have "runner_hist rt es p h" by (rule assms(1))
  ultimately show ?thesis
    using assms(2) history_mono(1)
      history_mono(2) [of rt es _ h "[]" "[ProcessExit n]"] history_mono(3) [of _ h "[ProcessExit n]"]
    unfolding runner_hist_def process_exit_def by (simp, metis)
qed

lemma hist_continue:
  assumes h: "runner_hist rt es p h"
    and v: "\<And>v. res = Inr v \<Longrightarrow> Resolve i v \<in> set h" and i: "i \<in> set (settled h)"
  shows "runner_hist rt es (fst (continue_main rt path i res p)) (h @ snd (continue_main rt path i res p))"
proof -
  have h0: "runner_hist rt es p (h @ [])" using h by simp
  note fail = hist_main_fail [OF h, of "[]", simplified]
  consider "exit_code p \<noteq> None" | "exit_code p = None" "i \<in> set (fails p)"
    | "exit_code p = None" "i \<notin> set (fails p)" by blast
  then show ?thesis
  proof cases
    case 1
    then show ?thesis using h by (simp add: continue_main_def)
  next
    case 2
    then have "exit_ok rt es 1 h"
      using h i by (auto simp: runner_hist_def exit_ok_def)
    with 2 h show ?thesis
      using hist_exit [of rt es p h 1] by (simp add: continue_main_def)
  next
    case 3
    have init: "runner_hist rt es (fst (after_initialize p)) (h @ snd (after_initialize p))"
      by (auto intro!: hist_update [OF h, where fs = "[]", simplified]
          simp: after_initialize_def request_eq Let_def notify_def)
    have ret: "exit_ok rt es 0 h"
      if "pc p = AwaitReturn i" "res = Inr w" "unwrapResult rt w = Inr x" for w x
      using that h v [of w] by (auto simp: runner_hist_def exit_ok_def)
    show ?thesis
    proof (cases "pc p \<in> {AwaitInitialize i, AwaitTools i, AwaitContext i, AwaitReturn i}")
      case False
      then show ?thesis using 3 h by (simp add: continue_main_def)
    next
      case pc: True
      show ?thesis
      proof (cases res)
        case (Inl e)
        then show ?thesis using 3 pc fail by (simp add: continue_main_def)
      next
        case (Inr w)
        have tools: "runner_hist rt es (fst (after_tools rt w p)) (h @ snd (after_tools rt w p))"
          if "pc p = AwaitTools i"
          using hist_after_tools [OF h that, of w "[]"] v [OF Inr] by simp
        have ctx: "runner_hist rt es (fst (after_context rt path w p)) (h @ snd (after_context rt path w p))"
          using hist_after_context [OF h, of "[]"] by simp
        have exit: "runner_hist rt es (fst (process_exit 0 p)) (h @ snd (process_exit 0 p))"
          if "pc p = AwaitReturn i" "unwrapResult rt w = Inr x" for x
          using hist_exit [OF h] 3 ret [OF that(1) Inr that(2)] by simp
        show ?thesis
          using 3 pc Inr init tools ctx exit fail
          by (elim insertE) (simp_all add: continue_main_def split: sum.split)
      qed
    qed
  qed
qed

lemma hist_continue_all:
  assumes "runner_hist rt es p h" "set outs \<subseteq> set h" "set (settled outs) \<subseteq> set (settled h)"
  shows "runner_hist rt es (fst (continue_all rt path outs p)) (h @ snd (continue_all rt path outs p))"
  using assms
proof (induction outs arbitrary: p h)
  case (Cons out outs)
  define q where "q = (case out of
       Resolve i v \<Rightarrow> continue_main rt path i (Inr v) p
     | Reject i e \<Rightarrow> continue_main rt path i (Inl e) p
     | _ \<Rightarrow> (p, []))"
  have "runner_hist rt es (fst q) (h @ snd q)"
  proof (cases out)
    case (Resolve i v)
    then show ?thesis
      using Cons.prems hist_continue [of rt es p h "Inr v" i path] by (simp add: q_def)
  next
    case (Reject i e)
    then show ?thesis
      using Cons.prems hist_continue [of rt es p h "Inl e" i path] by (simp add: q_def)
  qed (use Cons.prems in \<open>simp_all add: q_def\<close>)
  moreover have "set (settled outs) \<subseteq> set (settled h)"
    using Cons.prems(3) by (cases out) auto
  ultimately show ?case
    using Cons.IH [of "fst q" "h @ snd q"] Cons.prems
    by (simp add: Let_def case_prod_beta le_supI1 flip: q_def)
qed simp
text \<open>Handling input ends no process by itself and grants nothing.\<close>

lemma receive_line_exits: "exits (snd (receive_line rt line st)) = []"
  by (auto simp: receive_line_def receive_def Let_def split: option.split)

lemma drain_quiet: "drain rt st = (st', outs) \<Longrightarrow> exits outs = [] \<and> toolNames st' = toolNames st \<and> cancelled st' = cancelled st"
proof (induction "length (inputBuffer st)" arbitrary: st outs rule: less_induct)
  case less
  show ?case
  proof (cases "indexOf (inputBuffer st) [newline]")
    case None
    then show ?thesis using less.prems drain_no_line [of st rt] by simp
  next
    case (Some n)
    obtain t as where line: "receive_line rt (take n (inputBuffer st)) st = (t, as)"
      by (cases "receive_line rt (take n (inputBuffer st)) st") auto
    let ?u = "t\<lparr>inputBuffer := drop (Suc n) (inputBuffer st)\<rparr>"
    obtain v bs where rest: "drain rt ?u = (v, bs)"
      by (cases "drain rt ?u") auto
    have eq: "st' = v" "outs = as @ bs"
      using drain_line [OF Some line rest] less.prems by auto
    have "length (inputBuffer ?u) < length (inputBuffer st)"
      using indexOf_Some [OF Some] by auto
    then have "exits bs = [] \<and> toolNames v = toolNames ?u \<and> cancelled v = cancelled ?u"
      using less.hyps rest eq(1) by blast
    then show ?thesis
      using receive_line_keeps(3,4) [of rt "take n (inputBuffer st)" st]
        receive_line_exits [of rt "take n (inputBuffer st)" st] line eq by simp
  qed
qed

lemma on_data_quiet:
  "exits (snd (on_data rt c st)) = []" "toolNames (fst (on_data rt c st)) = toolNames st"
  using drain_quiet [OF surjective_pairing] by (simp_all add: on_data_def)

lemma on_end_quiet: "exits (snd (on_end st)) = []" "toolNames (fst (on_end st)) = toolNames st"
proof -
  have "exits (map (\<lambda>x. Reject (fst x) e) ps) = []" for e and ps :: "(json \<times> unit) list"
    by (induction ps) auto
  then show "exits (snd (on_end st)) = []" "toolNames (fst (on_end st)) = toolNames st"
    by (simp_all add: on_end_def)
qed

lemma hist_on_rpc:
  assumes "runner_hist rt es p h" "exits (snd ro) = []" "toolNames (fst ro) = toolNames (rpc p)"
  shows "runner_hist rt (es @ fs) (fst (on_rpc rt path ro p)) (h @ snd (on_rpc rt path ro p))"
proof -
  have "runner_hist rt (es @ fs) (p\<lparr>rpc := fst ro\<rparr>) (h @ snd ro)"
    by (rule hist_update [OF assms(1,2)]) (simp_all add: assms(3))
  then show ?thesis
    using hist_continue_all [of rt "es @ fs" "p\<lparr>rpc := fst ro\<rparr>" "h @ snd ro" "snd ro" path]
    by (simp add: on_rpc_def Let_def case_prod_beta)
qed

lemma hist_after_run:
  assumes "runner_hist rt es p h"
  shows "runner_hist rt (es @ [ProgramFinished res]) (fst (after_run rt res p)) (h @ snd (after_run rt res p))"
proof -
  note fail = hist_main_fail [OF assms]
  have ret: "runner_hist rt (es @ [ProgramFinished (RunReturned (Some v))])
      (p\<lparr>rpc := fst (snd (callTool (JStr TOOL_RETURN) (JObj [(''value'', w)]) None (rpc p))),
         pc := AwaitReturn (call_id (nextID (rpc p)))\<rparr>)
      (h @ [tool_call (call_id (nextID (rpc p))) (JStr TOOL_RETURN) (JObj [(''value'', w)]) None])"
    if "JSON_parse rt (JSON_stringify rt v) = Some w" for v w
    by (rule hist_update [OF assms]) (use that in \<open>auto simp: callTool_eq returned_def\<close>)
  show ?thesis
  proof (cases res)
    case (RunReturned r)
    then show ?thesis
      using fail ret by (cases r) (auto simp: after_run_def callTool_eq split: option.split)
  qed (use fail in \<open>simp_all add: after_run_def\<close>)
qed

lemma hist_step:
  assumes h: "runner_hist rt es p h"
  shows "runner_hist rt (es @ [e]) (fst (runner_step rt path e p)) (h @ snd (runner_step rt path e p))"
proof (cases "exit_code p")
  case (Some n)
  then show ?thesis
    using hist_update [OF h, of "[]" p "[e]"] by (simp add: runner_step_def)
next
  case None
  note same = hist_update [OF h, of "[]" p "[e]", simplified]
  show ?thesis
  proof (cases e)
    case (StdinData c)
    then show ?thesis
      using None hist_on_rpc [OF h on_data_quiet] by (simp add: runner_step_def)
  next
    case StdinEnd
    then show ?thesis
      using None hist_on_rpc [OF h on_end_quiet] by (simp add: runner_step_def)
  next
    case (ProgramImported res)
    have "runner_hist rt (es @ [e]) (p\<lparr>pc := RunningProgram\<rparr>) (h @ [])"
      by (rule hist_update [OF h]) simp_all
    then show ?thesis
      using None same ProgramImported hist_main_fail [OF h]
      by (cases res) (simp_all add: runner_step_def after_import_def)
  next
    case (ProgramFinished res)
    then show ?thesis
      using None same hist_after_run [OF h] by (simp add: runner_step_def)
  next
    case (AtollCall t w x d)
    then show ?thesis
      using None same by (auto intro!: hist_update [OF h] simp: runner_step_def atoll_call_def callTool_eq Let_def)
  next
    case (AtollLog vs)
    then show ?thesis
      using None by (auto intro!: hist_update [OF h] simp: runner_step_def logMessage_def notify_def)
  next
    case (AtollProgress s v)
    then show ?thesis
      using None by (auto intro!: hist_update [OF h] simp: runner_step_def progress_def notify_def Let_def)
  next
    case (ConsoleCall m vs)
    have "exits [console rt m vs] = []"
      by (cases m) (simp_all add: logMessage_def notify_def)
    then show ?thesis
      using None ConsoleCall hist_update [OF h, of "[console rt m vs]" p "[e]"] by (simp add: runner_step_def)
  next
    case (UncaughtError err b)
    then show ?thesis
      using None hist_fail [OF h] by (simp add: runner_step_def)
  qed
qed

lemma hist_run:
  "runner_hist rt es p h \<Longrightarrow>
   runner_hist rt (es @ fs) (fst (runner_run rt path fs p)) (h @ snd (runner_run rt path fs p))"
proof (induction fs arbitrary: es p h)
  case (Cons e fs)
  from Cons.IH [OF hist_step [OF Cons.prems]] show ?case
    by (simp add: Let_def case_prod_beta)
qed simp

lemma hist_life: "runner_life rt path es = (p, outs) \<Longrightarrow> runner_hist rt es p outs"
proof -
  assume life: "runner_life rt path es = (p, outs)"
  have "runner_hist rt [] (fst main_start) (snd main_start)"
    by (simp add: runner_hist_def main_start_def request_eq rpc_init_def Let_def)
  from hist_run [OF this, of es path] life show ?thesis
    by (simp add: runner_life_def Let_def case_prod_beta)
qed


text \<open>C19. A call of the program leaves the process only as a call of a tool that the host
  granted: its answer to \<open>tools/list\<close> holds a tool that declares the target and word of the
  call, the call carries that tool's name and an object as its arguments, and the session
  is not cancelled.\<close>

theorem call_declared:
  assumes "runner_life rt path es = (p, outs)"
    and "atoll_call rt target word input deadlineMs (rpc p) = (Inr i, r, sent)"
  shows "\<not> cancelled (rpc p) \<and> (\<exists>tool name. granted outs tool \<and> declares rt tool (tool_key rt target word) \<and>
     jget tool ''name'' = Some name \<and>
     sent = [tool_call i name (callArguments input) (deadline_meta deadlineMs)] \<and>
     is_object (callArguments input))"
proof -
  have call: "\<not> cancelled (rpc p)" "truthy (Option.bind (map_of (toolNames (rpc p)) (tool_key rt target word)) id)"
    using assms(2) by (auto simp: atoll_call_def Let_def split: if_splits prod.splits)
  then obtain name where name: "map_of (toolNames (rpc p)) (tool_key rt target word) = Some (Some name)"
    by (cases "map_of (toolNames (rpc p)) (tool_key rt target word)") (auto elim: truthy.elims)
  have "sent = [tool_call i name (callArguments input) (deadline_meta deadlineMs)]"
    using assms(2) call name by (auto simp: atoll_call_def callTool_eq)
  moreover have "\<exists>tool. granted outs tool \<and> declares rt tool (tool_key rt target word) \<and> jget tool ''name'' = Some name"
    using hist_life [OF assms(1)] name unfolding runner_hist_def by blast
  moreover have "is_object (callArguments input)"
    by (simp add: callArguments_def split: option.split json.split)
  ultimately show ?thesis using call by blast
qed

definition granting_runtime :: js_runtime where
  "granting_runtime = example_runtime\<lparr>JSON_parse := (\<lambda>s.
     if s = ''i'' then Some (JObj [(''jsonrpc'', JStr ''2.0''), (''id'', call_id 1)])
     else if s = ''t'' then Some (JObj [(''jsonrpc'', JStr ''2.0''), (''id'', call_id 2),
       (''result'', JObj [(''tools'', JArr [JObj [(''name'', JStr ''fs_read''),
          (''_meta'', JObj [(''atoll/target'', JStr ''fs''), (''atoll/word'', JStr ''read'')])]])])])
     else None)\<rparr>"

definition granting_events :: "runner_event list" where
  "granting_events = [StdinData (''i'' @ [newline]), StdinData (''t'' @ [newline])]"

lemma on_data_one_line:
  assumes "inputBuffer st = ''''" "newline \<notin> set l"
  shows "on_data rt (l @ [newline]) st = receive_line rt l st"
proof -
  let ?s = "st\<lparr>inputBuffer := l @ [newline]\<rparr>"
  obtain t as where line: "receive_line rt l st = (t, as)"
    by (cases "receive_line rt l st")
  have empty: "inputBuffer t = ''''"
    using receive_line_keeps(1) [of rt l st] line assms(1) by simp
  then have t: "t\<lparr>inputBuffer := ''''\<rparr> = t"
    by (metis rpc_state.surjective rpc_state.update_convs(3))
  have "receive_line rt (take (length l) (inputBuffer ?s)) ?s = (t\<lparr>inputBuffer := l @ [newline]\<rparr>, as)"
    using line by (simp add: receive_line_buffer_indep)
  moreover have "drain rt (t\<lparr>inputBuffer := l @ [newline],
      inputBuffer := drop (Suc (length l)) (inputBuffer ?s)\<rparr>) = (t, [])"
    using drain_no_line [of t rt] empty by (simp add: t)
  ultimately have "drain rt ?s = (t, as @ [])"
    using indexOf_fresh_char [OF assms(2), of "[]"]
      drain_line [of ?s "length l" rt "t\<lparr>inputBuffer := l @ [newline]\<rparr>" as t "[]"] by simp
  then show ?thesis
    using assms(1) line by (simp add: on_data_def)
qed

lemma granting_life:
  "toolNames (rpc (fst (runner_life granting_runtime None granting_events))) = [(''fs read'', Some (JStr ''fs_read''))]"
  "cancelled (rpc (fst (runner_life granting_runtime None granting_events))) = False"
proof -
  have line: "inputBuffer st = '''' \<Longrightarrow> on_data rt (c # [newline]) st = receive_line rt [c] st"
    if "c \<noteq> newline" for rt c st
    using on_data_one_line [of st "[c]" rt] that by simp
  have chars: "CHR ''i'' \<noteq> newline" "CHR ''t'' \<noteq> newline"
    by (simp_all add: newline_def)
  note defs = granting_events_def runner_life_def main_start_def request_eq callTool_eq
      rpc_init_def runner_step_def on_rpc_def line [OF chars(1)] line [OF chars(2)]
      receive_line_def receive_def trim_def js_ws_def code_def
      continue_main_def after_initialize_def after_tools_def listed_tools_def js_or_def register_tool_def
      tool_key_def js_String_def Let_def call_id_def granting_runtime_def
  show "toolNames (rpc (fst (runner_life granting_runtime None granting_events))) = [(''fs read'', Some (JStr ''fs_read''))]"
    by (simp add: defs)
  show "cancelled (rpc (fst (runner_life granting_runtime None granting_events))) = False"
    by (simp add: defs)
qed

theorem call_declared_witness:
  "\<exists>i r sent. atoll_call granting_runtime (Some (JStr ''fs'')) (Some (JStr ''read'')) None None
       (rpc (fst (runner_life granting_runtime None granting_events))) = (Inr i, r, sent) \<and>
     (\<exists>tool. granted (snd (runner_life granting_runtime None granting_events)) tool)"
proof -
  let ?st = "rpc (fst (runner_life granting_runtime None granting_events))"
  have "fst (atoll_call granting_runtime (Some (JStr ''fs'')) (Some (JStr ''read'')) None None ?st)
      = Inr (call_id (nextID ?st))"
    by (simp add: atoll_call_def granting_life tool_key_def js_String_def callTool_eq)
  then obtain i r sent where "atoll_call granting_runtime (Some (JStr ''fs'')) (Some (JStr ''read'')) None None ?st
      = (Inr i, r, sent)"
    by (metis prod.collapse)
  with call_declared [OF surjective_pairing this] show ?thesis by blast
qed

text \<open>C24. Once the host has closed stdin, a report of failure is never answered: if handling
  the end of the input did not exit, no later event of the program exits either, so \<open>fail\<close>
  never reaches its \<open>process.exit(1)\<close>.\<close>

theorem fail_after_end_stuck:
  assumes "exit_code (fst (runner_life rt path (es @ [StdinEnd]))) = None"
    and "list_all (\<lambda>e. case e of StdinData c \<Rightarrow> False | StdinEnd \<Rightarrow> False | _ \<Rightarrow> True) fs"
  shows "exits (snd (runner_life rt path (es @ StdinEnd # fs))) = []"
proof -
  have app: "runner_run rt path (as @ bs) p =
      (let (p1, xs) = runner_run rt path as p; (p2, ys) = runner_run rt path bs p1 in (p2, xs @ ys))" for as bs p
    by (induction as arbitrary: p) (simp_all add: case_prod_beta Let_def)
  let ?p = "fst (runner_life rt path (es @ [StdinEnd]))"
  have step: "exit_code (fst (runner_step rt path e p)) = exit_code p"
    if "case e of StdinData c \<Rightarrow> False | StdinEnd \<Rightarrow> False | _ \<Rightarrow> True" for e p
    using that by (cases e)
      (auto simp: runner_step_def after_import_def after_run_def main_fail_def fail_def atoll_call_def
        progress_def Let_def case_prod_beta split: import_result.split run_result.split option.split)
  have "exit_code (fst (runner_run rt path fs p)) = exit_code p" for p
    using assms(2) step by (induction fs arbitrary: p) (simp_all add: case_prod_beta Let_def)
  then have "exit_code (fst (runner_life rt path ((es @ [StdinEnd]) @ fs))) = None"
    using assms(1) unfolding runner_life_def app Let_def case_prod_beta by simp
  then show ?thesis
    using hist_life [of rt path "es @ StdinEnd # fs", OF surjective_pairing]
    by (simp add: runner_hist_def)
qed

theorem fail_after_end_stuck_witness:
  "exit_code (fst (runner_life example_runtime None ([] @ [StdinEnd]))) = None \<and>
   exits (snd (runner_life example_runtime None ([] @ StdinEnd # [UncaughtError (ThrownValue None) True]))) = []"
proof
  show *: "exit_code (fst (runner_life example_runtime None ([] @ [StdinEnd]))) = None"
    by (simp add: runner_life_def main_start_def request_eq callTool_eq rpc_init_def runner_step_def on_rpc_def
        on_end_def continue_main_def main_fail_def fail_def Let_def opt_field_def thrown_of_def)
  show "exits (snd (runner_life example_runtime None ([] @ StdinEnd # [UncaughtError (ThrownValue None) True]))) = []"
    by (rule fail_after_end_stuck [OF *]) simp
qed

end
