(* ===== verification/Coderunner_Pool.thy ===== *)
theory Coderunner_Pool
  imports Json_Value
begin

text \<open>
  \<open>atoll.all\<close> of \<open>drivers/tools/coderunner/runner.mjs\<close>: a pool of workers that share a cursor
  over an array of thunks. A worker is \<open>Some i\<close> while it awaits thunk \<open>i\<close> and None when its
  loop has returned or thrown. The workers interleave in any order: an event names the
  worker whose thunk settled.
\<close>

record 'v pool =
  thunk_count :: nat
  cursor :: nat
  workers :: "nat option list"
  results :: "'v option list"
  failure :: "'v option"
  started :: "nat list"

datatype 'v pool_event = Fulfilled nat 'v | Rejected nat 'v

definition pool_width :: "jsnum \<Rightarrow> int" where
  "pool_width requested =
     max 1 (min 8 (case requested of Num q \<Rightarrow> \<lfloor>q\<rfloor> | _ \<Rightarrow> 8))"

text \<open>A worker's turn of the loop: take the cursor's index, return past the end, otherwise
  call the thunk.\<close>

definition take_index :: "nat \<Rightarrow> 'v pool \<Rightarrow> 'v pool" where
  "take_index w p =
     (let index = cursor p; p1 = p\<lparr>cursor := Suc (cursor p)\<rparr> in
      if index \<ge> thunk_count p then p1\<lparr>workers := (workers p)[w := None]\<rparr>
      else p1\<lparr>workers := (workers p)[w := Some index], started := started p @ [index]\<rparr>)"

definition pool_start :: "jsnum \<Rightarrow> nat \<Rightarrow> 'v pool" where
  "pool_start requested n =
     (let size = min (nat (pool_width requested)) n in
      fold take_index [0..<size]
        \<lparr>thunk_count = n, cursor = 0, workers = replicate size None,
         results = replicate n None, failure = None, started = []\<rparr>)"

definition pool_step :: "'v pool_event \<Rightarrow> 'v pool \<Rightarrow> 'v pool" where
  "pool_step e p =
     (case e of
        Fulfilled w v \<Rightarrow>
          (if w < length (workers p) then
             (case workers p ! w of
                None \<Rightarrow> p
              | Some index \<Rightarrow> take_index w (p\<lparr>results := (results p)[index := Some v]\<rparr>))
           else p)
      | Rejected w err \<Rightarrow>
          (if w < length (workers p) \<and> workers p ! w \<noteq> None then
             p\<lparr>workers := (workers p)[w := None],
               failure := (case failure p of None \<Rightarrow> Some err | Some e \<Rightarrow> Some e)\<rparr>
           else p))"

definition pool_run :: "'v pool_event list \<Rightarrow> 'v pool \<Rightarrow> 'v pool" where
  "pool_run es p = fold pool_step es p"

text \<open>The promise of \<open>all\<close>: rejected at the first failure, fulfilled with the values when
  every worker has returned.\<close>

definition pool_outcome :: "'v pool \<Rightarrow> ('v, 'v option list) result option" where
  "pool_outcome p =
     (case failure p of
        Some e \<Rightarrow> Some (Inl e)
      | None \<Rightarrow> if \<forall>w \<in> set (workers p). w = None then Some (Inr (results p)) else None)"

subsection \<open>Invariant\<close>

definition in_flight :: "'v pool \<Rightarrow> nat list" where
  "in_flight p = map the (filter (\<lambda>w. w \<noteq> None) (workers p))"

definition pool_core :: "'v pool \<Rightarrow> bool" where
  "pool_core p \<longleftrightarrow>
     started p = [0..<min (cursor p) (thunk_count p)] \<and>
     distinct (in_flight p) \<and> set (in_flight p) \<subseteq> set (started p) \<and>
     length (results p) = thunk_count p \<and>
     (\<forall>i < thunk_count p. results p ! i \<noteq> None \<longrightarrow> i < cursor p \<and> i \<notin> set (in_flight p)) \<and>
     (failure p = None \<longrightarrow>
        (\<forall>i < min (cursor p) (thunk_count p). i \<in> set (in_flight p) \<or> results p ! i \<noteq> None))"

text \<open>A worker returns only when the cursor has passed the last thunk.\<close>

definition pool_inv :: "'v pool \<Rightarrow> bool" where
  "pool_inv p \<longleftrightarrow> pool_core p \<and>
     (failure p = None \<and> None \<in> set (workers p) \<longrightarrow> thunk_count p \<le> cursor p)"

lemma in_flight_iff: "i \<in> set (in_flight p) \<longleftrightarrow> Some i \<in> set (workers p)"
  by (force simp: in_flight_def)

lemma length_in_flight: "length (in_flight p) \<le> length (workers p)"
  by (simp add: in_flight_def)

lemma pool_width_bounds: "1 \<le> pool_width r" "pool_width r \<le> 8"
  by (simp_all add: pool_width_def)

lemma in_flight_split:
  assumes "w < length ws"
  shows "map the (filter (\<lambda>w. w \<noteq> None) ws) =
    map the (filter (\<lambda>w. w \<noteq> None) (take w ws)) @ (case ws ! w of None \<Rightarrow> [] | Some i \<Rightarrow> [i])
      @ map the (filter (\<lambda>w. w \<noteq> None) (drop (Suc w) ws))"
  by (subst id_take_nth_drop [OF assms]) (auto split: option.split)

lemma in_flight_update:
  assumes "w < length (workers p)"
  shows "in_flight (p\<lparr>workers := (workers p)[w := x]\<rparr>) =
    map the (filter (\<lambda>w. w \<noteq> None) (take w (workers p))) @ (case x of None \<Rightarrow> [] | Some i \<Rightarrow> [i])
      @ map the (filter (\<lambda>w. w \<noteq> None) (drop (Suc w) (workers p)))"
  using in_flight_split [of w "(workers p)[w := x]"] assms
  by (simp add: in_flight_def upd_conv_take_nth_drop nth_append)

lemma distinct_insert_mid:
  assumes "c \<notin> set (as @ bs)" "distinct (as @ bs)"
  shows "set (as @ [c] @ bs) = insert c (set (as @ bs))" and "distinct (as @ [c] @ bs)"
  using assms by auto

text \<open>Worker \<open>w\<close> leaves its thunk with or without a value.\<close>

lemma core_release:
  assumes "pool_core p" "w < length (workers p)" "workers p ! w = Some i"
  shows "pool_core (p\<lparr>workers := (workers p)[w := None], results := (results p)[i := Some v]\<rparr>)"
    and "pool_core (p\<lparr>workers := (workers p)[w := None], failure := Some e\<rparr>)"
    and "i < thunk_count p" "results p ! i = None"
proof -
  let ?q = "p\<lparr>workers := (workers p)[w := None]\<rparr>"
  have split: "in_flight p = map the (filter (\<lambda>w. w \<noteq> None) (take w (workers p))) @ [i]
      @ map the (filter (\<lambda>w. w \<noteq> None) (drop (Suc w) (workers p)))"
    using in_flight_split [OF assms(2)] assms(3) by (simp add: in_flight_def)
  have q: "in_flight ?q = map the (filter (\<lambda>w. w \<noteq> None) (take w (workers p)))
      @ map the (filter (\<lambda>w. w \<noteq> None) (drop (Suc w) (workers p)))"
    using in_flight_update [OF assms(2), of None] by simp
  have dist: "distinct (in_flight p)"
    using assms(1) by (simp add: pool_core_def)
  have flight: "set (in_flight ?q) = set (in_flight p) - {i}" "distinct (in_flight ?q)"
    using dist unfolding split q by auto
  have i: "i \<in> set (in_flight p)"
    unfolding split by simp
  then show lt: "i < thunk_count p"
    using assms(1) by (auto simp: pool_core_def)
  then show "results p ! i = None"
    using assms(1) i unfolding pool_core_def by blast
  have eqs: "in_flight (p\<lparr>workers := (workers p)[w := None], results := (results p)[i := Some v]\<rparr>) = in_flight ?q"
    "in_flight (p\<lparr>workers := (workers p)[w := None], failure := Some e\<rparr>) = in_flight ?q"
    by (simp_all add: in_flight_def)
  show "pool_core (p\<lparr>workers := (workers p)[w := None], results := (results p)[i := Some v]\<rparr>)"
    using assms(1) lt flight i unfolding pool_core_def eqs
    by (auto simp: nth_list_update)
  show "pool_core (p\<lparr>workers := (workers p)[w := None], failure := Some e\<rparr>)"
    using assms(1) flight unfolding pool_core_def eqs by auto
qed

lemma core_take_index:
  assumes "pool_core p" "w < length (workers p)" "workers p ! w = None"
  shows "pool_core (take_index w p)"
proof (cases "thunk_count p \<le> cursor p")
  case True
  have "(workers p)[w := None] = workers p"
    using assms(3) by (metis list_update_id)
  then have "in_flight (take_index w p) = in_flight p"
    using True by (simp add: take_index_def in_flight_def Let_def)
  then show ?thesis
    using assms(1) True unfolding pool_core_def take_index_def Let_def by auto
next
  case False
  let ?q = "p\<lparr>workers := (workers p)[w := Some (cursor p)]\<rparr>"
  have "in_flight p = map the (filter (\<lambda>w. w \<noteq> None) (take w (workers p)))
      @ map the (filter (\<lambda>w. w \<noteq> None) (drop (Suc w) (workers p)))"
    using in_flight_split [OF assms(2)] assms(3) by (simp add: in_flight_def)
  moreover have "in_flight ?q = map the (filter (\<lambda>w. w \<noteq> None) (take w (workers p))) @ [cursor p]
      @ map the (filter (\<lambda>w. w \<noteq> None) (drop (Suc w) (workers p)))"
    using in_flight_update [OF assms(2), of "Some (cursor p)"] by simp
  moreover have "set (in_flight p) \<subseteq> {0..<cursor p}"
    using assms(1) by (auto simp: pool_core_def)
  then have "cursor p \<notin> set (in_flight p)" by auto
  moreover have "distinct (in_flight p)"
    using assms(1) by (simp add: pool_core_def)
  ultimately have flight: "set (in_flight ?q) = insert (cursor p) (set (in_flight p))"
      "distinct (in_flight ?q)"
    using distinct_insert_mid [of "cursor p"] by (simp_all only:)
  have eq: "in_flight (take_index w p) = in_flight ?q"
    using False by (simp add: take_index_def in_flight_def Let_def)
  have le: "cursor p < thunk_count p" "min (cursor p) (thunk_count p) = cursor p"
      "min (Suc (cursor p)) (thunk_count p) = Suc (cursor p)"
    using False by auto
  have "results p ! cursor p = None"
    using assms(1) le by (auto simp: pool_core_def)
  then show ?thesis
    using assms(1) le flight unfolding pool_core_def eq
    by (auto simp: take_index_def Let_def less_Suc_eq)
qed



lemma take_index_keeps [simp]:
  "thunk_count (take_index w p) = thunk_count p"
  "length (workers (take_index w p)) = length (workers p)"
  "results (take_index w p) = results p"
  "failure (take_index w p) = failure p"
  by (simp_all add: take_index_def Let_def)

lemma pool_step_keeps [simp]:
  "thunk_count (pool_step e p) = thunk_count p"
  "length (workers (pool_step e p)) = length (workers p)"
  by (simp_all add: pool_step_def split: pool_event.split option.split)

lemma pool_step_fulfilled:
  assumes "w < length (workers p)" "workers p ! w = Some i"
  shows "pool_step (Fulfilled w v) p =
    take_index w (p\<lparr>workers := (workers p)[w := None], results := (results p)[i := Some v]\<rparr>)"
  using assms by (simp add: pool_step_def take_index_def Let_def)

text \<open>An event of a worker that awaits nothing does not occur; the model ignores it.\<close>

definition accepted :: "'v pool \<Rightarrow> 'v pool_event \<Rightarrow> bool" where
  "accepted p e =
     (let w = (case e of Fulfilled w v \<Rightarrow> w | Rejected w v \<Rightarrow> w) in
      w < length (workers p) \<and> workers p ! w \<noteq> None)"

lemma pool_step_ignored: "\<not> accepted p e \<Longrightarrow> pool_step e p = p"
  by (cases e) (auto simp: accepted_def pool_step_def split: option.split)

lemma None_update: "None \<in> set (ws[w := Some i]) \<Longrightarrow> None \<in> set ws"
  by (metis in_set_conv_nth length_list_update nth_list_update_eq nth_list_update_neq option.distinct(1))

lemma inv_take_index:
  assumes "pool_core p" "w < length (workers p)" "workers p ! w = None"
    and "workers p = ws[w := None]" "failure p = None \<Longrightarrow> None \<in> set ws \<Longrightarrow> thunk_count p \<le> cursor p"
  shows "pool_inv (take_index w p)"
proof -
  have "None \<in> set (workers (take_index w p)) \<Longrightarrow> failure p = None \<Longrightarrow>
      thunk_count p \<le> cursor (take_index w p)"
    using assms(4,5) None_update [of ws w "cursor p"]
    by (auto simp: take_index_def Let_def split: if_splits)
  then show ?thesis
    using core_take_index [OF assms(1-3)] by (simp add: pool_inv_def)
qed

lemma pool_step_inv:
  assumes "pool_inv p"
  shows "pool_inv (pool_step e p)"
proof (cases "accepted p e")
  case False
  then show ?thesis using assms pool_step_ignored by metis
next
  case True
  have core: "pool_core p" using assms by (simp add: pool_inv_def)
  show ?thesis
  proof (cases e)
    case (Fulfilled w v)
    with True obtain i where w: "w < length (workers p)" "workers p ! w = Some i"
      by (auto simp: accepted_def)
    show ?thesis
      unfolding Fulfilled pool_step_fulfilled [OF w]
      using assms by (intro inv_take_index [where ws = "workers p"] core_release(1) [OF core w])
        (auto simp: pool_inv_def w)
  next
    case (Rejected w v)
    with True obtain i where w: "w < length (workers p)" "workers p ! w = Some i"
      by (auto simp: accepted_def)
    then show ?thesis
      using core_release(2) [OF core w] by (auto simp: Rejected pool_step_def pool_inv_def split: option.split)
  qed
qed

subsection \<open>From the start of the pool\<close>

lemma fold_take_index:
  "k \<le> m \<Longrightarrow> m \<le> n \<Longrightarrow>
   fold take_index [0..<k] \<lparr>thunk_count = n, cursor = 0, workers = replicate m None,
         results = replicate n None, failure = None, started = []\<rparr> =
   \<lparr>thunk_count = n, cursor = k, workers = map Some [0..<k] @ replicate (m - k) None,
         results = replicate n None, failure = None, started = [0..<k]\<rparr>"
proof (induction k)
  case (Suc k)
  then have "replicate (m - k) None = None # replicate (m - Suc k) (None :: nat option)"
    by (simp add: Suc_diff_le flip: replicate_Suc)
  with Suc show ?case
    by (simp add: take_index_def list_update_append)
qed simp

lemma pool_start_eq:
  "pool_start r n =
     (let size = min (nat (pool_width r)) n in
      \<lparr>thunk_count = n, cursor = size, workers = map Some [0..<size],
       results = replicate n None, failure = None, started = [0..<size]\<rparr>)"
  by (simp add: pool_start_def fold_take_index Let_def)

lemma in_flight_map_Some: "workers p = map Some is \<Longrightarrow> in_flight p = is"
  by (simp add: in_flight_def filter_map comp_def)

lemma pool_start_inv: "pool_inv (pool_start r n :: 'v pool)"
proof -
  let ?size = "min (nat (pool_width r)) n"
  have "in_flight (pool_start r n :: 'v pool) = [0..<?size]"
    by (rule in_flight_map_Some) (simp add: pool_start_eq Let_def)
  then show ?thesis
    unfolding pool_inv_def pool_core_def by (simp only:) (auto simp: pool_start_eq Let_def)
qed

lemma pool_run_keeps [simp]:
  "thunk_count (pool_run es p) = thunk_count p"
  "length (workers (pool_run es p)) = length (workers p)"
  by (induction es arbitrary: p) (simp_all add: pool_run_def)

lemma pool_run_inv: "pool_inv p \<Longrightarrow> pool_inv (pool_run es p)"
  by (induction es arbitrary: p) (simp_all add: pool_run_def pool_step_inv)

text \<open>The values with which thunks were fulfilled, in the order of the events.\<close>

fun fulfilments :: "'v pool_event list \<Rightarrow> 'v pool \<Rightarrow> (nat \<times> 'v) list" where
  "fulfilments [] p = []"
| "fulfilments (e # es) p =
     (case e of
        Fulfilled w v \<Rightarrow> if accepted p e then [(the (workers p ! w), v)] else []
      | Rejected w v \<Rightarrow> [])
     @ fulfilments es (pool_step e p)"

lemma results_after:
  assumes "pool_inv p"
  shows "results (pool_run es p) =
    fold (\<lambda>(i, v) rs. rs[i := Some v]) (fulfilments es p) (results p)"
  using assms
proof (induction es arbitrary: p)
  case (Cons e es)
  then have "results (pool_run es (pool_step e p)) =
      fold (\<lambda>(i, v) rs. rs[i := Some v]) (fulfilments es (pool_step e p)) (results (pool_step e p))"
    using pool_step_inv by blast
  then show ?case
    by (cases e) (auto simp: pool_run_def accepted_def pool_step_def split: option.split)
qed (simp add: pool_run_def)

lemma fulfilments_fresh:
  assumes "pool_inv p"
  shows "distinct (map fst (fulfilments es p)) \<and>
    (\<forall>i \<in> fst ` set (fulfilments es p). i < thunk_count p \<and> results p ! i = None)"
  using assms
proof (induction es arbitrary: p)
  case (Cons e es)
  note IH = Cons.IH [OF pool_step_inv [OF Cons.prems, of e]]
  have core: "pool_core p" using Cons.prems by (simp add: pool_inv_def)
  show ?case
  proof (cases "accepted p e \<and> (\<exists>w v. e = Fulfilled w v)")
    case True
    then obtain w v i where w: "e = Fulfilled w v" "w < length (workers p)" "workers p ! w = Some i"
      by (auto simp: accepted_def)
    have i: "i < thunk_count p" "results p ! i = None"
      using core_release(3,4) [OF core w(2,3)] by auto
    have len: "length (results p) = thunk_count p"
      using core by (simp add: pool_core_def)
    have "results (pool_step e p) = (results p)[i := Some v]"
      using w by (simp add: pool_step_fulfilled)
    then have "\<forall>j \<in> fst ` set (fulfilments es (pool_step e p)). j < thunk_count p \<and> j \<noteq> i \<and> results p ! j = None"
      using IH i len by (auto simp: nth_list_update split: if_splits)
    then show ?thesis
      using IH i w True by auto
  next
    case False
    then have "results (pool_step e p) = results p"
      by (cases e) (auto simp: accepted_def pool_step_def split: option.split)
    moreover have "fulfilments (e # es) p = fulfilments es (pool_step e p)"
      using False by (cases e) auto
    ultimately show ?thesis using IH by simp
  qed
qed simp

lemma fold_list_update:
  "distinct (map fst ivs) \<Longrightarrow> \<forall>i \<in> fst ` set ivs. i < length rs \<Longrightarrow> j < length rs \<Longrightarrow>
   fold (\<lambda>(i, v) rs. rs[i := Some v]) ivs rs ! j =
     (case map_of ivs j of None \<Rightarrow> rs ! j | Some v \<Rightarrow> Some v)"
proof (induction ivs arbitrary: rs)
  case (Cons a ivs)
  obtain i v where a: "a = (i, v)" by (cases a)
  have "map_of ivs i = None"
    using Cons.prems(1) a by (simp add: map_of_eq_None_iff)
  moreover have "fold (\<lambda>(i, v) rs. rs[i := Some v]) ivs (rs[i := Some v]) ! j =
      (case map_of ivs j of None \<Rightarrow> rs[i := Some v] ! j | Some v \<Rightarrow> Some v)"
    using Cons.prems a by (intro Cons.IH) auto
  ultimately show ?case
    using Cons.prems a by (auto simp: nth_list_update split: option.split)
qed simp



text \<open>C21. When \<open>atoll.all\<close> fulfils, it has called each of the \<open>n\<close> thunks exactly once and
  its value is the array of their values in the order of the thunks, whatever the order in
  which they settled.\<close>

theorem pool_all_values:
  assumes "pool_outcome (pool_run es (pool_start requested n)) = Some (Inr vs)"
  shows "started (pool_run es (pool_start requested n)) = [0..<n] \<and> length vs = n \<and>
    distinct (map fst (fulfilments es (pool_start requested n))) \<and>
    (\<forall>i < n. vs ! i \<noteq> None \<and> vs ! i = map_of (fulfilments es (pool_start requested n)) i)"
proof -
  let ?s = "pool_start requested n" let ?p = "pool_run es ?s" let ?fs = "fulfilments es ?s"
  have inv: "pool_inv ?p" and sinv: "pool_inv ?s"
    by (rule pool_run_inv [OF pool_start_inv], rule pool_start_inv)
  have n: "thunk_count ?p = n" "results ?s = replicate n None" "thunk_count ?s = n"
    by (simp_all add: pool_start_eq Let_def)
  have fin: "failure ?p = None" "\<forall>w \<in> set (workers ?p). w = None" "vs = results ?p"
    using assms by (auto simp: pool_outcome_def split: option.splits if_splits)
  have ws: "length (workers ?p) = min (nat (pool_width requested)) n"
    by (simp add: pool_start_eq Let_def)
  have "n \<le> cursor ?p"
  proof (cases "workers ?p")
    case Nil
    then show ?thesis using ws pool_width_bounds(1) [of requested] by simp
  next
    case (Cons w ws)
    then show ?thesis using fin inv n by (auto simp: pool_inv_def)
  qed
  moreover have "in_flight ?p = []"
    using fin(2) by (simp add: in_flight_def filter_empty_conv)
  ultimately have fin2: "started ?p = [0..<n]" "length vs = n" "\<forall>i<n. vs ! i \<noteq> None"
    using inv n fin by (auto simp: pool_inv_def pool_core_def min_absorb2)
  have fs: "distinct (map fst ?fs)" "\<forall>i \<in> fst ` set ?fs. i < n"
    using fulfilments_fresh [OF sinv, of es] n by auto
  have "\<forall>i<n. vs ! i = map_of ?fs i"
    using fold_list_update [OF fs(1), of "replicate n None"] fs(2)
    unfolding fin(3) results_after [OF sinv, of es] n(2) by (simp split: option.split)
  with fin2 fs show ?thesis by simp
qed

theorem pool_all_values_witness:
  "pool_outcome (pool_run [Fulfilled 1 ''b'', Fulfilled 1 ''c'', Fulfilled 0 ''a'']
      (pool_start (Num 2) 3)) = Some (Inr [Some ''a'', Some ''b'', Some ''c'']) \<and>
   started (pool_run [Fulfilled 1 ''b'', Fulfilled 1 ''c'', Fulfilled 0 ''a''] (pool_start (Num 2) 3))
     = [0..<3]"
proof
  show *: "pool_outcome (pool_run [Fulfilled 1 ''b'', Fulfilled 1 ''c'', Fulfilled 0 ''a'']
      (pool_start (Num 2) 3)) = Some (Inr [Some ''a'', Some ''b'', Some ''c''])"
    by (simp add: pool_run_def pool_start_def pool_step_def pool_width_def take_index_def
        pool_outcome_def numeral_2_eq_2 numeral_3_eq_3)
  show "started (pool_run [Fulfilled 1 ''b'', Fulfilled 1 ''c'', Fulfilled 0 ''a''] (pool_start (Num 2) 3))
     = [0..<3]"
    using pool_all_values [OF *] by blast
qed

end
