(* ===== verification/Js_Regex.thy ===== *)
theory Js_Regex
  imports Js_Prelude
begin

text \<open>
  The regular expressions the JavaScript sources test strings with: character classes,
  sequence, alternation and repetition, matched by derivatives. \<open>rx_test\<close> is \<open>RegExp.test\<close>: an
  expression is searched for anywhere in the string unless it is anchored. The language of
  an expression (\<open>rx_lang\<close>) is the specification of the matcher.
\<close>

datatype rx =
    RxNone
  | RxEps
  | RxCls "char \<Rightarrow> bool"
  | RxSeq rx rx
  | RxAlt rx rx
  | RxStar rx

fun nullable :: "rx \<Rightarrow> bool" where
  "nullable RxNone = False"
| "nullable RxEps = True"
| "nullable (RxCls f) = False"
| "nullable (RxSeq r s) = (nullable r \<and> nullable s)"
| "nullable (RxAlt r s) = (nullable r \<or> nullable s)"
| "nullable (RxStar r) = True"

fun rx_seq :: "rx \<Rightarrow> rx \<Rightarrow> rx" where
  "rx_seq RxNone s = RxNone"
| "rx_seq RxEps s = s"
| "rx_seq r s = RxSeq r s"

fun rx_alt :: "rx \<Rightarrow> rx \<Rightarrow> rx" where
  "rx_alt RxNone s = s"
| "rx_alt r RxNone = r"
| "rx_alt r s = RxAlt r s"

fun deriv :: "char \<Rightarrow> rx \<Rightarrow> rx" where
  "deriv c RxNone = RxNone"
| "deriv c RxEps = RxNone"
| "deriv c (RxCls f) = (if f c then RxEps else RxNone)"
| "deriv c (RxSeq r s) =
     (if nullable r then rx_alt (rx_seq (deriv c r) s) (deriv c s) else rx_seq (deriv c r) s)"
| "deriv c (RxAlt r s) = rx_alt (deriv c r) (deriv c s)"
| "deriv c (RxStar r) = rx_seq (deriv c r) (RxStar r)"

fun rx_match :: "rx \<Rightarrow> string \<Rightarrow> bool" where
  "rx_match r [] = nullable r"
| "rx_match r (c # cs) = rx_match (deriv c r) cs"

inductive_set rx_star :: "string set \<Rightarrow> string set" for A where
  Nil: "[] \<in> rx_star A"
| Append: "u \<in> A \<Longrightarrow> v \<in> rx_star A \<Longrightarrow> u @ v \<in> rx_star A"

fun rx_lang :: "rx \<Rightarrow> string set" where
  "rx_lang RxNone = {}"
| "rx_lang RxEps = {[]}"
| "rx_lang (RxCls f) = {[c] | c. f c}"
| "rx_lang (RxSeq r s) = {u @ v | u v. u \<in> rx_lang r \<and> v \<in> rx_lang s}"
| "rx_lang (RxAlt r s) = rx_lang r \<union> rx_lang s"
| "rx_lang (RxStar r) = rx_star (rx_lang r)"

lemma nullable_iff: "nullable r \<longleftrightarrow> [] \<in> rx_lang r"
  by (induction r) (auto intro: rx_star.Nil)

lemma rx_seq_lang [simp]: "rx_lang (rx_seq r s) = rx_lang (RxSeq r s)"
  by (cases "(r, s)" rule: rx_seq.cases) auto

lemma rx_alt_lang [simp]: "rx_lang (rx_alt r s) = rx_lang (RxAlt r s)"
  by (cases "(r, s)" rule: rx_alt.cases) auto

lemma rx_star_Cons:
  "c # cs \<in> rx_star A \<longleftrightarrow> (\<exists>u v. cs = u @ v \<and> c # u \<in> A \<and> v \<in> rx_star A)"
proof
  show "\<exists>u v. cs = u @ v \<and> c # u \<in> A \<and> v \<in> rx_star A" if "c # cs \<in> rx_star A"
    using that
  proof (induction "c # cs" rule: rx_star.induct)
    case (Append u v)
    then show ?case by (cases u) auto
  qed
  show "c # cs \<in> rx_star A" if "\<exists>u v. cs = u @ v \<and> c # u \<in> A \<and> v \<in> rx_star A"
    using that rx_star.Append [of "c # _" A] by fastforce
qed

lemma deriv_lang: "cs \<in> rx_lang (deriv c r) \<longleftrightarrow> c # cs \<in> rx_lang r"
proof (induction r arbitrary: cs)
  case (RxSeq r s)
  have "c # cs \<in> rx_lang (RxSeq r s) \<longleftrightarrow>
      (\<exists>u v. cs = u @ v \<and> c # u \<in> rx_lang r \<and> v \<in> rx_lang s) \<or> [] \<in> rx_lang r \<and> c # cs \<in> rx_lang s"
    by (auto simp: Cons_eq_append_conv)
  then show ?case
    using RxSeq by (auto simp: nullable_iff)
next
  case (RxStar r)
  then show ?case by (auto simp: rx_star_Cons)
qed auto

lemma rx_match_lang: "rx_match r cs \<longleftrightarrow> cs \<in> rx_lang r"
  by (induction cs arbitrary: r) (simp_all add: nullable_iff deriv_lang)

subsection \<open>Notation of the sources\<close>

definition rx_any :: rx where
  "rx_any = RxCls (\<lambda>c. True)"

text \<open>\<open>.\<close> matches all but line terminators.\<close>

definition rx_dot :: rx where
  "rx_dot = RxCls (\<lambda>c. c \<noteq> CHR 0x0A \<and> c \<noteq> CHR 0x0D)"

definition rx_opt :: "rx \<Rightarrow> rx" where
  "rx_opt r = RxAlt r RxEps"

definition rx_plus :: "rx \<Rightarrow> rx" where
  "rx_plus r = RxSeq r (RxStar r)"

definition rx_digit :: rx where
  "rx_digit = RxCls is_digit"

definition rx_digit_comma :: rx where
  "rx_digit_comma = RxCls (\<lambda>c. is_digit c \<or> c = CHR '','')"

definition rx_space :: rx where
  "rx_space = RxCls js_ws"

definition upper :: "char \<Rightarrow> char" where
  "upper c = (if 97 \<le> code c \<and> code c \<le> 122 then char_of (code c - 32) else c)"

text \<open>A literal with the \<open>i\<close> flag.\<close>

fun rx_lit :: "string \<Rightarrow> rx" where
  "rx_lit [] = RxEps"
| "rx_lit (c # cs) = RxSeq (RxCls (\<lambda>d. upper d = upper c)) (rx_lit cs)"

fun rx_seqs :: "rx list \<Rightarrow> rx" where
  "rx_seqs [] = RxEps"
| "rx_seqs (r # rs) = RxSeq r (rx_seqs rs)"

fun rx_alts :: "rx list \<Rightarrow> rx" where
  "rx_alts [] = RxNone"
| "rx_alts (r # rs) = RxAlt r (rx_alts rs)"

text \<open>\<open>r.test(s)\<close> of an expression without anchors, and of one that starts with \<open>^\<close>.\<close>

definition rx_test :: "rx \<Rightarrow> string \<Rightarrow> bool" where
  "rx_test r s = rx_match (RxSeq (RxStar rx_any) (RxSeq r (RxStar rx_any))) s"

definition rx_test_start :: "rx \<Rightarrow> string \<Rightarrow> bool" where
  "rx_test_start r s = rx_match (RxSeq r (RxStar rx_any)) s"

lemma any_star: "s \<in> rx_lang (RxStar rx_any)"
proof (induction s)
  case (Cons c s)
  then show ?case
    using rx_star.Append [of "[c]" "rx_lang rx_any" s] by (simp add: rx_any_def)
qed (simp add: rx_star.Nil)

lemma rx_test_iff: "rx_test r s \<longleftrightarrow> (\<exists>a b c. s = a @ b @ c \<and> b \<in> rx_lang r)"
  unfolding rx_test_def rx_match_lang rx_lang.simps(4) using any_star by blast

lemma rx_test_start_iff: "rx_test_start r s \<longleftrightarrow> (\<exists>b c. s = b @ c \<and> b \<in> rx_lang r)"
  unfolding rx_test_start_def rx_match_lang rx_lang.simps(4) using any_star by blast

lemma rx_lit_lang: "s \<in> rx_lang (rx_lit t) \<longleftrightarrow> map upper s = map upper t"
proof (induction t arbitrary: s)
  case (Cons c t)
  have "s \<in> rx_lang (rx_lit (c # t)) \<longleftrightarrow> (\<exists>d u. s = d # u \<and> upper d = upper c \<and> u \<in> rx_lang (rx_lit t))"
  proof
    assume "s \<in> rx_lang (rx_lit (c # t))"
    then obtain u v d where "s = u @ v" "u = [d]" "upper d = upper c" "v \<in> rx_lang (rx_lit t)"
      by auto
    then show "\<exists>d u. s = d # u \<and> upper d = upper c \<and> u \<in> rx_lang (rx_lit t)" by simp
  next
    assume "\<exists>d u. s = d # u \<and> upper d = upper c \<and> u \<in> rx_lang (rx_lit t)"
    then obtain d u where "s = [d] @ u" "upper d = upper c" "u \<in> rx_lang (rx_lit t)"
      by auto
    then show "s \<in> rx_lang (rx_lit (c # t))"
      unfolding rx_lit.simps rx_lang.simps by blast
  qed
  then show ?case by (cases s) (simp_all add: Cons)
qed simp

declare rx_lit.simps [simp del]

text \<open>A case-insensitive literal occurs in a string.\<close>

lemma rx_test_lit: "rx_test (rx_lit t) s \<longleftrightarrow> (\<exists>a b c. s = a @ b @ c \<and> map upper b = map upper t)"
  by (simp add: rx_test_iff rx_lit_lang)

lemma rx_alts_lang: "rx_lang (rx_alts rs) = (\<Union>r \<in> set rs. rx_lang r)"
  by (induction rs) auto

lemma rx_test_alts: "rx_test (rx_alts rs) s \<longleftrightarrow> (\<exists>r \<in> set rs. rx_test r s)"
  by (auto simp: rx_test_iff rx_alts_lang)

text \<open>The token \<open>^[A-Za-z0-9_.-]{1,80}$\<close>.\<close>

definition token_char :: "char \<Rightarrow> bool" where
  "token_char c = (is_digit c \<or> 65 \<le> code c \<and> code c \<le> 90 \<or> 97 \<le> code c \<and> code c \<le> 122 \<or>
     c = CHR ''_'' \<or> c = CHR ''.'' \<or> c = CHR ''-'')"

definition safe_token :: "string \<Rightarrow> bool" where
  "safe_token s = (1 \<le> length s \<and> length s \<le> 80 \<and> list_all token_char s)"

end
