(* ===== verification/Pi_Messages.thy ===== *)
theory Pi_Messages
  imports Json_Value Js_Regex
begin

text \<open>
  The conversation types of the bundled \<open>pi-ai\<close> package (\<open>drivers/tools/pibridge/bridge.mjs\<close>)
  and the classification of a final assistant message: context overflow, recoverable length,
  retryable provider errors, the price of a call. Token counts and prices are exact rationals.
\<close>

subsection \<open>Messages, usage and models\<close>

record usage_cost =
  cost_input :: rat
  cost_output :: rat
  cost_cacheRead :: rat
  cost_cacheWrite :: rat
  cost_total :: rat

record usage =
  tok_input :: rat
  tok_output :: rat
  tok_cacheRead :: rat
  tok_cacheWrite :: rat
  tok_cacheWrite1h :: "rat option"
  totalTokens :: rat
  usage_cost :: usage_cost

datatype block =
    TextB (btext: string) "string option"
  | ThinkingB (bthinking: string) (thinkingSignature: "string option") (redacted: bool)
  | ImageB string string
  | ToolCallB (tc_id: string) (tc_name: string) json (thoughtSignature: "string option")

datatype content = StringC string | BlocksC "block list"

record assistant =
  a_content :: "block list"
  a_provider :: string
  a_api :: string
  a_model :: string
  stopReason :: string
  errorMessage :: "string option"
  a_usage :: usage
  a_timestamp :: rat

record tool_result =
  toolCallId :: string
  toolName :: string
  r_content :: "block list"
  isError :: bool
  addedToolNames :: "string list"
  r_timestamp :: rat

datatype message =
    UserM content rat
  | AssistantM assistant
  | ToolResultM tool_result

record rates =
  rate_input :: rat
  rate_output :: rat
  rate_cacheRead :: rat
  rate_cacheWrite :: rat

record tier =
  inputTokensAbove :: rat
  tier_rates :: rates

record model =
  model_id :: string
  model_name :: string
  model_provider :: string
  model_api :: string
  reasoning :: bool
  model_input :: "string list"
  contextWindow :: rat
  maxTokens :: rat
  thinkingLevelMap :: "(string \<times> string option) list"
  base_rates :: rates
  tiers :: "tier list"

subsection \<open>Context overflow\<close>

definition OVERFLOW_PATTERNS :: "rx list" where
  "OVERFLOW_PATTERNS =
     [rx_lit ''prompt is too long'',
      rx_lit ''request_too_large'',
      rx_lit ''input is too long for requested model'',
      rx_lit ''exceeds the context window'',
      rx_seqs [rx_lit ''exceeds '', rx_opt (rx_lit ''the ''),
        rx_opt (rx_seqs [rx_lit ''model'', rx_opt (rx_lit [CHR 0x27]), rx_lit ''s '']),
        rx_lit ''maximum context length'',
        rx_alts [rx_seqs [rx_lit '' of '', rx_plus rx_digit_comma, rx_lit '' token'', rx_opt (rx_lit ''s'')],
          rx_seqs [RxStar rx_space, rx_lit ''('', rx_plus rx_digit_comma, rx_lit '')'']]],
      rx_seqs [rx_lit ''input token count'', RxStar rx_dot, rx_lit ''exceeds the maximum''],
      rx_seqs [rx_lit ''maximum prompt length is '', rx_plus rx_digit],
      rx_lit ''reduce the length of the messages'',
      rx_seqs [rx_lit ''maximum context length is '', rx_plus rx_digit, rx_lit '' tokens''],
      rx_seqs [rx_lit ''exceeds '', rx_opt (rx_lit ''the ''), rx_lit ''maximum allowed input length of '',
        rx_plus rx_digit_comma, rx_lit '' token'', rx_opt (rx_lit ''s'')],
      rx_seqs [rx_lit ''input ('', rx_plus rx_digit, rx_lit '' tokens) is longer than the model'',
        rx_opt (rx_lit [CHR 0x27]), rx_lit ''s context length ('', rx_plus rx_digit, rx_lit '' tokens)''],
      rx_seqs [rx_lit ''exceeds the limit of '', rx_plus rx_digit],
      rx_lit ''exceeds the available context size'',
      rx_lit ''greater than the context length'',
      rx_lit ''context window exceeds limit'',
      rx_lit ''exceeded model token limit'',
      rx_seqs [rx_lit ''too large for model with '', rx_plus rx_digit, rx_lit '' maximum context length''],
      rx_seqs [rx_lit ''prompt has '', rx_plus rx_digit_comma, rx_lit '' token'', rx_opt (rx_lit ''s''),
        rx_lit '', but the configured context size is '', rx_plus rx_digit_comma, rx_lit '' token'',
        rx_opt (rx_lit ''s'')],
      rx_lit ''model_context_window_exceeded'',
      rx_seqs [rx_lit ''prompt too long; exceeded '', rx_opt (rx_lit ''max ''), rx_lit ''context length''],
      rx_lit ''range of input length should be'',
      rx_seqs [rx_lit ''context'', rx_alts [rx_lit ''_'', rx_lit '' ''], rx_lit ''length'',
        rx_alts [rx_lit ''_'', rx_lit '' ''], rx_lit ''exceeded''],
      rx_lit ''too many tokens'',
      rx_lit ''token limit exceeded'']"

text \<open>The one overflow pattern and the one non-overflow pattern anchored at the start.\<close>

definition OVERFLOW_NO_BODY :: rx where
  "OVERFLOW_NO_BODY =
     rx_seqs [rx_lit ''4'', rx_alts [rx_lit ''00'', rx_lit ''13''], RxStar rx_space,
       rx_opt (rx_lit ''status code''), RxStar rx_space, rx_lit ''(no body)'']"

definition NON_OVERFLOW_PREFIX :: rx where
  "NON_OVERFLOW_PREFIX =
     RxSeq (rx_alts [rx_lit ''Throttling error'', rx_lit ''Service unavailable'']) (rx_lit '':'')"

definition NON_OVERFLOW_PATTERNS :: "rx list" where
  "NON_OVERFLOW_PATTERNS = [rx_lit ''rate limit'', rx_lit ''too many requests'']"

definition isNonOverflow :: "string \<Rightarrow> bool" where
  "isNonOverflow m = (rx_test_start NON_OVERFLOW_PREFIX m \<or> list_ex (\<lambda>p. rx_test p m) NON_OVERFLOW_PATTERNS)"

definition overflow_text :: "string \<Rightarrow> bool" where
  "overflow_text m = (list_ex (\<lambda>p. rx_test p m) OVERFLOW_PATTERNS \<or> rx_test_start OVERFLOW_NO_BODY m)"

definition has_error_message :: "assistant \<Rightarrow> bool" where
  "has_error_message msg = (case errorMessage msg of None \<Rightarrow> False | Some m \<Rightarrow> m \<noteq> '''')"

definition isContextOverflow :: "assistant \<Rightarrow> rat \<Rightarrow> bool" where
  "isContextOverflow msg window =
     (let inputTokens = tok_input (a_usage msg) + tok_cacheRead (a_usage msg) in
      if stopReason msg = ''error'' \<and> has_error_message msg \<and>
         \<not> isNonOverflow (the (errorMessage msg)) \<and> overflow_text (the (errorMessage msg)) then True
      else if window \<noteq> 0 \<and> stopReason msg = ''stop'' \<and> inputTokens > window then True
      else if window \<noteq> 0 \<and> stopReason msg = ''length'' \<and> tok_output (a_usage msg) = 0 \<and>
              inputTokens \<ge> window * (99 / 100) then True
      else False)"

definition isRecoverableLength :: "assistant \<Rightarrow> rat \<Rightarrow> bool" where
  "isRecoverableLength msg desiredMaxOutput =
     (stopReason msg = ''length'' \<and> desiredMaxOutput > 0 \<and> tok_output (a_usage msg) < desiredMaxOutput)"

subsection \<open>Retryable provider errors\<close>

definition limit_phrases :: "string list" where
  "limit_phrases = [''GoUsageLimitError'', ''FreeUsageLimitError'', ''Monthly usage limit reached'',
     ''available balance'', ''insufficient_quota'', ''out of budget'', ''quota exceeded'', ''billing'']"

definition NON_RETRYABLE_PROVIDER_LIMIT_ERROR_PATTERN :: rx where
  "NON_RETRYABLE_PROVIDER_LIMIT_ERROR_PATTERN = rx_alts (map rx_lit limit_phrases)"

text \<open>\<open>a.?b\<close>.\<close>

definition gap :: "string list \<Rightarrow> rx" where
  "gap ws = (case ws of [] \<Rightarrow> RxEps
     | w # vs \<Rightarrow> rx_seqs (rx_lit w # concat (map (\<lambda>v. [rx_opt rx_dot, rx_lit v]) vs)))"

definition RETRYABLE_PROVIDER_ERROR_PATTERN :: rx where
  "RETRYABLE_PROVIDER_ERROR_PATTERN =
     rx_alts
       [rx_lit ''overloaded'', gap [''rate'', ''limit''], rx_lit ''too many requests'',
        rx_lit ''429'', rx_lit ''500'', rx_lit ''502'', rx_lit ''503'', rx_lit ''504'', rx_lit ''524'',
        gap [''service'', ''unavailable''], gap [''server'', ''error''], gap [''internal'', ''error''],
        gap [''provider'', ''returned'', ''error''],
        rx_lit ''exceeded request buffer limit while retrying upstream'',
        gap [''network'', ''error''], gap [''connection'', ''error''], gap [''connection'', ''refused''],
        gap [''connection'', ''lost''], rx_lit ''other side closed'', rx_lit ''fetch failed'',
        rx_lit ''getaddrinfo'', rx_lit ''ENOTFOUND'', rx_lit ''EAI_AGAIN'', gap [''upstream'', ''connect''],
        rx_lit ''reset before headers'', rx_lit ''socket hang up'', rx_lit ''socket connection was closed'',
        rx_seqs [rx_lit ''time'', rx_opt (rx_lit ''d''), rx_lit '' out''], rx_lit ''timeout'',
        rx_lit ''terminated'', gap [''websocket'', ''closed''], gap [''websocket'', ''error''],
        rx_lit ''ended without'', rx_lit ''stream ended before message_stop'',
        rx_lit ''stream ended before a terminal response event'',
        rx_lit ''http2 request did not get a response'', rx_lit ''retry delay'',
        rx_lit ''you can retry your request'', rx_lit ''try your request again'',
        rx_lit ''please retry your request'', rx_lit ''ResourceExhausted'']"

definition isRetryableAssistantError :: "assistant \<Rightarrow> bool" where
  "isRetryableAssistantError msg =
     (if stopReason msg \<noteq> ''error'' \<or> \<not> has_error_message msg then False
      else if rx_test NON_RETRYABLE_PROVIDER_LIMIT_ERROR_PATTERN (the (errorMessage msg)) then False
      else rx_test RETRYABLE_PROVIDER_ERROR_PATTERN (the (errorMessage msg)))"

subsection \<open>Prices and thinking levels\<close>

text \<open>The loop over the tiers of \<open>calculateCost\<close>: the rates so far and their threshold.\<close>

definition pick_tier :: "rat \<Rightarrow> tier \<Rightarrow> rates \<times> rat \<Rightarrow> rates \<times> rat" where
  "pick_tier inputTokens t st =
     (if inputTokens > inputTokensAbove t \<and> inputTokensAbove t > snd st
      then (tier_rates t, inputTokensAbove t) else st)"

definition calculateCost :: "model \<Rightarrow> usage \<Rightarrow> usage_cost" where
  "calculateCost m u =
     (let inputTokens = tok_input u + tok_cacheRead u + tok_cacheWrite u;
          rs = fst (fold (pick_tier inputTokens) (tiers m) (base_rates m, -1));
          longWrite = (case tok_cacheWrite1h u of None \<Rightarrow> 0 | Some w \<Rightarrow> w);
          shortWrite = tok_cacheWrite u - longWrite;
          ci = rate_input rs / 1000000 * tok_input u;
          co = rate_output rs / 1000000 * tok_output u;
          cr = rate_cacheRead rs / 1000000 * tok_cacheRead u;
          cw = (rate_cacheWrite rs * shortWrite + rate_input rs * 2 * longWrite) / 1000000
      in \<lparr>cost_input = ci, cost_output = co, cost_cacheRead = cr, cost_cacheWrite = cw,
          cost_total = ci + co + cr + cw\<rparr>)"

definition EXTENDED_THINKING_LEVELS :: "string list" where
  "EXTENDED_THINKING_LEVELS = [''off'', ''minimal'', ''low'', ''medium'', ''high'', ''xhigh'', ''max'']"

definition getSupportedThinkingLevels :: "model \<Rightarrow> string list" where
  "getSupportedThinkingLevels m =
     (if \<not> reasoning m then [''off'']
      else filter (\<lambda>level.
        case map_of (thinkingLevelMap m) level of
          Some None \<Rightarrow> False
        | mapped \<Rightarrow> if level = ''xhigh'' \<or> level = ''max'' then mapped \<noteq> None else True)
        EXTENDED_THINKING_LEVELS)"

text \<open>\<open>levels.indexOf(level)\<close>; None is -1.\<close>

fun level_index :: "string list \<Rightarrow> string \<Rightarrow> nat option" where
  "level_index [] l = None"
| "level_index (x # xs) l = (if x = l then Some 0 else map_option Suc (level_index xs l))"

definition first_or_off :: "string list \<Rightarrow> string" where
  "first_or_off ls = (case ls of [] \<Rightarrow> ''off'' | l # _ \<Rightarrow> l)"

text \<open>Upwards from the requested level, then downwards from below it.\<close>

definition clampThinkingLevel :: "model \<Rightarrow> string \<Rightarrow> string" where
  "clampThinkingLevel m level =
     (let available = getSupportedThinkingLevels m in
      if level \<in> set available then level
      else
        (case level_index EXTENDED_THINKING_LEVELS level of
           None \<Rightarrow> first_or_off available
         | Some i \<Rightarrow>
             (case find (\<lambda>c. c \<in> set available) (drop i EXTENDED_THINKING_LEVELS) of
                Some c \<Rightarrow> c
              | None \<Rightarrow>
                  (case find (\<lambda>c. c \<in> set available) (rev (take i EXTENDED_THINKING_LEVELS)) of
                     Some c \<Rightarrow> c
                   | None \<Rightarrow> first_or_off available))))"

subsection \<open>Properties\<close>

text \<open>A phrase occurs in a text, case ignored.\<close>

definition mentions :: "string \<Rightarrow> string \<Rightarrow> bool" where
  "mentions s phrase \<longleftrightarrow> (\<exists>a b c. s = a @ b @ c \<and> map upper b = map upper phrase)"

lemma rx_test_lit_mentions: "rx_test (rx_lit t) s \<longleftrightarrow> mentions s t"
  by (simp add: rx_test_lit mentions_def)

lemma mentions_length: "mentions s phrase \<Longrightarrow> length phrase \<le> length s"
  by (auto simp: mentions_def dest!: arg_cong [where f = length])

lemma limit_pattern_iff:
  "rx_test NON_RETRYABLE_PROVIDER_LIMIT_ERROR_PATTERN s \<longleftrightarrow> (\<exists>phrase \<in> set limit_phrases. mentions s phrase)"
  unfolding NON_RETRYABLE_PROVIDER_LIMIT_ERROR_PATTERN_def rx_test_alts
  by (simp add: rx_test_lit_mentions)

lemma isNonOverflow_mentions:
  "mentions s ''rate limit'' \<or> mentions s ''too many requests'' \<Longrightarrow> isNonOverflow s"
  by (auto simp: isNonOverflow_def NON_OVERFLOW_PATTERNS_def rx_test_lit_mentions)

text \<open>Account limits are never retried and throttling is never taken for an overflow: a
  message classified as retryable mentions no quota or billing phrase, in any letter case,
  and a failed message classified as a context overflow mentions no rate limit.\<close>

theorem limits_not_retried:
  assumes "stopReason msg = ''error''" "errorMessage msg = Some m"
  shows "(isRetryableAssistantError msg \<longrightarrow> (\<forall>phrase \<in> set limit_phrases. \<not> mentions m phrase)) \<and>
     (isContextOverflow msg window \<longrightarrow> \<not> mentions m ''rate limit'' \<and> \<not> mentions m ''too many requests'')"
proof
  show "isRetryableAssistantError msg \<longrightarrow> (\<forall>phrase \<in> set limit_phrases. \<not> mentions m phrase)"
    using assms limit_pattern_iff [of m] by (auto simp: isRetryableAssistantError_def split: if_splits)
  show "isContextOverflow msg window \<longrightarrow> \<not> mentions m ''rate limit'' \<and> \<not> mentions m ''too many requests''"
    using assms isNonOverflow_mentions [of m] by (auto simp: isContextOverflow_def Let_def split: if_splits)
qed

definition no_usage :: usage where
  "no_usage = \<lparr>tok_input = 0, tok_output = 0, tok_cacheRead = 0, tok_cacheWrite = 0,
     tok_cacheWrite1h = None, totalTokens = 0,
     usage_cost = \<lparr>cost_input = 0, cost_output = 0, cost_cacheRead = 0, cost_cacheWrite = 0, cost_total = 0\<rparr>\<rparr>"

definition failed_message :: "string \<Rightarrow> assistant" where
  "failed_message m = \<lparr>a_content = [], a_provider = ''p'', a_api = ''a'', a_model = ''m'',
     stopReason = ''error'', errorMessage = Some m, a_usage = no_usage, a_timestamp = 0\<rparr>"

theorem limits_not_retried_witness:
  "isRetryableAssistantError (failed_message ''E 503'') \<and> \<not> mentions ''E 503'' ''billing''"
proof -
  have m: "stopReason (failed_message ''E 503'') = ''error''"
      "errorMessage (failed_message ''E 503'') = Some ''E 503''"
    by (simp_all add: failed_message_def)
  have "mentions ''E 503'' ''503''"
    unfolding mentions_def
    by (rule exI [of _ "''E ''"], rule exI [of _ "''503''"], rule exI [of _ "''''"]) simp
  then have "rx_test RETRYABLE_PROVIDER_ERROR_PATTERN ''E 503''"
    unfolding RETRYABLE_PROVIDER_ERROR_PATTERN_def rx_test_alts by (simp add: rx_test_lit_mentions)
  moreover have "\<not> rx_test NON_RETRYABLE_PROVIDER_LIMIT_ERROR_PATTERN ''E 503''"
    by (auto simp: limit_pattern_iff limit_phrases_def dest!: mentions_length)
  ultimately have "isRetryableAssistantError (failed_message ''E 503'')"
    by (simp add: isRetryableAssistantError_def m has_error_message_def)
  then show ?thesis
    using limits_not_retried [OF m, of 0] by (simp add: limit_phrases_def)
qed

lemma pick_tier_fold:
  assumes "fold (pick_tier n) ts (r0, -1) = (r, th)"
  shows "th = -1 \<and> r = r0 \<and> (\<forall>t \<in> set ts. \<not> (-1 < inputTokensAbove t \<and> inputTokensAbove t < n)) \<or>
    (\<exists>t \<in> set ts. r = tier_rates t \<and> th = inputTokensAbove t \<and> -1 < th \<and> th < n \<and>
       (\<forall>s \<in> set ts. inputTokensAbove s < n \<longrightarrow> inputTokensAbove s \<le> th))"
  using assms
proof (induction ts arbitrary: r th rule: rev_induct)
  case (snoc t ts)
  obtain r1 th1 where fold: "fold (pick_tier n) ts (r0, -1) = (r1, th1)"
    by (cases "fold (pick_tier n) ts (r0, -1)")
  have step: "(r, th) = pick_tier n t (r1, th1)"
    using snoc.prems fold by simp
  show ?case
    using snoc.IH [OF fold] step by (auto simp: pick_tier_def split: if_splits)
qed simp

text \<open>The price of a call uses the tier with the highest threshold below the number of
  its input tokens, whatever the order of the tiers in the catalogue, and the base rates
  when there is none; the total is the sum of the parts.\<close>

theorem cost_uses_highest_tier:
  assumes "\<forall>t \<in> set (tiers m). 0 \<le> inputTokensAbove t"
  shows "\<exists>r. ((r = base_rates m \<and> (\<forall>t \<in> set (tiers m). tok_input u + tok_cacheRead u + tok_cacheWrite u \<le> inputTokensAbove t)) \<or>
      (\<exists>t \<in> set (tiers m). r = tier_rates t \<and>
         inputTokensAbove t < tok_input u + tok_cacheRead u + tok_cacheWrite u \<and>
         (\<forall>s \<in> set (tiers m). inputTokensAbove s < tok_input u + tok_cacheRead u + tok_cacheWrite u \<longrightarrow>
            inputTokensAbove s \<le> inputTokensAbove t))) \<and>
    cost_input (calculateCost m u) = rate_input r * tok_input u / 1000000 \<and>
    cost_output (calculateCost m u) = rate_output r * tok_output u / 1000000 \<and>
    cost_total (calculateCost m u) = cost_input (calculateCost m u) + cost_output (calculateCost m u) +
      cost_cacheRead (calculateCost m u) + cost_cacheWrite (calculateCost m u)"
proof -
  let ?n = "tok_input u + tok_cacheRead u + tok_cacheWrite u"
  obtain r th where fold: "fold (pick_tier ?n) (tiers m) (base_rates m, -1) = (r, th)"
    by (cases "fold (pick_tier ?n) (tiers m) (base_rates m, -1)")
  have above: "-1 < inputTokensAbove t" if "t \<in> set (tiers m)" for t
    using assms that by force
  show ?thesis
    using pick_tier_fold [OF fold] above
    by (intro exI [of _ r]) (auto simp: calculateCost_def fold Let_def not_less)
qed

definition flat_rates :: "rat \<Rightarrow> rates" where
  "flat_rates q = \<lparr>rate_input = q, rate_output = q, rate_cacheRead = q, rate_cacheWrite = q\<rparr>"

definition example_model :: model where
  "example_model = \<lparr>model_id = ''m'', model_name = ''M'', model_provider = ''p'', model_api = ''a'',
     reasoning = True, model_input = [''text''], contextWindow = 1000, maxTokens = 100,
     thinkingLevelMap = [(''low'', None)], base_rates = flat_rates 1,
     tiers = [\<lparr>inputTokensAbove = 10, tier_rates = flat_rates 2\<rparr>]\<rparr>"

theorem cost_uses_highest_tier_witness:
  "\<exists>r. (\<exists>t \<in> set (tiers example_model). r = tier_rates t) \<and>
     cost_input (calculateCost example_model (no_usage\<lparr>tok_input := 20\<rparr>)) = rate_input r * 20 / 1000000"
  using cost_uses_highest_tier [of example_model "no_usage\<lparr>tok_input := 20\<rparr>"]
  by (auto simp: example_model_def no_usage_def)

lemma first_or_off_mem: "ls \<noteq> [] \<Longrightarrow> first_or_off ls \<in> set ls"
  by (cases ls) (simp_all add: first_or_off_def)

lemma find_mem: "find P xs = Some x \<Longrightarrow> P x"
  by (auto simp: find_Some_iff)

text \<open>Clamping gives a level the model supports, unless it supports none; it keeps a
  supported level, and clamping twice is clamping once.\<close>

theorem clamp_supported:
  "(getSupportedThinkingLevels m \<noteq> [] \<longrightarrow>
      clampThinkingLevel m level \<in> set (getSupportedThinkingLevels m)) \<and>
   (level \<in> set (getSupportedThinkingLevels m) \<longrightarrow> clampThinkingLevel m level = level) \<and>
   (getSupportedThinkingLevels m \<noteq> [] \<longrightarrow>
      clampThinkingLevel m (clampThinkingLevel m level) = clampThinkingLevel m level)"
proof -
  have "clampThinkingLevel m level \<in> set (getSupportedThinkingLevels m)"
    if "getSupportedThinkingLevels m \<noteq> []"
    using first_or_off_mem [OF that]
    by (auto simp: clampThinkingLevel_def Let_def dest: find_mem split: option.splits)
  then show ?thesis
    by (auto simp: clampThinkingLevel_def Let_def)
qed

theorem clamp_supported_witness:
  "clampThinkingLevel example_model ''low'' = ''medium'' \<and>
   clampThinkingLevel example_model ''low'' \<in> set (getSupportedThinkingLevels example_model)"
proof -
  have "getSupportedThinkingLevels example_model \<noteq> []"
    by (simp add: getSupportedThinkingLevels_def example_model_def EXTENDED_THINKING_LEVELS_def)
  then have "clampThinkingLevel example_model ''low'' \<in> set (getSupportedThinkingLevels example_model)"
    using clamp_supported [of example_model "''low''"] by blast
  moreover have "clampThinkingLevel example_model ''low'' = ''medium''"
    by (simp add: clampThinkingLevel_def getSupportedThinkingLevels_def example_model_def
        EXTENDED_THINKING_LEVELS_def)
  ultimately show ?thesis by simp
qed

end
