(* ===== verification/Pi_Estimate.thy ===== *)
theory Pi_Estimate
  imports Pi_Messages
begin

text \<open>
  Token estimates of \<open>pi-ai\<close> (\<open>utils/estimate.js\<close>) and the output budgets derived from them
  (\<open>api/simple-options.js\<close>), both in \<open>drivers/tools/pibridge/bridge.mjs\<close>.
\<close>

definition CHARS_PER_TOKEN :: rat where "CHARS_PER_TOKEN = 4"
definition ESTIMATED_IMAGE_CHARS :: nat where "ESTIMATED_IMAGE_CHARS = 4800"

definition js_ceil :: "rat \<Rightarrow> rat" where
  "js_ceil q = of_int \<lceil>q\<rceil>"

text \<open>\<open>usage.totalTokens || sum\<close>.\<close>

definition calculateContextTokens :: "usage \<Rightarrow> rat" where
  "calculateContextTokens u =
     (if totalTokens u \<noteq> 0 then totalTokens u
      else tok_input u + tok_output u + tok_cacheRead u + tok_cacheWrite u)"

definition safeJsonStringify :: "js_runtime \<Rightarrow> jsval \<Rightarrow> string" where
  "safeJsonStringify rt v = (case v of None \<Rightarrow> ''undefined'' | Some j \<Rightarrow> JSON_stringify rt j)"

definition estimateTextAndImageContentChars :: "content \<Rightarrow> nat" where
  "estimateTextAndImageContentChars c =
     (case c of
        StringC s \<Rightarrow> length s
      | BlocksC bs \<Rightarrow>
          fold (\<lambda>b chars. chars + (case b of TextB t s \<Rightarrow> length t | _ \<Rightarrow> ESTIMATED_IMAGE_CHARS)) bs 0)"

definition estimateTextTokens :: "string \<Rightarrow> rat" where
  "estimateTextTokens t = js_ceil (of_nat (length t) / CHARS_PER_TOKEN)"

definition estimateTextAndImageContentTokens :: "content \<Rightarrow> rat" where
  "estimateTextAndImageContentTokens c =
     js_ceil (of_nat (estimateTextAndImageContentChars c) / CHARS_PER_TOKEN)"

text \<open>Assistant messages hold no images.\<close>

definition block_chars :: "js_runtime \<Rightarrow> block \<Rightarrow> nat" where
  "block_chars rt b =
     (case b of
        TextB t s \<Rightarrow> length t
      | ThinkingB t s r \<Rightarrow> length t
      | ToolCallB i n args s \<Rightarrow> length n + length (safeJsonStringify rt (Some args))
      | ImageB d mime \<Rightarrow> 0)"

definition estimateMessageTokens :: "js_runtime \<Rightarrow> message \<Rightarrow> rat" where
  "estimateMessageTokens rt msg =
     (case msg of
        UserM c ts \<Rightarrow> estimateTextAndImageContentTokens c
      | ToolResultM r \<Rightarrow> estimateTextAndImageContentTokens (BlocksC (r_content r))
      | AssistantM a \<Rightarrow>
          js_ceil (of_nat (fold (\<lambda>b chars. chars + block_chars rt b) (a_content a) 0) / CHARS_PER_TOKEN))"

definition timestamp :: "message \<Rightarrow> rat" where
  "timestamp msg = (case msg of UserM c ts \<Rightarrow> ts | AssistantM a \<Rightarrow> a_timestamp a | ToolResultM r \<Rightarrow> r_timestamp r)"

text \<open>The loop of \<open>getLastAssistantUsageInfo\<close>; None for the latest timestamp is minus infinity.\<close>

definition counts_for_prefix :: "rat option \<Rightarrow> assistant \<Rightarrow> bool" where
  "counts_for_prefix latest a =
     ((case latest of None \<Rightarrow> True | Some l \<Rightarrow> a_timestamp a \<ge> l) \<and>
      stopReason a \<noteq> ''aborted'' \<and> stopReason a \<noteq> ''error'' \<and> calculateContextTokens (a_usage a) > 0)"

fun usage_scan :: "message list \<Rightarrow> nat \<Rightarrow> rat option \<Rightarrow> (usage \<times> nat) option \<Rightarrow> (usage \<times> nat) option" where
  "usage_scan [] i latest info = info"
| "usage_scan (msg # msgs) i latest info =
     (let info1 = (case msg of
            AssistantM a \<Rightarrow> if counts_for_prefix latest a then Some (a_usage a, i) else info
          | _ \<Rightarrow> info)
      in usage_scan msgs (Suc i)
           (Some (case latest of None \<Rightarrow> timestamp msg | Some l \<Rightarrow> max l (timestamp msg))) info1)"

definition getLastAssistantUsageInfo :: "message list \<Rightarrow> (usage \<times> nat) option" where
  "getLastAssistantUsageInfo msgs = usage_scan msgs 0 None None"

record estimate =
  tokens :: rat
  usageTokens :: rat
  trailingTokens :: rat
  lastUsageIndex :: "nat option"

definition estimateMessages :: "js_runtime \<Rightarrow> message list \<Rightarrow> estimate" where
  "estimateMessages rt msgs =
     (case getLastAssistantUsageInfo msgs of
        Some (u, index) \<Rightarrow>
          (let used = calculateContextTokens u;
               trailing = sum_list (map (estimateMessageTokens rt) (drop (Suc index) msgs)) in
           \<lparr>tokens = used + trailing, usageTokens = used, trailingTokens = trailing,
            lastUsageIndex = Some index\<rparr>)
      | None \<Rightarrow>
          (let n = sum_list (map (estimateMessageTokens rt) msgs) in
           \<lparr>tokens = n, usageTokens = 0, trailingTokens = n, lastUsageIndex = None\<rparr>))"

definition estimateToolsTokens :: "js_runtime \<Rightarrow> json list option \<Rightarrow> rat" where
  "estimateToolsTokens rt tools =
     (if tools = None \<or> tools = Some [] then 0
      else estimateTextTokens (safeJsonStringify rt (Some (JArr (the tools)))))"

record pi_context =
  systemPrompt :: string
  ctx_messages :: "message list"
  ctx_tools :: "json list option"

definition added_names :: "message list \<Rightarrow> string list" where
  "added_names msgs = concat (map (\<lambda>m. case m of ToolResultM r \<Rightarrow> addedToolNames r | _ \<Rightarrow> []) msgs)"

definition estimateContextTokens :: "js_runtime \<Rightarrow> pi_context \<Rightarrow> estimate" where
  "estimateContextTokens rt ctx =
     (let e = estimateMessages rt (ctx_messages ctx) in
      case lastUsageIndex e of
        Some i \<Rightarrow>
          (let names = set (added_names (drop (Suc i) (ctx_messages ctx)));
               added = estimateToolsTokens rt (map_option
                 (filter (\<lambda>t. \<exists>n \<in> names. jget t ''name'' = Some (JStr n))) (ctx_tools ctx)) in
           \<lparr>tokens = tokens e + added, usageTokens = usageTokens e,
            trailingTokens = trailingTokens e + added, lastUsageIndex = lastUsageIndex e\<rparr>)
      | None \<Rightarrow>
          (let prefix_tokens = (if systemPrompt ctx \<noteq> '''' then estimateTextTokens (systemPrompt ctx) else 0)
                 + estimateToolsTokens rt (ctx_tools ctx) in
           \<lparr>tokens = tokens e + prefix_tokens, usageTokens = usageTokens e,
            trailingTokens = trailingTokens e + prefix_tokens, lastUsageIndex = lastUsageIndex e\<rparr>))"

subsection \<open>Output budgets\<close>

definition CONTEXT_SAFETY_TOKENS :: rat where "CONTEXT_SAFETY_TOKENS = 4096"
definition MIN_MAX_TOKENS :: rat where "MIN_MAX_TOKENS = 1"
definition MIN_ANSWER_TOKENS :: rat where "MIN_ANSWER_TOKENS = 1024"

lemmas budget_defs = CONTEXT_SAFETY_TOKENS_def MIN_MAX_TOKENS_def MIN_ANSWER_TOKENS_def

definition DEFAULT_THINKING_BUDGETS :: "(string \<times> rat) list" where
  "DEFAULT_THINKING_BUDGETS = [(''minimal'', 1024), (''low'', 2048), (''medium'', 8192), (''high'', 16384)]"

definition clampMaxTokensToContext :: "js_runtime \<Rightarrow> model \<Rightarrow> pi_context \<Rightarrow> rat \<Rightarrow> rat" where
  "clampMaxTokensToContext rt m ctx wanted =
     (if contextWindow m \<le> 0 then max MIN_MAX_TOKENS wanted
      else
        (let available = contextWindow m - tokens (estimateContextTokens rt ctx) - CONTEXT_SAFETY_TOKENS in
         min wanted (max MIN_MAX_TOKENS available)))"

definition clampReasoning :: "string \<Rightarrow> string" where
  "clampReasoning effort = (if effort = ''xhigh'' \<or> effort = ''max'' then ''high'' else effort)"

definition thinkingBudgetForLevel :: "string \<Rightarrow> (string \<times> rat) list \<Rightarrow> rat option" where
  "thinkingBudgetForLevel level customBudgets =
     map_of (customBudgets @ DEFAULT_THINKING_BUDGETS) (clampReasoning level)"

definition clampThinkingBudgetToAnswerRoom :: "rat \<Rightarrow> rat \<Rightarrow> rat" where
  "clampThinkingBudgetToAnswerRoom budget cap = min budget (max 0 (cap - MIN_ANSWER_TOKENS))"

text \<open>The output limit and the thinking budget. Without a budget for the level the sum with
  \<open>undefined\<close> is NaN.\<close>

definition adjustMaxTokensForThinking ::
  "rat option \<Rightarrow> rat \<Rightarrow> string \<Rightarrow> (string \<times> rat) list \<Rightarrow> jsnum \<times> rat option" where
  "adjustMaxTokensForThinking baseMaxTokens modelMaxTokens level customBudgets =
     (case thinkingBudgetForLevel level customBudgets of
        None \<Rightarrow> ((case baseMaxTokens of None \<Rightarrow> Num modelMaxTokens | Some b \<Rightarrow> NaN), None)
      | Some budget \<Rightarrow>
          (let limit = (case baseMaxTokens of None \<Rightarrow> modelMaxTokens
                        | Some b \<Rightarrow> min (b + budget) modelMaxTokens) in
           if limit \<le> budget then (Num limit, Some (clampThinkingBudgetToAnswerRoom budget limit))
           else (Num limit, Some budget)))"

subsection \<open>Properties\<close>

text \<open>Message \<open>i\<close> reports the usage of everything before it: an assistant message that ended
  well and is no older than any earlier message.\<close>

definition reports_prefix :: "message list \<Rightarrow> nat \<Rightarrow> assistant \<Rightarrow> bool" where
  "reports_prefix msgs i a \<longleftrightarrow>
     i < length msgs \<and> msgs ! i = AssistantM a \<and> (\<forall>j < i. timestamp (msgs ! j) \<le> a_timestamp a) \<and>
     stopReason a \<noteq> ''aborted'' \<and> stopReason a \<noteq> ''error'' \<and> calculateContextTokens (a_usage a) > 0"

definition latest_of :: "message list \<Rightarrow> rat option" where
  "latest_of ms = (if ms = [] then None else Some (Max (timestamp ` set ms)))"

lemma latest_snoc:
  "latest_of (ms @ [m]) = Some (case latest_of ms of None \<Rightarrow> timestamp m | Some l \<Rightarrow> max l (timestamp m))"
proof (cases "ms = []")
  case False
  then have "Max (insert (timestamp m) (timestamp ` set ms)) = max (timestamp m) (Max (timestamp ` set ms))"
    by (intro Max_insert) auto
  with False show ?thesis by (simp add: latest_of_def max.commute)
qed (simp add: latest_of_def)

lemma latest_ge:
  "(case latest_of ms of None \<Rightarrow> True | Some l \<Rightarrow> x \<ge> l) \<longleftrightarrow> (\<forall>m \<in> set ms. timestamp m \<le> x)"
  by (cases "ms = []") (auto simp: latest_of_def)

lemma reports_prefix_snoc:
  "reports_prefix (ms @ [m]) i a \<longleftrightarrow>
     reports_prefix ms i a \<or> i = length ms \<and> m = AssistantM a \<and> counts_for_prefix (latest_of ms) a"
  unfolding counts_for_prefix_def latest_ge
  by (auto simp: reports_prefix_def nth_append less_Suc_eq all_set_conv_all_nth)

lemma usage_scan_snoc:
  "usage_scan (ms @ [m]) i l info =
     (let info1 = usage_scan ms i l info in
      case m of AssistantM a \<Rightarrow>
        (if counts_for_prefix (fold (\<lambda>m l. Some (case l of None \<Rightarrow> timestamp m | Some t \<Rightarrow> max t (timestamp m))) ms l) a
         then Some (a_usage a, i + length ms) else info1)
      | _ \<Rightarrow> info1)"
  by (induction ms arbitrary: i l info) (auto simp: Let_def split: message.split)

lemma latest_fold:
  "fold (\<lambda>m l. Some (case l of None \<Rightarrow> timestamp m | Some t \<Rightarrow> max t (timestamp m))) ms None = latest_of ms"
proof (induction ms rule: rev_induct)
  case (snoc m ms)
  then show ?case by (simp add: latest_snoc)
qed (simp add: latest_of_def)

text \<open>The estimate of a conversation starts from the usage reported by the last assistant
  message that covers its whole prefix (ended well, not older than an earlier message), if
  there is one.\<close>

theorem usage_info_last:
  "case getLastAssistantUsageInfo msgs of
     None \<Rightarrow> \<forall>i a. \<not> reports_prefix msgs i a
   | Some (u, i) \<Rightarrow> (\<exists>a. reports_prefix msgs i a \<and> u = a_usage a) \<and>
       \<not> (\<exists>j a. i < j \<and> reports_prefix msgs j a)"
proof (induction msgs rule: rev_induct)
  case Nil
  then show ?case by (simp add: getLastAssistantUsageInfo_def reports_prefix_def)
next
  case (snoc m ms)
  have step: "getLastAssistantUsageInfo (ms @ [m]) =
      (case m of AssistantM a \<Rightarrow>
         (if counts_for_prefix (latest_of ms) a then Some (a_usage a, length ms)
          else getLastAssistantUsageInfo ms)
       | _ \<Rightarrow> getLastAssistantUsageInfo ms)"
    by (cases m) (simp_all add: getLastAssistantUsageInfo_def usage_scan_snoc latest_fold Let_def)
  have lt: "reports_prefix ms j b \<Longrightarrow> j < length ms" for j b
    by (simp add: reports_prefix_def)
  show ?case
  proof (cases "\<exists>a. m = AssistantM a \<and> counts_for_prefix (latest_of ms) a")
    case True
    then obtain a where a: "m = AssistantM a" "counts_for_prefix (latest_of ms) a" by blast
    then have "getLastAssistantUsageInfo (ms @ [m]) = Some (a_usage a, length ms)"
      unfolding step by simp
    then show ?thesis
      using a by (auto simp: reports_prefix_snoc dest: lt)
  next
    case False
    then have "getLastAssistantUsageInfo (ms @ [m]) = getLastAssistantUsageInfo ms"
      by (auto simp: step split: message.split)
    then show ?thesis
      using snoc.IH False by (auto simp: reports_prefix_snoc split: option.splits)
  qed
qed

text \<open>The output limit sent to a provider never exceeds what was asked for, leaves at
  least one token, and, when the context window has room for more than the safety margin,
  the estimated context, the margin and the output fit in the window together.\<close>

theorem max_tokens_fit:
  assumes "0 < contextWindow m" "1 \<le> wanted"
  shows "clampMaxTokensToContext rt m ctx wanted \<le> wanted \<and> 1 \<le> clampMaxTokensToContext rt m ctx wanted \<and>
    (tokens (estimateContextTokens rt ctx) + 4096 + 1 \<le> contextWindow m \<longrightarrow>
       tokens (estimateContextTokens rt ctx) + 4096 + clampMaxTokensToContext rt m ctx wanted \<le> contextWindow m)"
  using assms by (auto simp: clampMaxTokensToContext_def budget_defs Let_def min_def max_def)

theorem max_tokens_fit_witness:
  "clampMaxTokensToContext example_runtime example_model \<lparr>systemPrompt = '''', ctx_messages = [], ctx_tools = None\<rparr> 5 = 1 \<and>
   clampMaxTokensToContext example_runtime example_model \<lparr>systemPrompt = '''', ctx_messages = [], ctx_tools = None\<rparr> 5 \<le> 5"
proof -
  have m: "0 < contextWindow example_model" "(1::rat) \<le> 5"
    by (simp_all add: example_model_def)
  then show ?thesis
    using max_tokens_fit [OF m, of example_runtime "\<lparr>systemPrompt = [], ctx_messages = [], ctx_tools = None\<rparr>"]
    by (simp add: clampMaxTokensToContext_def estimateContextTokens_def estimateMessages_def
        getLastAssistantUsageInfo_def estimateToolsTokens_def budget_defs example_model_def)
qed

text \<open>A thinking budget always leaves room for the answer: it is below the output limit,
  and the limit is at most the model's.\<close>

theorem thinking_leaves_room:
  assumes "adjustMaxTokensForThinking base modelMax level custom = (Num limit, Some budget)"
    and "0 < limit"
  shows "budget < limit \<and> limit \<le> modelMax"
  using assms
  by (auto simp: adjustMaxTokensForThinking_def clampThinkingBudgetToAnswerRoom_def budget_defs Let_def
      min_def max_def split: option.splits if_splits)

theorem thinking_leaves_room_witness:
  "adjustMaxTokensForThinking (Some 100) 5000 ''xhigh'' [] = (Num 5000, Some 3976) \<and> (3976::rat) < 5000"
proof -
  have *: "adjustMaxTokensForThinking (Some 100) 5000 ''xhigh'' [] = (Num 5000, Some 3976)"
    by (simp add: adjustMaxTokensForThinking_def thinkingBudgetForLevel_def clampReasoning_def
        DEFAULT_THINKING_BUDGETS_def clampThinkingBudgetToAnswerRoom_def budget_defs)
  then show ?thesis
    using thinking_leaves_room [OF *] by simp
qed

end
