(* ===== verification/Pi_Transform.thy ===== *)
theory Pi_Transform
  imports Pi_Messages
begin

text \<open>
  \<open>api/transform-messages.js\<close> of the bundled \<open>pi-ai\<close>: a conversation recorded with any model is
  rewritten for the model of the next call. First every message is transformed, with a map of
  renamed tool call ids threaded through; then tool calls left without a result get one.
  Message contents are never null in the model, so the first normalisation of the source is
  the identity.
\<close>

definition NON_VISION_USER_IMAGE_PLACEHOLDER :: string where
  "NON_VISION_USER_IMAGE_PLACEHOLDER = ''(image omitted: model does not support images)''"

definition NON_VISION_TOOL_IMAGE_PLACEHOLDER :: string where
  "NON_VISION_TOOL_IMAGE_PLACEHOLDER = ''(tool image omitted: model does not support images)''"

text \<open>The loop of \<open>replaceImagesWithPlaceholder\<close>; the flag is \<open>previousWasPlaceholder\<close>.\<close>

fun replace_images :: "string \<Rightarrow> bool \<Rightarrow> block list \<Rightarrow> block list" where
  "replace_images p prev [] = []"
| "replace_images p prev (b # bs) =
     (case b of
        ImageB d mime \<Rightarrow> (if prev then [] else [TextB p None]) @ replace_images p True bs
      | TextB t s \<Rightarrow> b # replace_images p (t = p) bs
      | _ \<Rightarrow> b # replace_images p False bs)"

definition replaceImagesWithPlaceholder :: "block list \<Rightarrow> string \<Rightarrow> block list" where
  "replaceImagesWithPlaceholder content placeholder = replace_images placeholder False content"

definition downgradeUnsupportedImages :: "message list \<Rightarrow> model \<Rightarrow> message list" where
  "downgradeUnsupportedImages messages m =
     (if ''image'' \<in> set (model_input m) then messages
      else map (\<lambda>msg. case msg of
          UserM (BlocksC bs) ts \<Rightarrow>
            UserM (BlocksC (replaceImagesWithPlaceholder bs NON_VISION_USER_IMAGE_PLACEHOLDER)) ts
        | ToolResultM r \<Rightarrow>
            ToolResultM (r\<lparr>r_content := replaceImagesWithPlaceholder (r_content r) NON_VISION_TOOL_IMAGE_PLACEHOLDER\<rparr>)
        | _ \<Rightarrow> msg) messages)"

type_synonym id_map = "(string \<times> string) list"
type_synonym normalizer = "string \<Rightarrow> model \<Rightarrow> assistant \<Rightarrow> string"

definition isSameModel :: "assistant \<Rightarrow> model \<Rightarrow> bool" where
  "isSameModel a m = (a_provider a = model_provider m \<and> a_api a = model_api m \<and> a_model a = model_id m)"

definition present :: "string option \<Rightarrow> bool" where
  "present s = (case s of None \<Rightarrow> False | Some t \<Rightarrow> t \<noteq> '''')"

definition transform_block ::
  "normalizer option \<Rightarrow> model \<Rightarrow> assistant \<Rightarrow> block \<Rightarrow> id_map \<Rightarrow> id_map \<times> block list" where
  "transform_block normId m a b ids =
     (let same = isSameModel a m in
      case b of
        ThinkingB t s red \<Rightarrow>
          (ids,
           if red then (if same then [b] else [])
           else if same \<and> present s then [b]
           else if t = '''' \<or> trim t = '''' then []
           else if same then [b]
           else [TextB t None])
      | TextB t s \<Rightarrow> (ids, if same then [b] else [TextB t None])
      | ToolCallB i n args sig \<Rightarrow>
          (let sig1 = (if \<not> same \<and> present sig then None else sig) in
           case normId of
             None \<Rightarrow> (ids, [ToolCallB i n args sig1])
           | Some f \<Rightarrow>
               if same then (ids, [ToolCallB i n args sig1])
               else
                 (let j = f i m a in
                  if j \<noteq> i then (AList.update i j ids, [ToolCallB j n args sig1])
                  else (ids, [ToolCallB i n args sig1])))
      | ImageB d mime \<Rightarrow> (ids, [b]))"

fun transform_blocks ::
  "normalizer option \<Rightarrow> model \<Rightarrow> assistant \<Rightarrow> block list \<Rightarrow> id_map \<Rightarrow> id_map \<times> block list" where
  "transform_blocks normId m a [] ids = (ids, [])"
| "transform_blocks normId m a (b # bs) ids =
     (let (ids1, xs) = transform_block normId m a b ids;
          (ids2, ys) = transform_blocks normId m a bs ids1
      in (ids2, xs @ ys))"

definition transform_message ::
  "normalizer option \<Rightarrow> model \<Rightarrow> message \<Rightarrow> id_map \<Rightarrow> id_map \<times> message" where
  "transform_message normId m msg ids =
     (case msg of
        UserM c ts \<Rightarrow> (ids, msg)
      | ToolResultM r \<Rightarrow>
          (ids,
           case map_of ids (toolCallId r) of
             Some j \<Rightarrow> if j \<noteq> '''' \<and> j \<noteq> toolCallId r then ToolResultM (r\<lparr>toolCallId := j\<rparr>) else msg
           | None \<Rightarrow> msg)
      | AssistantM a \<Rightarrow>
          (let (ids1, bs) = transform_blocks normId m a (a_content a) ids in
           (ids1, AssistantM (a\<lparr>a_content := bs\<rparr>))))"

fun transform_all ::
  "normalizer option \<Rightarrow> model \<Rightarrow> message list \<Rightarrow> id_map \<Rightarrow> message list" where
  "transform_all normId m [] ids = []"
| "transform_all normId m (msg # msgs) ids =
     (let (ids1, msg1) = transform_message normId m msg ids in msg1 # transform_all normId m msgs ids1)"

text \<open>The second pass: what has been emitted, the tool calls of the last assistant message and
  the ids of the results seen since.\<close>

record pairing =
  emitted :: "message list"
  pendingToolCalls :: "block list"
  existingToolResultIds :: "string list"

definition synthetic_result :: "rat \<Rightarrow> block \<Rightarrow> message" where
  "synthetic_result now tc = ToolResultM \<lparr>toolCallId = tc_id tc, toolName = tc_name tc,
     r_content = [TextB ''No result provided'' None], isError = True, addedToolNames = [],
     r_timestamp = now\<rparr>"

definition insertSyntheticToolResults :: "rat \<Rightarrow> pairing \<Rightarrow> pairing" where
  "insertSyntheticToolResults now st =
     (if pendingToolCalls st \<noteq> [] then
        \<lparr>emitted = emitted st @ map (synthetic_result now)
           (filter (\<lambda>tc. tc_id tc \<notin> set (existingToolResultIds st)) (pendingToolCalls st)),
         pendingToolCalls = [], existingToolResultIds = []\<rparr>
      else st)"

definition is_toolCall :: "block \<Rightarrow> bool" where
  "is_toolCall b = (case b of ToolCallB i n args sig \<Rightarrow> True | _ \<Rightarrow> False)"

definition pair_message :: "rat \<Rightarrow> message \<Rightarrow> pairing \<Rightarrow> pairing" where
  "pair_message now msg st =
     (case msg of
        AssistantM a \<Rightarrow>
          (let st1 = insertSyntheticToolResults now st in
           if stopReason a = ''error'' \<or> stopReason a = ''aborted'' then st1
           else
             (let toolCalls = filter is_toolCall (a_content a);
                  st2 = (if toolCalls \<noteq> [] then st1\<lparr>pendingToolCalls := toolCalls, existingToolResultIds := []\<rparr>
                         else st1)
              in st2\<lparr>emitted := emitted st2 @ [msg]\<rparr>))
      | ToolResultM r \<Rightarrow>
          st\<lparr>existingToolResultIds := existingToolResultIds st @ [toolCallId r], emitted := emitted st @ [msg]\<rparr>
      | UserM c ts \<Rightarrow>
          (let st1 = insertSyntheticToolResults now st in st1\<lparr>emitted := emitted st1 @ [msg]\<rparr>))"

definition transformMessages ::
  "rat \<Rightarrow> message list \<Rightarrow> model \<Rightarrow> normalizer option \<Rightarrow> message list" where
  "transformMessages now messages m normId =
     (let transformed = transform_all normId m (downgradeUnsupportedImages messages m) [];
          st = fold (pair_message now) transformed
            \<lparr>emitted = [], pendingToolCalls = [], existingToolResultIds = []\<rparr>
      in emitted (insertSyntheticToolResults now st))"

subsection \<open>Every tool call is answered\<close>

definition result_ids :: "message list \<Rightarrow> string set" where
  "result_ids ms = {toolCallId r | r. ToolResultM r \<in> set ms}"

definition is_result :: "message \<Rightarrow> bool" where
  "is_result msg = (case msg of ToolResultM r \<Rightarrow> True | _ \<Rightarrow> False)"

text \<open>Each tool call of an assistant message has a result among the tool results that follow
  the message immediately.\<close>

fun all_answered :: "message list \<Rightarrow> bool" where
  "all_answered [] = True"
| "all_answered (msg # msgs) =
     ((case msg of
         AssistantM a \<Rightarrow>
           \<forall>tc \<in> set (a_content a). is_toolCall tc \<longrightarrow> tc_id tc \<in> result_ids (takeWhile is_result msgs)
       | _ \<Rightarrow> True) \<and> all_answered msgs)"

lemma result_ids_simps [simp]:
  "result_ids [] = {}"
  "result_ids (ToolResultM r # ms) = insert (toolCallId r) (result_ids ms)"
  "result_ids (ms @ ns) = result_ids ms \<union> result_ids ns"
  by (auto simp: result_ids_def)

lemma takeWhile_append_mono:
  "result_ids (takeWhile P ms) \<subseteq> result_ids (takeWhile P (ms @ ns))"
  by (induction ms) (auto simp: result_ids_def)

lemma all_answered_append:
  assumes "all_answered ms" "all_answered ns"
  shows "all_answered (ms @ ns)"
  using assms
proof (induction ms)
  case (Cons msg ms)
  then show ?case
    using takeWhile_append_mono [of is_result ms ns] by (auto split: message.splits)
qed simp

lemma all_answered_results: "list_all is_result ms \<Longrightarrow> all_answered ms"
  by (induction ms) (auto simp: is_result_def split: message.splits)

lemma takeWhile_results: "list_all is_result ms \<Longrightarrow> takeWhile is_result ms = ms"
  by (simp add: list_all_iff)

definition pairing_inv :: "pairing \<Rightarrow> bool" where
  "pairing_inv st \<longleftrightarrow>
     (if pendingToolCalls st = [] then all_answered (emitted st)
      else \<exists>pre a rs. emitted st = pre @ AssistantM a # rs \<and> all_answered pre \<and> list_all is_result rs \<and>
        pendingToolCalls st = filter is_toolCall (a_content a) \<and>
        set (existingToolResultIds st) = result_ids rs)"

lemma pairing_inv_pendingI:
  assumes "emitted st = pre @ AssistantM a # rs" "all_answered pre" "list_all is_result rs"
    "pendingToolCalls st = filter is_toolCall (a_content a)" "pendingToolCalls st \<noteq> []"
    "set (existingToolResultIds st) = result_ids rs"
  shows "pairing_inv st"
  unfolding pairing_inv_def using assms by (simp only: if_False) blast

lemma synthetic_results:
  "list_all is_result (map (synthetic_result now) tcs)"
  "result_ids (map (synthetic_result now) tcs) = tc_id ` set tcs"
  by (induction tcs) (simp_all add: is_result_def synthetic_result_def)

lemma insert_answers:
  assumes "pairing_inv st"
  shows "pairing_inv (insertSyntheticToolResults now st)"
    and "all_answered (emitted (insertSyntheticToolResults now st))"
    and "pendingToolCalls (insertSyntheticToolResults now st) = []"
proof -
  show pend: "pendingToolCalls (insertSyntheticToolResults now st) = []"
    by (simp add: insertSyntheticToolResults_def)
  show ans: "all_answered (emitted (insertSyntheticToolResults now st))"
  proof (cases "pendingToolCalls st = []")
    case True
    then show ?thesis using assms by (simp add: insertSyntheticToolResults_def pairing_inv_def)
  next
    case False
    then obtain pre a rs where st: "emitted st = pre @ AssistantM a # rs" "all_answered pre"
        "list_all is_result rs" "pendingToolCalls st = filter is_toolCall (a_content a)"
        "set (existingToolResultIds st) = result_ids rs"
      using assms by (auto simp: pairing_inv_def)
    let ?new = "map (synthetic_result now)
      (filter (\<lambda>tc. tc_id tc \<notin> set (existingToolResultIds st)) (pendingToolCalls st))"
    have all: "list_all is_result (rs @ ?new)"
      using st(3) synthetic_results(1) by (simp only: list_all_append simp_thms)
    have "tc_id tc \<in> result_ids (rs @ ?new)" if "tc \<in> set (a_content a)" "is_toolCall tc" for tc
      using that st(4,5) by (auto simp: synthetic_results(2))
    then have "all_answered (AssistantM a # rs @ ?new)"
      using all by (simp add: takeWhile_results all_answered_results)
    with all_answered_append [OF st(2)] show ?thesis
      using False st(1) by (simp add: insertSyntheticToolResults_def)
  qed
  show "pairing_inv (insertSyntheticToolResults now st)"
    using pend ans by (simp add: pairing_inv_def)
qed

lemma pair_message_inv: "pairing_inv st \<Longrightarrow> pairing_inv (pair_message now msg st)"
proof (cases msg)
  case (UserM c ts)
  assume "pairing_inv st"
  note ins = insert_answers [OF this, of now]
  show ?thesis
    using ins(2,3) all_answered_append [of _ "[msg]"] UserM by (simp add: pair_message_def pairing_inv_def Let_def)
next
  case (ToolResultM r)
  assume inv: "pairing_inv st"
  show ?thesis
  proof (cases "pendingToolCalls st = []")
    case True
    then show ?thesis
      using inv ToolResultM all_answered_append [of "emitted st" "[msg]"]
      by (simp add: pair_message_def pairing_inv_def)
  next
    case False
    then obtain pre a rs where st: "emitted st = pre @ AssistantM a # rs" "all_answered pre"
        "list_all is_result rs" "pendingToolCalls st = filter is_toolCall (a_content a)"
        "set (existingToolResultIds st) = result_ids rs"
      using inv by (auto simp: pairing_inv_def)
    show ?thesis
      by (rule pairing_inv_pendingI [of _ pre a "rs @ [msg]"])
        (use False st ToolResultM in \<open>simp_all add: pair_message_def is_result_def\<close>)
  qed
next
  case (AssistantM a)
  assume "pairing_inv st"
  note ins = insert_answers [OF this, of now]
  show ?thesis
  proof (cases "filter is_toolCall (a_content a) = []")
    case True
    then have "all_answered [msg]"
      using AssistantM by (auto simp: filter_empty_conv)
    with True show ?thesis
      using ins AssistantM all_answered_append [of _ "[msg]"]
      by (simp add: pair_message_def pairing_inv_def Let_def)
  next
    case False
    show ?thesis
    proof (cases "stopReason a = ''error'' \<or> stopReason a = ''aborted''")
      case True
      then show ?thesis using ins(1) AssistantM by (simp add: pair_message_def)
    next
      case False
      show ?thesis
        by (rule pairing_inv_pendingI [of _ "emitted (insertSyntheticToolResults now st)" a "[]"])
          (use False ins(2) AssistantM \<open>filter is_toolCall (a_content a) \<noteq> []\<close> in
            \<open>simp_all add: pair_message_def Let_def\<close>)
    qed
  qed
qed

lemma fold_pair_inv: "pairing_inv st \<Longrightarrow> pairing_inv (fold (pair_message now) msgs st)"
  by (induction msgs arbitrary: st) (simp_all add: pair_message_inv)


subsection \<open>Nothing the model cannot take\<close>

definition is_image :: "block \<Rightarrow> bool" where
  "is_image b = (case b of ImageB d mime \<Rightarrow> True | _ \<Rightarrow> False)"

definition is_thinking :: "block \<Rightarrow> bool" where
  "is_thinking b = (case b of ThinkingB t s red \<Rightarrow> True | _ \<Rightarrow> False)"

definition suits :: "model \<Rightarrow> message \<Rightarrow> bool" where
  "suits m msg \<longleftrightarrow>
     (case msg of
        UserM (BlocksC bs) ts \<Rightarrow> \<not> list_ex is_image bs
      | UserM (StringC s) ts \<Rightarrow> True
      | ToolResultM r \<Rightarrow> \<not> list_ex is_image (r_content r)
      | AssistantM a \<Rightarrow> isSameModel a m \<or> \<not> list_ex is_thinking (a_content a))"

lemma replace_images_no_image: "\<not> list_ex is_image (replace_images p prev bs)"
  by (induction bs arbitrary: prev) (simp_all add: is_image_def split: block.split)

lemma transform_block_thinking:
  "\<not> isSameModel a m \<Longrightarrow> \<not> list_ex is_thinking (snd (transform_block normId m a b ids))"
  by (cases b; cases normId) (simp_all add: transform_block_def is_thinking_def Let_def)

lemma transform_blocks_thinking:
  "\<not> isSameModel a m \<Longrightarrow> \<not> list_ex is_thinking (snd (transform_blocks normId m a bs ids))"
  by (induction bs arbitrary: ids) (simp_all add: transform_block_thinking case_prod_beta Let_def)

lemma suits_transform:
  assumes "''image'' \<notin> set (model_input m)" "x \<in> set (downgradeUnsupportedImages messages m)"
  shows "suits m (snd (transform_message normId m x ids))"
proof (cases x)
  case (UserM c ts)
  then show ?thesis
    using assms replace_images_no_image
    by (auto simp: transform_message_def suits_def downgradeUnsupportedImages_def
        replaceImagesWithPlaceholder_def split: message.splits content.splits)
next
  case (ToolResultM r)
  then have "\<not> list_ex is_image (r_content r)"
    using assms replace_images_no_image
    by (auto simp: downgradeUnsupportedImages_def replaceImagesWithPlaceholder_def
        split: message.splits content.splits)
  then show ?thesis
    using ToolResultM by (simp add: transform_message_def suits_def split: option.split)
next
  case (AssistantM a)
  have "isSameModel (a\<lparr>a_content := bs\<rparr>) m = isSameModel a m" for bs
    by (simp add: isSameModel_def)
  then show ?thesis
    using AssistantM transform_blocks_thinking [of a m normId "a_content a" ids]
    by (auto simp: transform_message_def suits_def Let_def case_prod_beta)
qed

lemma transform_all_mem:
  "msg \<in> set (transform_all normId m ms ids) \<Longrightarrow> \<exists>x \<in> set ms. \<exists>is. msg = snd (transform_message normId m x is)"
  by (induction ms arbitrary: ids) (auto simp: case_prod_beta Let_def)

lemma insert_emitted:
  assumes "\<forall>msg \<in> set (emitted st). suits m msg"
  shows "\<forall>msg \<in> set (emitted (insertSyntheticToolResults now st)). suits m msg"
  using assms
proof -
  have "suits m (synthetic_result now tc)" for tc
    by (simp add: synthetic_result_def suits_def is_image_def)
  with assms show ?thesis
    by (auto simp: insertSyntheticToolResults_def)
qed

lemma pair_emitted:
  assumes "suits m msg" "\<forall>x \<in> set (emitted st). suits m x"
  shows "\<forall>x \<in> set (emitted (pair_message now msg st)). suits m x"
  using insert_emitted [OF assms(2), of now] assms
  by (cases msg) (auto simp: pair_message_def Let_def)

lemma fold_pair_emitted:
  "\<forall>x \<in> set msgs. suits m x \<Longrightarrow> \<forall>x \<in> set (emitted st). suits m x \<Longrightarrow>
   \<forall>x \<in> set (emitted (fold (pair_message now) msgs st)). suits m x"
proof (induction msgs arbitrary: st)
  case (Cons msg msgs)
  then show ?case using pair_emitted [of m msg st now] by (metis fold_simps(2) list.set_intros)
qed simp

text \<open>A model without vision is sent no image in a user message or a tool result, and no
  model is sent the thinking blocks of another model.\<close>

theorem foreign_content_removed:
  assumes "''image'' \<notin> set (model_input m)"
  shows "list_all (suits m) (transformMessages now messages m normId)"
proof -
  let ?ms = "transform_all normId m (downgradeUnsupportedImages messages m) []"
  have "suits m msg" if "msg \<in> set ?ms" for msg
    using transform_all_mem [OF that] suits_transform [OF assms] by blast
  then have "\<forall>msg \<in> set (transformMessages now messages m normId). suits m msg"
    unfolding transformMessages_def Let_def by (intro insert_emitted fold_pair_emitted) simp_all
  then show ?thesis by (simp add: list_all_iff)
qed

theorem foreign_content_removed_witness:
  "transformMessages 0 [UserM (BlocksC [ImageB ''d'' ''image/png'', ImageB ''e'' ''image/png'']) 0] example_model None
     = [UserM (BlocksC [TextB NON_VISION_USER_IMAGE_PLACEHOLDER None]) 0] \<and>
   list_all (suits example_model)
     (transformMessages 0 [UserM (BlocksC [ImageB ''d'' ''image/png'']) 0] example_model None)"
proof -
  have "''image'' \<notin> set (model_input example_model)"
    by (simp add: example_model_def)
  from foreign_content_removed [OF this, of 0 "[UserM (BlocksC [ImageB ''d'' ''image/png'']) 0]" None]
  show ?thesis
    by (simp add: transformMessages_def downgradeUnsupportedImages_def example_model_def
        replaceImagesWithPlaceholder_def transform_message_def pair_message_def
        insertSyntheticToolResults_def)
qed

end
