(* ===== verification/Promise_Chain.thy ===== *)
theory Promise_Chain
  imports Js_Prelude
begin

text \<open>
  The idiom by which the sources serialise asynchronous work: a promise kept per key (or one
  for all), to which every new task is chained, removed when the last task has settled. The
  model keeps, per key, the tasks not yet settled in the order they were chained; the first
  one is running. The interface \<open>fifo_chain\<close> states what its clients rely on.
\<close>

type_synonym ('k, 'j) chains = "('k \<times> 'j list) list"

definition chain_jobs :: "('k, 'j) chains \<Rightarrow> 'k \<Rightarrow> 'j list" where
  "chain_jobs cs k = (case map_of cs k of None \<Rightarrow> [] | Some js \<Rightarrow> js)"

text \<open>Chain a task: \<open>chains.set(key, previous.then(task))\<close>.\<close>

definition chain_enqueue :: "'k \<Rightarrow> 'j \<Rightarrow> ('k, 'j) chains \<Rightarrow> ('k, 'j) chains" where
  "chain_enqueue k j cs = AList.update k (chain_jobs cs k @ [j]) cs"

text \<open>The running task settles; the entry is deleted when the settled task is the tail.\<close>

definition chain_settle :: "'k \<Rightarrow> ('k, 'j) chains \<Rightarrow> ('k, 'j) chains" where
  "chain_settle k cs =
     (case chain_jobs cs k of
        [] \<Rightarrow> cs
      | [j] \<Rightarrow> AList.delete k cs
      | j # js \<Rightarrow> AList.update k js cs)"

text \<open>What was chained is what has settled, then what has not.\<close>

definition in_order :: "('s \<Rightarrow> 'k \<Rightarrow> 'j list) \<Rightarrow> 's \<Rightarrow> 'k \<Rightarrow> 'j list \<Rightarrow> 'j list \<Rightarrow> bool" where
  "in_order jobs s k settled_jobs chained \<longleftrightarrow> chained = settled_jobs @ jobs s k"

locale fifo_chain =
  fixes jobs :: "'s \<Rightarrow> 'k \<Rightarrow> 'j list"
    and enqueue :: "'k \<Rightarrow> 'j \<Rightarrow> 's \<Rightarrow> 's"
    and settle :: "'k \<Rightarrow> 's \<Rightarrow> 's"
  assumes jobs_enqueue: "jobs (enqueue k j s) k' = (if k' = k then jobs s k @ [j] else jobs s k')"
    and jobs_settle: "jobs (settle k s) k' = (if k' = k then tl (jobs s k) else jobs s k')"
begin

lemma order_enqueue:
  "in_order jobs s k d c \<Longrightarrow> in_order jobs (enqueue k j s) k d (c @ [j])"
  by (simp add: in_order_def jobs_enqueue)

lemma order_settle:
  "in_order jobs s k d c \<Longrightarrow> jobs s k = j # js \<Longrightarrow> in_order jobs (settle k s) k (d @ [j]) c"
  by (simp add: in_order_def jobs_settle)

lemma order_other:
  assumes "in_order jobs s k d c" "k' \<noteq> k"
  shows "in_order jobs (enqueue k' j s) k d c" "in_order jobs (settle k' s) k d c"
  using assms by (simp_all add: in_order_def jobs_enqueue jobs_settle)

text \<open>A task waits behind those chained before it: the running task changes only when it
  settles.\<close>

lemma running_stable:
  "jobs s k = j # js \<Longrightarrow> jobs (enqueue k' i s) k = j # (if k' = k then js @ [i] else js)"
  by (auto simp: jobs_enqueue)

lemma settle_empty: "jobs s k = [j] \<Longrightarrow> jobs (settle k s) k = []"
  by (simp add: jobs_settle)

end

lemma chain_jobs_update [simp]:
  "chain_jobs (AList.update k js cs) k' = (if k' = k then js else chain_jobs cs k')"
  by (auto simp: chain_jobs_def update_conv')

lemma chain_jobs_delete [simp]:
  "chain_jobs (AList.delete k cs) k' = (if k' = k then [] else chain_jobs cs k')"
  by (auto simp: chain_jobs_def delete_conv')

interpretation pchain: fifo_chain "chain_jobs :: ('k, 'j) chains \<Rightarrow> 'k \<Rightarrow> 'j list" chain_enqueue chain_settle
  by unfold_locales (auto simp: chain_enqueue_def chain_settle_def split: list.split)

end
