(* ===== verification/Pi_Models.thy ===== *)
theory Pi_Models
  imports Pi_Messages Promise_Chain
begin

text \<open>
  The model catalogue of the bundled \<open>pi-ai\<close> (\<open>models.js\<close> in \<open>drivers/tools/pibridge/bridge.mjs\<close>):
  headers, the models of a provider, the registry \<open>ModelsImpl\<close> with its refresh generations,
  and the publication of refreshed models, chained per provider. The providers of the bundle
  are made by \<open>createProvider\<close>, whose \<open>getModels\<close> does not throw.
\<close>

subsection \<open>Headers\<close>

definition lower :: "char \<Rightarrow> char" where
  "lower c = (if 65 \<le> code c \<and> code c \<le> 90 then char_of (code c + 32) else c)"

abbreviation lowercase :: "string \<Rightarrow> string" where
  "lowercase s \<equiv> map lower s"

type_synonym headers = "(string \<times> string) list"

definition put_header :: "string \<times> string \<Rightarrow> headers \<Rightarrow> headers" where
  "put_header nv merged =
     filter (\<lambda>e. lowercase (fst e) \<noteq> lowercase (fst nv)) merged @ [nv]"

definition mergeHeaders :: "headers option \<Rightarrow> headers option \<Rightarrow> headers option" where
  "mergeHeaders base over =
     (if base = None \<and> over = None then None
      else Some (fold put_header (case over of None \<Rightarrow> [] | Some ov \<Rightarrow> ov)
                   (case base of None \<Rightarrow> [] | Some b \<Rightarrow> b)))"

subsection \<open>Providers and the registry\<close>

record provider =
  prov_id :: string
  baselineModels :: "model list"
  dynamicModels :: "model list"

fun put_model :: "model \<Rightarrow> model list \<Rightarrow> model list" where
  "put_model m [] = [m]"
| "put_model m (x # xs) = (if model_id x = model_id m then m # xs else x # put_model m xs)"

definition currentModels :: "provider \<Rightarrow> model list" where
  "currentModels p = fold put_model (dynamicModels p) (baselineModels p)"

record registry =
  providers :: "(string \<times> provider) list"
  refreshGenerations :: "(string \<times> nat) list"
  refreshControllers :: "(string \<times> nat) list"
  abortedControllers :: "nat set"
  nextController :: nat

definition registry_init :: registry where
  "registry_init = \<lparr>providers = [], refreshGenerations = [], refreshControllers = [],
     abortedControllers = {}, nextController = 0\<rparr>"

definition generation_of :: "registry \<Rightarrow> string \<Rightarrow> nat" where
  "generation_of r p = (case map_of (refreshGenerations r) p of None \<Rightarrow> 0 | Some g \<Rightarrow> g)"

definition supersedeProviderRefresh :: "string \<Rightarrow> registry \<Rightarrow> registry" where
  "supersedeProviderRefresh p r =
     (let r1 = r\<lparr>refreshGenerations := AList.update p (generation_of r p + 1) (refreshGenerations r)\<rparr> in
      case map_of (refreshControllers r1) p of
        Some c \<Rightarrow> r1\<lparr>refreshControllers := AList.delete p (refreshControllers r1),
                    abortedControllers := insert c (abortedControllers r1)\<rparr>
      | None \<Rightarrow> r1)"

definition setProvider :: "provider \<Rightarrow> registry \<Rightarrow> registry" where
  "setProvider p r =
     (let r1 = supersedeProviderRefresh (prov_id p) r in
      r1\<lparr>providers := AList.update (prov_id p) p (providers r1)\<rparr>)"

definition deleteProvider :: "string \<Rightarrow> registry \<Rightarrow> registry" where
  "deleteProvider i r =
     (let r1 = supersedeProviderRefresh i r in r1\<lparr>providers := AList.delete i (providers r1)\<rparr>)"

definition clearProviders :: "registry \<Rightarrow> registry" where
  "clearProviders r =
     (let ids = remdups (map fst (providers r) @ map fst (refreshControllers r));
          r1 = fold supersedeProviderRefresh ids r in r1\<lparr>providers := []\<rparr>)"

definition getProvider :: "registry \<Rightarrow> string \<Rightarrow> provider option" where
  "getProvider r i = map_of (providers r) i"

definition getModels :: "registry \<Rightarrow> string option \<Rightarrow> model list" where
  "getModels r p =
     (case p of
        Some i \<Rightarrow> (case map_of (providers r) i of None \<Rightarrow> [] | Some e \<Rightarrow> currentModels e)
      | None \<Rightarrow> concat (map (\<lambda>e. currentModels (snd e)) (providers r)))"

definition getModel :: "registry \<Rightarrow> string \<Rightarrow> string \<Rightarrow> model option" where
  "getModel r p i = find (\<lambda>m. model_id m = i) (getModels r (Some p))"

definition beginProviderRefresh :: "string \<Rightarrow> registry \<Rightarrow> nat \<times> nat \<times> registry" where
  "beginProviderRefresh p r =
     (let r1 = supersedeProviderRefresh p r; c = nextController r1 in
      (generation_of r1 p, c,
       r1\<lparr>refreshControllers := AList.update p c (refreshControllers r1), nextController := Suc c\<rparr>))"

text \<open>The end of a refresh removes its controller, unless a newer refresh has replaced it.\<close>

definition endProviderRefresh :: "string \<Rightarrow> nat \<Rightarrow> registry \<Rightarrow> registry" where
  "endProviderRefresh p c r =
     (if map_of (refreshControllers r) p = Some c
      then r\<lparr>refreshControllers := AList.delete p (refreshControllers r)\<rparr> else r)"

subsection \<open>Publication of refreshed models\<close>

datatype persist = PersistSkip | PersistDelete | PersistWrite "model list" rat

record publication =
  pub_generation :: nat
  pub_controller :: nat
  pub_persist :: persist
  pub_update :: "model list option"

datatype store_op = StoreDelete string | StoreWrite string "model list" rat

datatype pub_act = StoreCall store_op | Published string publication | Dropped string publication | PublishFailed string publication

record catalogue =
  reg :: registry
  publicationChains :: "(string, publication) chains"

definition is_current :: "catalogue \<Rightarrow> string \<Rightarrow> publication \<Rightarrow> bool" where
  "is_current c p pub =
     (pub_controller pub \<notin> abortedControllers (reg c) \<and>
      map_of (refreshGenerations (reg c)) p = Some (pub_generation pub))"

text \<open>\<open>publication.update\<close> of \<open>createProvider\<close>: the dynamic models of the provider.\<close>

definition apply_update :: "string \<Rightarrow> publication \<Rightarrow> catalogue \<Rightarrow> catalogue" where
  "apply_update p pub c =
     (case (pub_update pub, map_of (providers (reg c)) p) of
        (Some ms, Some e) \<Rightarrow>
          c\<lparr>reg := (reg c)\<lparr>providers := AList.update p (e\<lparr>dynamicModels := ms\<rparr>) (providers (reg c))\<rparr>\<rparr>
      | _ \<Rightarrow> c)"

definition finish_publication :: "string \<Rightarrow> publication \<Rightarrow> catalogue \<Rightarrow> catalogue \<times> pub_act" where
  "finish_publication p pub c =
     (if is_current c p pub then (apply_update p pub c, Published p pub) else (c, Dropped p pub))"

definition settle_publication :: "string \<Rightarrow> catalogue \<Rightarrow> catalogue" where
  "settle_publication p c = c\<lparr>publicationChains := chain_settle p (publicationChains c)\<rparr>"

text \<open>Start the publications at the head of the chain of \<open>p\<close>: an outdated one is dropped, one
  with nothing to persist is published at once, the others call the models store.\<close>

fun start_publications :: "nat \<Rightarrow> string \<Rightarrow> catalogue \<Rightarrow> catalogue \<times> pub_act list" where
  "start_publications 0 p c = (c, [])"
| "start_publications (Suc n) p c =
     (case chain_jobs (publicationChains c) p of
        [] \<Rightarrow> (c, [])
      | pub # pubs \<Rightarrow>
          (if \<not> is_current c p pub then
             (let (c1, acts) = start_publications n p (settle_publication p c) in (c1, Dropped p pub # acts))
           else
             (case pub_persist pub of
                PersistDelete \<Rightarrow> (c, [StoreCall (StoreDelete p)])
              | PersistWrite ms t \<Rightarrow> (c, [StoreCall (StoreWrite p ms t)])
              | PersistSkip \<Rightarrow>
                  (let (c0, a) = finish_publication p pub c;
                       (c1, acts) = start_publications n p (settle_publication p c0)
                   in (c1, a # acts)))))"

definition publishProviderModels :: "string \<Rightarrow> publication \<Rightarrow> catalogue \<Rightarrow> catalogue \<times> pub_act list" where
  "publishProviderModels p pub c =
     (let idle = chain_jobs (publicationChains c) p = [];
          c1 = c\<lparr>publicationChains := chain_enqueue p pub (publicationChains c)\<rparr> in
      if idle then start_publications 1 p c1 else (c1, []))"

text \<open>The store call of the running publication settles.\<close>

definition store_settled :: "string \<Rightarrow> bool \<Rightarrow> catalogue \<Rightarrow> catalogue \<times> pub_act list" where
  "store_settled p ok c =
     (case chain_jobs (publicationChains c) p of
        [] \<Rightarrow> (c, [])
      | pub # pubs \<Rightarrow>
          (let (c0, a) = (if ok then finish_publication p pub c else (c, PublishFailed p pub));
               (c1, acts) = start_publications (length pubs) p (settle_publication p c0)
           in (c1, a # acts)))"

datatype catalogue_event =
    SetProvider provider
  | DeleteProvider string
  | ClearProviders
  | BeginRefresh string
  | EndRefresh string nat
  | Publish string publication
  | StoreSettled string bool

definition catalogue_step :: "catalogue_event \<Rightarrow> catalogue \<Rightarrow> catalogue \<times> pub_act list" where
  "catalogue_step e c =
     (case e of
        SetProvider p \<Rightarrow> (c\<lparr>reg := setProvider p (reg c)\<rparr>, [])
      | DeleteProvider i \<Rightarrow> (c\<lparr>reg := deleteProvider i (reg c)\<rparr>, [])
      | ClearProviders \<Rightarrow> (c\<lparr>reg := clearProviders (reg c)\<rparr>, [])
      | BeginRefresh i \<Rightarrow> (c\<lparr>reg := snd (snd (beginProviderRefresh i (reg c)))\<rparr>, [])
      | EndRefresh i k \<Rightarrow> (c\<lparr>reg := endProviderRefresh i k (reg c)\<rparr>, [])
      | Publish i pub \<Rightarrow> publishProviderModels i pub c
      | StoreSettled i ok \<Rightarrow> store_settled i ok c)"

fun catalogue_run :: "catalogue_event list \<Rightarrow> catalogue \<Rightarrow> catalogue \<times> pub_act list" where
  "catalogue_run [] c = (c, [])"
| "catalogue_run (e # es) c =
     (let (c1, xs) = catalogue_step e c; (c2, ys) = catalogue_run es c1 in (c2, xs @ ys))"

subsection \<open>Headers: one per name, the override wins\<close>

definition header_names :: "headers \<Rightarrow> string list" where
  "header_names h = map (\<lambda>e. lowercase (fst e)) h"

definition header_value :: "headers \<Rightarrow> string \<Rightarrow> string option" where
  "header_value h n = map_of (map (\<lambda>e. (lowercase (fst e), snd e)) h) (lowercase n)"

lemma header_value_append:
  "header_value (h @ k) n = (case header_value h n of Some v \<Rightarrow> Some v | None \<Rightarrow> header_value k n)"
  by (simp add: header_value_def map_add_def split: option.split)

lemma header_value_filter:
  "header_value (filter (\<lambda>e. lowercase (fst e) \<noteq> l) h) n = (if lowercase n = l then None else header_value h n)"
  by (induction h) (auto simp: header_value_def)

lemma put_header_value:
  "header_value (put_header nv h) n = (if lowercase n = lowercase (fst nv) then Some (snd nv) else header_value h n)"
  unfolding put_header_def header_value_append header_value_filter
  by (simp add: header_value_def split: option.split)

lemma put_header_distinct: "distinct (header_names h) \<Longrightarrow> distinct (header_names (put_header nv h))"
  by (induction h) (auto simp: header_names_def put_header_def)

lemma fold_put_header_value:
  assumes "distinct (header_names over)"
  shows "header_value (fold put_header over h) n =
    (case header_value over n of Some v \<Rightarrow> Some v | None \<Rightarrow> header_value h n)"
  using assms
proof (induction over arbitrary: h)
  case (Cons nv over)
  have "header_value (nv # over) n = (if lowercase n = lowercase (fst nv) then Some (snd nv) else header_value over n)"
    by (auto simp: header_value_def)
  moreover have "lowercase n = lowercase (fst nv) \<Longrightarrow> header_value over n = None"
    using Cons.prems by (force simp: header_value_def header_names_def map_of_eq_None_iff)
  moreover have "distinct (header_names over)"
    using Cons.prems by (simp add: header_names_def)
  ultimately show ?case
    using Cons.IH [of "put_header nv h"] by (auto simp: put_header_value split: option.split)
qed (simp add: header_value_def)

lemma fold_put_header_distinct:
  "distinct (header_names h) \<Longrightarrow> distinct (header_names (fold put_header over h))"
  by (induction over arbitrary: h) (simp_all add: put_header_distinct)

text \<open>Merging header sets ignores the case of names: the result has one header per name,
  the override's value where the override has the name in any spelling, the base's elsewhere.\<close>

theorem headers_override:
  assumes "distinct (header_names base)" "distinct (header_names over)"
    and "mergeHeaders (Some base) (Some over) = Some h"
  shows "distinct (header_names h) \<and>
    (\<forall>n. header_value h n = (case header_value over n of Some v \<Rightarrow> Some v | None \<Rightarrow> header_value base n))"
proof -
  have "h = fold put_header over base"
    using assms(3) by (simp add: mergeHeaders_def)
  then show ?thesis
    using fold_put_header_distinct [OF assms(1)] fold_put_header_value [OF assms(2)] by blast
qed

theorem headers_override_witness:
  "mergeHeaders (Some [(''Accept'', ''a''), (''X-Key'', ''1'')]) (Some [(''x-key'', ''2'')]) =
     Some [(''Accept'', ''a''), (''x-key'', ''2'')] \<and>
   header_value [(''Accept'', ''a''), (''x-key'', ''2'')] ''X-KEY'' = Some ''2''"
proof
  show *: "mergeHeaders (Some [(''Accept'', ''a''), (''X-Key'', ''1'')]) (Some [(''x-key'', ''2'')]) =
     Some [(''Accept'', ''a''), (''x-key'', ''2'')]"
    by code_simp
  have "distinct (header_names [(''Accept'', ''a''), (''X-Key'', ''1'')])" "distinct (header_names [(''x-key'', ''2'')])"
    by code_simp+
  from headers_override [OF this *] have "header_value [(''Accept'', ''a''), (''x-key'', ''2'')] ''X-KEY'' =
      (case header_value [(''x-key'', ''2'')] ''X-KEY'' of Some v \<Rightarrow> Some v
       | None \<Rightarrow> header_value [(''Accept'', ''a''), (''X-Key'', ''1'')] ''X-KEY'')"
    by blast
  also have "\<dots> = Some ''2''" by code_simp
  finally show "header_value [(''Accept'', ''a''), (''x-key'', ''2'')] ''X-KEY'' = Some ''2''" .
qed

subsection \<open>The models of a provider\<close>

lemma find_put_model:
  "find (\<lambda>x. model_id x = i) (put_model m xs) =
     (if model_id m = i then Some m else find (\<lambda>x. model_id x = i) xs)"
  by (induction xs) auto

text \<open>A refreshed model replaces the baseline entry with its id; the last refresh wins.\<close>

lemma find_currentModels:
  "find (\<lambda>x. model_id x = i) (currentModels p) =
     (case find (\<lambda>x. model_id x = i) (rev (dynamicModels p)) of
        Some m \<Rightarrow> Some m | None \<Rightarrow> find (\<lambda>x. model_id x = i) (baselineModels p))"
proof -
  have "find (\<lambda>x. model_id x = i) (fold put_model ds bs) =
     (case find (\<lambda>x. model_id x = i) (rev ds) of
        Some m \<Rightarrow> Some m | None \<Rightarrow> find (\<lambda>x. model_id x = i) bs)" for ds bs
    by (induction ds rule: rev_induct) (simp_all add: find_put_model)
  then show ?thesis by (simp add: currentModels_def)
qed

subsection \<open>A superseded refresh publishes nothing\<close>

definition gen_at_least :: "catalogue \<Rightarrow> string \<Rightarrow> nat \<Rightarrow> bool" where
  "gen_at_least c p g \<longleftrightarrow> g \<le> generation_of (reg c) p"

lemma supersede_generation:
  "generation_of (supersedeProviderRefresh q r) p = (if q = p then generation_of r p + 1 else generation_of r p)"
  by (simp add: supersedeProviderRefresh_def generation_of_def update_conv' Let_def split: option.split)

lemma end_refresh_generation [simp]: "generation_of (endProviderRefresh q k r) p = generation_of r p"
  by (simp add: endProviderRefresh_def generation_of_def)

lemma fold_supersede_generation: "generation_of r p \<le> generation_of (fold supersedeProviderRefresh ids r) p"
proof (induction ids arbitrary: r)
  case (Cons i ids)
  then show ?case
    using Cons.IH [of "supersedeProviderRefresh i r"] by (auto simp: supersede_generation split: if_splits)
qed simp

lemma generation_of_update [simp]: "generation_of (r\<lparr>providers := ps\<rparr>) p = generation_of r p"
  "generation_of (r\<lparr>refreshControllers := cs\<rparr>) p = generation_of r p"
  "generation_of (r\<lparr>nextController := n\<rparr>) p = generation_of r p"
  by (simp_all add: generation_of_def)

lemma apply_update_generation [simp]: "generation_of (reg (apply_update q pub c)) p = generation_of (reg c) p"
  by (simp add: apply_update_def split: option.split)

lemma finish_generation [simp]:
  "generation_of (reg (fst (finish_publication q pub c))) p = generation_of (reg c) p"
  by (simp add: finish_publication_def)

lemma settle_generation [simp]: "generation_of (reg (settle_publication q c)) p = generation_of (reg c) p"
  by (simp add: settle_publication_def)

definition published_ok :: "string \<Rightarrow> nat \<Rightarrow> pub_act list \<Rightarrow> bool" where
  "published_ok p g acts \<longleftrightarrow> (\<forall>pub. Published p pub \<in> set acts \<longrightarrow> g \<le> pub_generation pub)"

lemma published_ok_simps [simp]:
  "published_ok p g []"
  "published_ok p g (xs @ ys) \<longleftrightarrow> published_ok p g xs \<and> published_ok p g ys"
  "published_ok p g (StoreCall s # xs) \<longleftrightarrow> published_ok p g xs"
  "published_ok p g (Dropped q pub # xs) \<longleftrightarrow> published_ok p g xs"
  "published_ok p g (PublishFailed q pub # xs) \<longleftrightarrow> published_ok p g xs"
  by (auto simp: published_ok_def)

lemma published_ok_ConsI: "published_ok p g [a] \<Longrightarrow> published_ok p g xs \<Longrightarrow> published_ok p g (a # xs)"
  by (auto simp: published_ok_def)

lemma finish_published_ok:
  "g \<le> generation_of (reg c) p \<Longrightarrow> published_ok p g [snd (finish_publication q pub c)]"
  by (auto simp: finish_publication_def published_ok_def is_current_def generation_of_def)

lemma start_publications_ok:
  "g \<le> generation_of (reg c) p \<Longrightarrow>
   published_ok p g (snd (start_publications n q c)) \<and>
   generation_of (reg (fst (start_publications n q c))) p = generation_of (reg c) p"
proof (induction n arbitrary: c)
  case (Suc n)
  show ?case
  proof (cases "chain_jobs (publicationChains c) q")
    case (Cons pub pubs)
    have "published_ok p g [snd (finish_publication q pub c)]"
      by (rule finish_published_ok [OF Suc.prems])
    then show ?thesis
      using Cons Suc.prems Suc.IH [of "settle_publication q c"]
        Suc.IH [of "settle_publication q (fst (finish_publication q pub c))"]
      by (cases "pub_persist pub") (auto simp: case_prod_beta Let_def intro: published_ok_ConsI)
  qed (use Suc.prems in simp)
qed simp

lemma catalogue_step_ok:
  assumes "g \<le> generation_of (reg c) p"
  shows "published_ok p g (snd (catalogue_step e c)) \<and> g \<le> generation_of (reg (fst (catalogue_step e c))) p"
proof (cases e)
  case (Publish q pub)
  have "g \<le> generation_of (reg (c\<lparr>publicationChains := chain_enqueue q pub (publicationChains c)\<rparr>)) p"
    using assms by simp
  from start_publications_ok [OF this, of 1 q] show ?thesis
    using assms Publish by (simp add: catalogue_step_def publishProviderModels_def Let_def del: start_publications.simps)
next
  case (StoreSettled q ok)
  show ?thesis
  proof (cases "chain_jobs (publicationChains c) q")
    case (Cons pub pubs)
    define fin where "fin = (if ok then finish_publication q pub c else (c, PublishFailed q pub))"
    have gen: "g \<le> generation_of (reg (settle_publication q (fst fin))) p"
      using assms by (simp add: fin_def)
    have "published_ok p g [snd fin]"
      using finish_published_ok [OF assms, of q pub] by (simp add: fin_def)
    then show ?thesis
      using start_publications_ok [OF gen, of "length pubs" q] gen Cons StoreSettled
      by (auto simp: catalogue_step_def store_settled_def case_prod_beta Let_def intro: published_ok_ConsI
          simp flip: fin_def)
  qed (use assms StoreSettled in \<open>simp add: catalogue_step_def store_settled_def\<close>)
qed (use assms fold_supersede_generation in
  \<open>auto simp: catalogue_step_def setProvider_def deleteProvider_def clearProviders_def beginProviderRefresh_def
     supersede_generation Let_def intro: order_trans\<close>)

lemma catalogue_run_ok:
  "g \<le> generation_of (reg c) p \<Longrightarrow> published_ok p g (snd (catalogue_run es c))"
proof (induction es arbitrary: c)
  case (Cons e es)
  then show ?case
    using catalogue_step_ok [OF Cons.prems, of e] by (simp add: case_prod_beta Let_def)
qed simp

text \<open>C25. A refresh that has been superseded, because its provider was replaced, deleted or
  refreshed again, publishes nothing any more, whatever happens afterwards: only refreshes of
  a later generation are published.\<close>

theorem stale_refresh_dropped:
  assumes "e = SetProvider q \<and> prov_id q = p \<or> e = DeleteProvider p \<or> e = BeginRefresh p"
    and "catalogue_run es (fst (catalogue_step e c)) = (c', acts)"
    and "Published p pub \<in> set acts"
  shows "generation_of (reg c) p < pub_generation pub"
proof -
  let ?g = "generation_of (reg c) p + 1"
  have "?g \<le> generation_of (reg (fst (catalogue_step e c))) p"
    using assms(1)
    by (auto simp: catalogue_step_def setProvider_def deleteProvider_def beginProviderRefresh_def
        supersede_generation Let_def)
  from catalogue_run_ok [OF this, of es] assms show ?thesis
    by (auto simp: published_ok_def)
qed

definition example_provider :: provider where
  "example_provider = \<lparr>prov_id = ''p'', baselineModels = [example_model], dynamicModels = []\<rparr>"

definition example_publication :: "nat \<Rightarrow> publication" where
  "example_publication g = \<lparr>pub_generation = g, pub_controller = 0, pub_persist = PersistSkip, pub_update = Some []\<rparr>"

theorem stale_refresh_dropped_witness:
  "\<exists>c' acts. catalogue_run [BeginRefresh ''p'', Publish ''p'' (example_publication 1), Publish ''p'' (example_publication 2)]
      (fst (catalogue_step (SetProvider example_provider) \<lparr>reg = registry_init, publicationChains = []\<rparr>)) = (c', acts) \<and>
     Published (prov_id example_provider) (example_publication 2) \<in> set acts \<and>
     generation_of registry_init ''p'' < pub_generation (example_publication 2)"
proof -
  let ?r = "catalogue_run [BeginRefresh ''p'', Publish ''p'' (example_publication 1), Publish ''p'' (example_publication 2)]
      (fst (catalogue_step (SetProvider example_provider) \<lparr>reg = registry_init, publicationChains = []\<rparr>))"
  have pub: "Published (prov_id example_provider) (example_publication 2) \<in> set (snd ?r)"
    by (simp add: catalogue_step_def setProvider_def supersedeProviderRefresh_def generation_of_def registry_init_def
        example_provider_def example_publication_def beginProviderRefresh_def publishProviderModels_def
        chain_jobs_def chain_enqueue_def chain_settle_def settle_publication_def is_current_def
        finish_publication_def apply_update_def Let_def)
  have "generation_of (reg \<lparr>reg = registry_init, publicationChains = []\<rparr>) (prov_id example_provider)
      < pub_generation (example_publication 2)"
    by (rule stale_refresh_dropped [OF _ surjective_pairing pub]) simp
  with pub show ?thesis
    by (intro exI [of _ "fst ?r"] exI [of _ "snd ?r"]) (simp add: example_provider_def)
qed

end
