(* ===== verification/Pi_Credentials.thy ===== *)
theory Pi_Credentials
  imports Promise_Chain Json_Value
begin

text \<open>
  Credentials in the bundled \<open>pi-ai\<close> (\<open>drivers/tools/pibridge/bridge.mjs\<close>): racing an operation
  against an abort signal (\<open>utils/abort.js\<close>), the in-memory credential store whose tasks are
  chained per provider (\<open>auth/credential-store.js\<close>), and the choice of the credential for a
  request (\<open>auth/resolve.js\<close>). A callback given to \<open>modify\<close>, and the clock, are the environment.
\<close>

subsection \<open>\<open>raceWithAbortSignal\<close>\<close>

datatype ('e, 'v) race_event = SignalAborted 'e | OperationResolved 'v | OperationRejected 'e

text \<open>The promise handed out: None while unsettled. A listener that finds \<open>settled\<close> does
  nothing.\<close>

definition race_step :: "('e, 'v) race_event \<Rightarrow> ('e, 'v) result option \<Rightarrow> ('e, 'v) result option" where
  "race_step ev st =
     (case st of
        Some r \<Rightarrow> Some r
      | None \<Rightarrow>
          (case ev of
             SignalAborted e \<Rightarrow> Some (Inl e)
           | OperationResolved v \<Rightarrow> Some (Inr v)
           | OperationRejected e \<Rightarrow> Some (Inl e)))"

definition raceWithAbortSignal ::
  "'e option \<Rightarrow> ('e, 'v) race_event list \<Rightarrow> ('e, 'v) result option" where
  "raceWithAbortSignal already evs =
     (case already of Some e \<Rightarrow> Some (Inl e) | None \<Rightarrow> fold race_step evs None)"

lemma race_settled: "fold race_step evs (Some r) = Some r"
  by (induction evs) (simp_all add: race_step_def)

lemma race_first:
  "raceWithAbortSignal None (ev # evs) = race_step ev None"
  by (cases ev) (simp_all add: raceWithAbortSignal_def race_step_def race_settled)

subsection \<open>The store\<close>

datatype credential =
    OAuthC (expires: rat) string
  | ApiKeyC "string option" "(string \<times> string) list"

datatype task = ModifyTask | DeleteTask

record job =
  job_id :: nat
  job_signal :: nat
  job_task :: task

datatype outcome = JobRejected | JobResolved "credential option"

datatype store_act =
    CallModify string job "credential option"
  | JobSettled string job outcome

record cred_store =
  credentials :: "(string \<times> credential) list"
  cred_chains :: "(string, job) chains"
  seen :: "(string \<times> credential option) list"

definition cred_init :: cred_store where
  "cred_init = \<lparr>credentials = [], cred_chains = [], seen = []\<rparr>"

text \<open>Start the tasks of provider \<open>p\<close> at the head of its chain: one whose signal is aborted
  rejects at once, a deletion is synchronous, a modification reads the current credential and
  awaits its callback. \<open>aborted\<close> holds the signals aborted so far; the recursion is bounded by
  the chain.\<close>

fun start_jobs :: "nat \<Rightarrow> nat set \<Rightarrow> string \<Rightarrow> cred_store \<Rightarrow> cred_store \<times> store_act list" where
  "start_jobs 0 aborted p st = (st, [])"
| "start_jobs (Suc n) aborted p st =
     (case chain_jobs (cred_chains st) p of
        [] \<Rightarrow> (st, [])
      | j # js \<Rightarrow>
          (if job_signal j \<in> aborted then
             (let (st1, acts) = start_jobs n aborted p (st\<lparr>cred_chains := chain_settle p (cred_chains st)\<rparr>)
              in (st1, JobSettled p j JobRejected # acts))
           else
             (case job_task j of
                ModifyTask \<Rightarrow>
                  (st\<lparr>seen := AList.update p (map_of (credentials st) p) (seen st)\<rparr>,
                   [CallModify p j (map_of (credentials st) p)])
              | DeleteTask \<Rightarrow>
                  (let (st1, acts) = start_jobs n aborted p
                     (st\<lparr>credentials := AList.delete p (credentials st),
                        cred_chains := chain_settle p (cred_chains st)\<rparr>)
                   in (st1, JobSettled p j (JobResolved None) # acts)))))"

text \<open>\<open>enqueue\<close>: chain the task; it starts at once only when the chain was empty.\<close>

definition enqueue :: "nat set \<Rightarrow> string \<Rightarrow> job \<Rightarrow> cred_store \<Rightarrow> cred_store \<times> store_act list" where
  "enqueue aborted p j st =
     (let idle = chain_jobs (cred_chains st) p = [];
          st1 = st\<lparr>cred_chains := chain_enqueue p j (cred_chains st)\<rparr> in
      if idle then start_jobs 1 aborted p st1 else (st1, []))"

datatype modify_result = FnThrew | FnReturned "credential option"

text \<open>The callback of the running modification settles: the credential is set unless the
  signal was aborted meanwhile; the result is \<open>next ?? current\<close>.\<close>

definition modify_done ::
  "nat set \<Rightarrow> string \<Rightarrow> modify_result \<Rightarrow> cred_store \<Rightarrow> cred_store \<times> store_act list" where
  "modify_done aborted p res st =
     (case (chain_jobs (cred_chains st) p, map_of (seen st) p) of
        (j # js, Some current) \<Rightarrow>
          (let (creds, out) =
             (case res of
                FnThrew \<Rightarrow> (credentials st, JobRejected)
              | FnReturned nxt \<Rightarrow>
                  (if job_signal j \<in> aborted then (credentials st, JobRejected)
                   else (case nxt of
                       Some c \<Rightarrow> (AList.update p c (credentials st), JobResolved (Some c))
                     | None \<Rightarrow> (credentials st, JobResolved current))));
               st1 = st\<lparr>credentials := creds, seen := AList.delete p (seen st),
                       cred_chains := chain_settle p (cred_chains st)\<rparr>;
               (st2, acts) = start_jobs (length js) aborted p st1
           in (st2, JobSettled p j out # acts))
      | _ \<Rightarrow> (st, []))"

definition read_credential :: "nat set \<Rightarrow> nat option \<Rightarrow> string \<Rightarrow> cred_store \<Rightarrow> credential option option" where
  "read_credential aborted signal p st =
     (if (case signal of None \<Rightarrow> False | Some s \<Rightarrow> s \<in> aborted) then None
      else Some (map_of (credentials st) p))"

definition list_credentials :: "cred_store \<Rightarrow> (string \<times> string) list" where
  "list_credentials st =
     map (\<lambda>(p, c). (p, case c of OAuthC e t \<Rightarrow> ''oauth'' | ApiKeyC k env \<Rightarrow> ''api_key'')) (credentials st)"

datatype store_event =
    Enqueue string job
  | ModifyDone string modify_result
  | AbortSig nat

record store_run =
  store :: cred_store
  aborted_signals :: "nat set"

definition store_step :: "store_event \<Rightarrow> store_run \<Rightarrow> store_run \<times> store_act list" where
  "store_step ev r =
     (case ev of
        Enqueue p j \<Rightarrow>
          (let (st, acts) = enqueue (aborted_signals r) p j (store r) in (r\<lparr>store := st\<rparr>, acts))
      | ModifyDone p res \<Rightarrow>
          (let (st, acts) = modify_done (aborted_signals r) p res (store r) in (r\<lparr>store := st\<rparr>, acts))
      | AbortSig s \<Rightarrow> (r\<lparr>aborted_signals := insert s (aborted_signals r)\<rparr>, []))"

fun store_run_events :: "store_event list \<Rightarrow> store_run \<Rightarrow> store_run \<times> store_act list" where
  "store_run_events [] r = (r, [])"
| "store_run_events (e # es) r =
     (let (r1, xs) = store_step e r; (r2, ys) = store_run_events es r1 in (r2, xs @ ys))"

subsection \<open>No update is lost\<close>

text \<open>While a modification awaits its callback, the credential it read is the stored one: a
  modification is atomic although it suspends.\<close>

definition prov_ok :: "cred_store \<Rightarrow> string \<Rightarrow> bool" where
  "prov_ok st p \<longleftrightarrow>
     (case map_of (seen st) p of
        Some c \<Rightarrow> map_of (credentials st) p = c \<and> chain_jobs (cred_chains st) p \<noteq> [] \<and>
          job_task (hd (chain_jobs (cred_chains st) p)) = ModifyTask
      | None \<Rightarrow> chain_jobs (cred_chains st) p = [])"

definition atomic_inv :: "cred_store \<Rightarrow> bool" where
  "atomic_inv st \<longleftrightarrow> (\<forall>p. prov_ok st p)"

text \<open>The same with provider \<open>p\<close> about to start its next task.\<close>

definition starting_inv :: "string \<Rightarrow> cred_store \<Rightarrow> bool" where
  "starting_inv p st \<longleftrightarrow> map_of (seen st) p = None \<and> (\<forall>q. q \<noteq> p \<longrightarrow> prov_ok st q)"

lemma prov_ok_cong:
  assumes "map_of (seen st) q = map_of (seen st') q" "map_of (credentials st) q = map_of (credentials st') q"
    "chain_jobs (cred_chains st) q = chain_jobs (cred_chains st') q"
  shows "prov_ok st q = prov_ok st' q"
  by (simp only: prov_ok_def assms)

lemma starting_inv_step:
  assumes "starting_inv p st" "map_of (seen st') p = None"
    "\<And>q. q \<noteq> p \<Longrightarrow> map_of (seen st') q = map_of (seen st) q \<and>
       map_of (credentials st') q = map_of (credentials st) q \<and>
       chain_jobs (cred_chains st') q = chain_jobs (cred_chains st) q"
  shows "starting_inv p st'"
  using assms prov_ok_cong [of st' _ st] unfolding starting_inv_def by blast

lemma starting_inv_atomic:
  "starting_inv p st \<Longrightarrow> prov_ok st p \<Longrightarrow> atomic_inv st"
  unfolding starting_inv_def atomic_inv_def by metis

lemma start_jobs_atomic:
  "starting_inv p st \<Longrightarrow> length (chain_jobs (cred_chains st) p) \<le> n \<Longrightarrow>
   atomic_inv (fst (start_jobs n aborted p st))"
proof (induction n arbitrary: st)
  case 0
  then have "prov_ok st p" by (simp add: starting_inv_def prov_ok_def)
  with 0 show ?case by (simp add: starting_inv_atomic)
next
  case (Suc n)
  show ?case
  proof (cases "chain_jobs (cred_chains st) p")
    case Nil
    with Suc.prems(1) have "prov_ok st p" by (simp add: starting_inv_def prov_ok_def)
    with Nil Suc.prems(1) show ?thesis by (simp add: starting_inv_atomic)
  next
    case (Cons j js)
    have rest: "chain_jobs (chain_settle p (cred_chains st)) q =
        (if q = p then js else chain_jobs (cred_chains st) q)" for q
      using Cons by (simp add: pchain.jobs_settle)
    let ?drop = "st\<lparr>cred_chains := chain_settle p (cred_chains st)\<rparr>"
    let ?del = "st\<lparr>credentials := AList.delete p (credentials st),
      cred_chains := chain_settle p (cred_chains st)\<rparr>"
    have seen: "map_of (seen st) p = None"
      using Suc.prems(1) by (simp add: starting_inv_def)
    have "starting_inv p ?drop" "starting_inv p ?del"
      by (rule starting_inv_step [OF Suc.prems(1)]; simp add: seen rest delete_conv')+
    then have IH: "atomic_inv (fst (start_jobs n aborted p ?drop))" "atomic_inv (fst (start_jobs n aborted p ?del))"
      using Suc.IH Suc.prems(2) rest Cons by simp_all
    let ?run = "st\<lparr>seen := AList.update p (map_of (credentials st) p) (seen st)\<rparr>"
    have "atomic_inv ?run" if "job_task j = ModifyTask"
    proof -
      have "prov_ok ?run q" if "q \<noteq> p" for q
        using Suc.prems(1) that prov_ok_cong [of ?run q st] by (simp add: starting_inv_def update_conv')
      moreover have "prov_ok ?run p"
        using Cons that by (simp add: prov_ok_def update_conv')
      ultimately show ?thesis unfolding atomic_inv_def by metis
    qed
    with IH show ?thesis
      using Cons by (simp add: case_prod_beta Let_def split: task.split)
  qed
qed

lemma enqueue_atomic:
  assumes "atomic_inv st"
  shows "atomic_inv (fst (enqueue aborted p j st))"
proof -
  let ?st = "st\<lparr>cred_chains := chain_enqueue p j (cred_chains st)\<rparr>"
  have other: "prov_ok ?st q" if "q \<noteq> p" for q
    using assms that prov_ok_cong [of ?st q st] by (simp add: atomic_inv_def pchain.jobs_enqueue)
  show ?thesis
  proof (cases "chain_jobs (cred_chains st) p = []")
    case True
    have "prov_ok st p" using assms by (simp add: atomic_inv_def)
    with True have "map_of (seen st) p = None"
      by (simp add: prov_ok_def split: option.splits)
    with other have "starting_inv p ?st" by (simp add: starting_inv_def)
    moreover have "length (chain_jobs (cred_chains ?st) p) \<le> 1"
      using True by (simp add: pchain.jobs_enqueue)
    ultimately have "atomic_inv (fst (start_jobs 1 aborted p ?st))"
      by (rule start_jobs_atomic)
    then show ?thesis
      using True unfolding enqueue_def Let_def by simp
  next
    case False
    have "prov_ok st p" using assms by (simp add: atomic_inv_def)
    with False have "prov_ok ?st p"
      by (simp add: prov_ok_def pchain.jobs_enqueue split: option.splits)
    with other have "atomic_inv ?st" unfolding atomic_inv_def by metis
    with False show ?thesis by (simp add: enqueue_def)
  qed
qed

lemma modify_done_atomic:
  assumes "atomic_inv st"
  shows "atomic_inv (fst (modify_done aborted p res st))"
proof (cases "chain_jobs (cred_chains st) p")
  case Nil
  then show ?thesis using assms by (simp add: modify_done_def)
next
  case (Cons j js)
  show ?thesis
  proof (cases "map_of (seen st) p")
    case None
    then show ?thesis using assms Cons by (simp add: modify_done_def)
  next
    case (Some c)
    define cr where "cr = (case res of FnThrew \<Rightarrow> credentials st
      | FnReturned nxt \<Rightarrow> if job_signal j \<in> aborted then credentials st
          else (case nxt of Some c \<Rightarrow> AList.update p c (credentials st) | None \<Rightarrow> credentials st))"
    have other: "map_of cr q = map_of (credentials st) q" if "q \<noteq> p" for q
      using that by (simp add: cr_def update_conv' split: modify_result.split option.split)
    let ?st = "st\<lparr>credentials := cr, seen := AList.delete p (seen st),
      cred_chains := chain_settle p (cred_chains st)\<rparr>"
    have "prov_ok ?st q" if "q \<noteq> p" for q
      using assms that other prov_ok_cong [of ?st q st]
      by (simp add: atomic_inv_def pchain.jobs_settle delete_conv')
    then have "starting_inv p ?st"
      by (simp add: starting_inv_def delete_conv')
    then have "atomic_inv (fst (start_jobs (length js) aborted p ?st))"
      by (rule start_jobs_atomic) (simp add: pchain.jobs_settle Cons)
    moreover have "fst (modify_done aborted p res st) = fst (start_jobs (length js) aborted p ?st)"
      using Cons Some
      by (cases res; cases "job_signal j \<in> aborted")
         (auto simp: modify_done_def cr_def case_prod_beta Let_def split: option.split)
    ultimately show ?thesis by simp
  qed
qed

lemma store_step_atomic: "atomic_inv (store r) \<Longrightarrow> atomic_inv (store (fst (store_step e r)))"
  by (cases e) (simp_all add: store_step_def case_prod_beta Let_def enqueue_atomic modify_done_atomic)

lemma store_run_atomic: "atomic_inv (store r) \<Longrightarrow> atomic_inv (store (fst (store_run_events es r)))"
  by (induction es arbitrary: r) (simp_all add: case_prod_beta Let_def store_step_atomic)

lemma cred_init_atomic: "atomic_inv cred_init"
  by (simp add: atomic_inv_def prov_ok_def cred_init_def chain_jobs_def)

text \<open>The tasks chained for a provider, and those settled, in order.\<close>

fun chained :: "string \<Rightarrow> store_event list \<Rightarrow> job list" where
  "chained p [] = []"
| "chained p (Enqueue q j # es) = (if q = p then [j] else []) @ chained p es"
| "chained p (_ # es) = chained p es"

fun settled_jobs :: "string \<Rightarrow> store_act list \<Rightarrow> job list" where
  "settled_jobs p [] = []"
| "settled_jobs p (JobSettled q j out # acts) = (if q = p then [j] else []) @ settled_jobs p acts"
| "settled_jobs p (_ # acts) = settled_jobs p acts"

lemma settled_jobs_append [simp]: "settled_jobs p (xs @ ys) = settled_jobs p xs @ settled_jobs p ys"
  by (induction p xs rule: settled_jobs.induct) auto

abbreviation fifo_ok where
  "fifo_ok st p d c \<equiv> in_order chain_jobs (cred_chains st) p d c"

lemma start_jobs_fifo:
  "fifo_ok st q d c \<Longrightarrow>
   fifo_ok (fst (start_jobs n aborted p st)) q (d @ settled_jobs q (snd (start_jobs n aborted p st))) c"
proof (induction n arbitrary: st d)
  case (Suc n)
  show ?case
  proof (cases "chain_jobs (cred_chains st) p")
    case (Cons j js)
    let ?d = "if p = q then d @ [j] else d"
    have step: "in_order chain_jobs (chain_settle p (cred_chains st)) q ?d c"
      using pchain.order_settle [of "cred_chains st" q d c j js] pchain.order_other(2) [of "cred_chains st" q d c p]
        Suc.prems Cons by auto
    have "fifo_ok (fst (start_jobs n aborted p st')) q (?d @ settled_jobs q (snd (start_jobs n aborted p st'))) c"
      if "cred_chains st' = chain_settle p (cred_chains st)" for st'
      using Suc.IH [of st' ?d] step that by simp
    then show ?thesis
      using Suc.prems Cons by (auto simp: case_prod_beta Let_def split: task.split)
  qed (use Suc.prems in simp)
qed simp

lemma store_step_fifo:
  assumes "fifo_ok (store r) q d c"
  shows "fifo_ok (store (fst (store_step e r))) q (d @ settled_jobs q (snd (store_step e r))) (c @ chained q [e])"
proof (cases e)
  case (Enqueue p j)
  let ?st = "(store r)\<lparr>cred_chains := chain_enqueue p j (cred_chains (store r))\<rparr>"
  have "fifo_ok ?st q d (c @ chained q [e])"
    using assms pchain.order_enqueue [of "cred_chains (store r)" q d c j]
      pchain.order_other(1) [of "cred_chains (store r)" q d c p j] Enqueue by auto
  from start_jobs_fifo [OF this, of 1 "aborted_signals r" p] this show ?thesis
    by (cases "chain_jobs (cred_chains (store r)) p = []"; cases "p = q")
       (simp_all add: Enqueue store_step_def enqueue_def case_prod_beta Let_def del: start_jobs.simps)
next
  case (ModifyDone p res)
  show ?thesis
  proof (cases "chain_jobs (cred_chains (store r)) p = [] \<or> map_of (seen (store r)) p = None")
    case True
    then show ?thesis
      using assms ModifyDone by (auto simp: store_step_def modify_done_def Let_def split: list.splits)
  next
    case False
    then obtain j js where Cons: "chain_jobs (cred_chains (store r)) p = j # js"
      by (cases "chain_jobs (cred_chains (store r)) p") auto
    let ?d = "if p = q then d @ [j] else d"
    have step: "in_order chain_jobs (chain_settle p (cred_chains (store r))) q ?d c"
      using pchain.order_settle [of "cred_chains (store r)" q d c j js]
        pchain.order_other(2) [of "cred_chains (store r)" q d c p] assms Cons by auto
    have "fifo_ok (fst (start_jobs (length js) (aborted_signals r) p st')) q
        (?d @ settled_jobs q (snd (start_jobs (length js) (aborted_signals r) p st'))) c"
      if "cred_chains st' = chain_settle p (cred_chains (store r))" for st'
      using start_jobs_fifo [of st' q ?d c] step that by simp
    then show ?thesis
      using False Cons ModifyDone by (auto simp: store_step_def modify_done_def case_prod_beta Let_def)
  qed
next
  case (AbortSig s)
  then show ?thesis using assms by (simp add: store_step_def)
qed

lemma store_run_fifo:
  "fifo_ok (store r) q d c \<Longrightarrow>
   fifo_ok (store (fst (store_run_events es r))) q (d @ settled_jobs q (snd (store_run_events es r)))
     (c @ chained q es)"
proof (induction es arbitrary: r d c)
  case (Cons e es)
  have "chained q (e # es) = chained q [e] @ chained q es"
    by (cases e) auto
  then show ?case
    using Cons.IH [OF store_step_fifo [OF Cons.prems, of e]] by (simp add: case_prod_beta Let_def)
qed simp

text \<open>C13. The credential store loses no update: whatever tasks are chained, aborted and
  settled, a modification that awaits its callback finds in the store the very credential
  its callback was given; and the tasks of a provider settle in the order in which they were
  chained, none lost and none twice.\<close>

theorem no_lost_update:
  assumes "store_run_events es \<lparr>store = cred_init, aborted_signals = {}\<rparr> = (r, acts)"
  shows "(\<forall>p c. map_of (seen (store r)) p = Some c \<longrightarrow> map_of (credentials (store r)) p = c) \<and>
    (\<forall>p. chained p es = settled_jobs p acts @ chain_jobs (cred_chains (store r)) p)"
proof -
  have "atomic_inv (store r)"
    using store_run_atomic [of "\<lparr>store = cred_init, aborted_signals = {}\<rparr>" es] cred_init_atomic assms by simp
  moreover have "fifo_ok cred_init p [] []" for p
    by (simp add: in_order_def cred_init_def chain_jobs_def)
  then have "fifo_ok (store r) p (settled_jobs p acts) (chained p es)" for p
    using store_run_fifo [of "\<lparr>store = cred_init, aborted_signals = {}\<rparr>" p "[]" "[]" es] assms by simp
  ultimately show ?thesis
    unfolding atomic_inv_def prov_ok_def in_order_def by (auto split: option.splits)
qed

definition example_job :: job where
  "example_job = \<lparr>job_id = 1, job_signal = 7, job_task = ModifyTask\<rparr>"

theorem no_lost_update_witness:
  "\<exists>r acts. store_run_events [Enqueue ''p'' example_job, Enqueue ''p'' (example_job\<lparr>job_id := 2\<rparr>),
      ModifyDone ''p'' (FnReturned (Some (OAuthC 5 ''t'')))] \<lparr>store = cred_init, aborted_signals = {}\<rparr> = (r, acts) \<and>
     map_of (seen (store r)) ''p'' = Some (Some (OAuthC 5 ''t'')) \<and>
     map_of (credentials (store r)) ''p'' = Some (OAuthC 5 ''t'')"
  using no_lost_update [OF surjective_pairing, of "[Enqueue ''p'' example_job, Enqueue ''p'' (example_job\<lparr>job_id := 2\<rparr>),
      ModifyDone ''p'' (FnReturned (Some (OAuthC 5 ''t'')))]"]
  by (simp add: store_step_def enqueue_def modify_done_def chain_enqueue_def chain_settle_def chain_jobs_def
      cred_init_def example_job_def Let_def)

end
