(* ===== verification/Pi_Auth.thy ===== *)
theory Pi_Auth
  imports Pi_Credentials
begin

text \<open>
  The choice of the authentication for a request (\<open>auth/resolve.js\<close>, \<open>auth/context.js\<close> and
  \<open>utils/diagnostics.js\<close> of the bundled \<open>pi-ai\<close>). What a provider does to resolve a key, refresh
  a token or derive headers is the record \<open>auth_impl\<close>; the clock is an argument.
\<close>

datatype cause = ErrorCause string string | ValueCause jsval

definition formatThrownValue :: "js_runtime \<Rightarrow> cause \<Rightarrow> string" where
  "formatThrownValue rt c =
     (case c of
        ErrorCause name message \<Rightarrow> if message \<noteq> '''' then message else name
      | ValueCause v \<Rightarrow> js_String rt v)"

record diagnostic_error =
  diag_name :: "string option"
  diag_message :: string
  diag_code :: jsval

text \<open>\<open>extractDiagnosticError\<close>; the stack of an Error is left out. Only a string or a number is
  kept as the code.\<close>

definition extractDiagnosticError :: "js_runtime \<Rightarrow> cause \<Rightarrow> jsval \<Rightarrow> diagnostic_error" where
  "extractDiagnosticError rt err code_prop =
     (case err of
        ValueCause v \<Rightarrow>
          \<lparr>diag_name = Some ''ThrownValue'', diag_message = formatThrownValue rt err, diag_code = None\<rparr>
      | ErrorCause name message \<Rightarrow>
          \<lparr>diag_name = (if name \<noteq> '''' then Some name else None),
           diag_message = (if message \<noteq> '''' then message else name),
           diag_code = (case code_prop of
              Some (JStr s) \<Rightarrow> Some (JStr s) | Some (JNum q) \<Rightarrow> Some (JNum q) | _ \<Rightarrow> None)\<rparr>)"

definition withCauseDetail :: "js_runtime \<Rightarrow> string \<Rightarrow> cause option \<Rightarrow> string" where
  "withCauseDetail rt message c =
     (case c of
        None \<Rightarrow> message
      | Some cc \<Rightarrow>
          (if cc = ValueCause None \<or> cc = ValueCause (Some JNull) then message
           else
             (let detail = trim (formatThrownValue rt cc) in
              if detail = '''' \<or> indexOf message detail \<noteq> None then message
              else message @ '': '' @ detail)))"

record models_error =
  me_code :: string
  me_message :: string

definition ModelsError :: "js_runtime \<Rightarrow> string \<Rightarrow> string \<Rightarrow> cause option \<Rightarrow> models_error" where
  "ModelsError rt c message cse = \<lparr>me_code = c, me_message = withCauseDetail rt message cse\<rparr>"

type_synonym auth_env = "string \<Rightarrow> string option"

record 'a auth_impl =
  api_key_resolve :: "(auth_env \<Rightarrow> credential option \<Rightarrow> (cause, 'a option) result) option"
  oauth_refresh :: "credential \<Rightarrow> (cause, credential) result"
  oauth_toAuth :: "credential \<Rightarrow> (cause, 'a) result"
  has_oauth :: bool

text \<open>\<open>env(name)\<close> of the default context: blank values count as unset.\<close>

definition default_env :: "(string \<times> string) list \<Rightarrow> auth_env" where
  "default_env penv name =
     (case map_of penv name of Some v \<Rightarrow> if trim v \<noteq> '''' then Some v else None | None \<Rightarrow> None)"

definition overlayEnvAuthContext :: "auth_env \<Rightarrow> (string \<times> string) list \<Rightarrow> auth_env" where
  "overlayEnvAuthContext base env name =
     (case map_of env name of Some v \<Rightarrow> if v \<noteq> '''' then Some v else base name | None \<Rightarrow> base name)"

definition resolveApiKey ::
  "js_runtime \<Rightarrow> auth_env \<Rightarrow> (auth_env \<Rightarrow> credential option \<Rightarrow> (cause, 'a option) result) \<Rightarrow> string
     \<Rightarrow> credential option \<Rightarrow> (models_error, 'a option) result" where
  "resolveApiKey rt ctx f p cred =
     (case f ctx cred of
        Inr r \<Rightarrow> Inr r
      | Inl e \<Rightarrow> Inl (ModelsError rt ''auth'' (''API key auth failed for provider '' @ p) (Some e)))"

definition DEFAULT_OAUTH_MINIMUM_VALIDITY_MS :: rat where
  "DEFAULT_OAUTH_MINIMUM_VALIDITY_MS = 5 * 60 * 1000"

definition is_oauth :: "credential option \<Rightarrow> bool" where
  "is_oauth c = (case c of Some (OAuthC e t) \<Rightarrow> True | _ \<Rightarrow> False)"

definition minimum_validity :: "rat option \<Rightarrow> rat" where
  "minimum_validity m = max DEFAULT_OAUTH_MINIMUM_VALIDITY_MS (case m of None \<Rightarrow> 0 | Some v \<Rightarrow> v)"

definition expiresSoon :: "rat \<Rightarrow> rat option \<Rightarrow> credential \<Rightarrow> bool" where
  "expiresSoon now m c = (now + minimum_validity m \<ge> expires c)"

text \<open>The callback given to \<open>credentials.modify\<close>: it decides again on the credential found in
  the store, since another request may have refreshed it. Inr None keeps it.\<close>

definition refresh_callback ::
  "js_runtime \<Rightarrow> rat \<Rightarrow> rat option \<Rightarrow> string \<Rightarrow> 'a auth_impl \<Rightarrow> credential option
     \<Rightarrow> (models_error, credential option) result" where
  "refresh_callback rt now m p impl current =
     (if \<not> is_oauth current then Inr None
      else if \<not> expiresSoon now m (the current) then Inr None
      else
        (case oauth_refresh impl (the current) of
           Inr c \<Rightarrow> Inr (Some c)
         | Inl e \<Rightarrow> Inl (ModelsError rt ''oauth'' (''OAuth refresh failed for '' @ p) (Some e))))"

definition oauth_auth ::
  "js_runtime \<Rightarrow> string \<Rightarrow> 'a auth_impl \<Rightarrow> credential \<Rightarrow> (models_error, 'a option) result" where
  "oauth_auth rt p impl c =
     (case oauth_toAuth impl c of
        Inr a \<Rightarrow> Inr (Some a)
      | Inl e \<Rightarrow> Inl (ModelsError rt ''oauth'' (''OAuth auth derivation failed for '' @ p) (Some e)))"

text \<open>\<open>resolveStoredOAuth\<close>: \<open>stored\<close> was read before, \<open>current\<close> is what the store holds when the
  modification runs, \<open>now\<close> and \<open>later\<close> the clock before and after the refresh. The result also
  names the credential used.\<close>

definition resolveStoredOAuth ::
  "js_runtime \<Rightarrow> rat \<Rightarrow> rat \<Rightarrow> rat option \<Rightarrow> string \<Rightarrow> 'a auth_impl \<Rightarrow> credential \<Rightarrow> credential option
     \<Rightarrow> credential option \<times> (models_error, 'a option) result" where
  "resolveStoredOAuth rt now later m p impl stored current =
     (if expiresSoon now m stored then
        (case refresh_callback rt now m p impl current of
           Inl e \<Rightarrow> (None, Inl e)
         | Inr nxt \<Rightarrow>
             (let post = (case nxt of Some c \<Rightarrow> Some c | None \<Rightarrow> current) in
              if \<not> is_oauth post then (None, Inr None)
              else if m \<noteq> None \<and> expiresSoon later m (the post) then
                (None, Inl (ModelsError rt ''oauth''
                   (''OAuth refresh returned a token that expires too soon for '' @ p) None))
              else (post, oauth_auth rt p impl (the post))))
      else (Some stored, oauth_auth rt p impl stored))"

record auth_overrides =
  ov_apiKey :: "string option"
  ov_env :: "(string \<times> string) list option"
  ov_minValidity :: "rat option"

definition merge_env :: "(string \<times> string) list \<Rightarrow> (string \<times> string) list \<Rightarrow> (string \<times> string) list" where
  "merge_env base over = fold (\<lambda>(k, v) e. AList.update k v e) over base"

text \<open>\<open>resolveProviderAuthWithSignal\<close> after its abort check. \<open>read\<close> is the answer of the
  credential store.\<close>

definition resolveProviderAuth ::
  "js_runtime \<Rightarrow> rat \<Rightarrow> rat \<Rightarrow> string \<Rightarrow> 'a auth_impl \<Rightarrow> auth_env \<Rightarrow> auth_overrides
     \<Rightarrow> (cause, credential option) result \<Rightarrow> credential option
     \<Rightarrow> credential option \<times> (models_error, 'a option) result" where
  "resolveProviderAuth rt now later p impl ctx ov read current =
     (let ctx1 = (case ov_env ov of Some e \<Rightarrow> overlayEnvAuthContext ctx e | None \<Rightarrow> ctx) in
      case (ov_apiKey ov, api_key_resolve impl) of
        (Some key, Some f) \<Rightarrow>
          (let c = ApiKeyC (Some key) (case ov_env ov of Some e \<Rightarrow> e | None \<Rightarrow> []) in
           (Some c, resolveApiKey rt ctx1 f p (Some c)))
      | _ \<Rightarrow>
          (case read of
             Inl e \<Rightarrow> (None, Inl (ModelsError rt ''auth'' (''Credential store read failed for '' @ p) (Some e)))
           | Inr (Some (OAuthC e t)) \<Rightarrow>
               if has_oauth impl then
                 resolveStoredOAuth rt now later (ov_minValidity ov) p impl (OAuthC e t) current
               else (None, Inr None)
           | Inr (Some (ApiKeyC k env)) \<Rightarrow>
               (case api_key_resolve impl of
                  Some f \<Rightarrow>
                    (let c = ApiKeyC k (case ov_env ov of Some e \<Rightarrow> merge_env env e | None \<Rightarrow> env) in
                     (Some c, resolveApiKey rt ctx1 f p (Some c)))
                | None \<Rightarrow> (None, Inr None))
           | Inr None \<Rightarrow>
               (case api_key_resolve impl of
                  Some f \<Rightarrow> (None, resolveApiKey rt ctx1 f p None)
                | None \<Rightarrow> (None, Inr None))))"

subsection \<open>Properties\<close>

text \<open>C26. A stored OAuth token is used only while it is valid long enough: if the caller asks
  for a minimum validity, the credential from which the authentication is derived outlives
  the clock by that minimum and by five minutes; a token that is already fresh is used as
  it is, without a refresh.\<close>

theorem oauth_valid_long_enough:
  assumes "resolveStoredOAuth rt now later (Some m) p impl stored current = (Some c, Inr (Some a))"
    and "now \<le> later"
  shows "now + m < expires c \<and> now + 5 * 60 * 1000 < expires c \<and> oauth_toAuth impl c = Inr a \<and>
    (now + max (5 * 60 * 1000) m < expires stored \<longrightarrow> c = stored)"
proof -
  have val: "minimum_validity (Some m) = max (5 * 60 * 1000) m"
    by (simp add: minimum_validity_def DEFAULT_OAUTH_MINIMUM_VALIDITY_MS_def)
  have auth: "oauth_toAuth impl d = Inr a" if "oauth_auth rt p impl d = Inr (Some a)" for d
    using that by (auto simp: oauth_auth_def split: sum.splits)
  show ?thesis
  proof (cases "expiresSoon now (Some m) stored")
    case True
    then have "\<not> expiresSoon later (Some m) c" "oauth_auth rt p impl c = Inr (Some a)"
      using assms(1) by (auto simp: resolveStoredOAuth_def Let_def split: sum.splits if_splits option.splits)
    with True auth show ?thesis
      using assms(2) by (auto simp: expiresSoon_def val)
  next
    case False
    then show ?thesis
      using assms(1) auth by (auto simp: resolveStoredOAuth_def expiresSoon_def val)
  qed
qed

definition example_impl :: "string auth_impl" where
  "example_impl = \<lparr>api_key_resolve = None, oauth_refresh = (\<lambda>c. Inr (OAuthC 900000 ''new'')),
     oauth_toAuth = (\<lambda>c. Inr ''auth''), has_oauth = True\<rparr>"

theorem oauth_valid_long_enough_witness:
  "resolveStoredOAuth example_runtime 0 1 (Some 400000) ''p'' example_impl (OAuthC 1000 ''old'')
     (Some (OAuthC 1000 ''old'')) = (Some (OAuthC 900000 ''new''), Inr (Some ''auth'')) \<and>
   (0::rat) + 400000 < expires (OAuthC 900000 ''new'')"
proof
  show *: "resolveStoredOAuth example_runtime 0 1 (Some 400000) ''p'' example_impl (OAuthC 1000 ''old'')
     (Some (OAuthC 1000 ''old'')) = (Some (OAuthC 900000 ''new''), Inr (Some ''auth''))"
    by (simp add: resolveStoredOAuth_def refresh_callback_def oauth_auth_def expiresSoon_def
        minimum_validity_def DEFAULT_OAUTH_MINIMUM_VALIDITY_MS_def is_oauth_def example_impl_def)
  show "(0::rat) + 400000 < expires (OAuthC 900000 ''new'')"
    using oauth_valid_long_enough [OF *] by simp
qed

end
