(* ===== verification/Pi_Stream.thy ===== *)
theory Pi_Stream
  imports Pi_Auth Pi_Messages
begin

text \<open>
  Event streams of the bundled \<open>pi-ai\<close>: \<open>EventStream\<close> (\<open>utils/event-stream.js\<close>), a queue with
  waiting consumers and a final result, and \<open>lazyStream\<close> (\<open>api/lazy.js\<close>), which forwards the
  stream of a provider that is set up asynchronously.
\<close>

subsection \<open>The queue\<close>

record ('e, 'r) stream =
  queue :: "'e list"
  waiting :: "nat list"
  stream_done :: bool
  final :: "'r option"

definition stream_init :: "('e, 'r) stream" where
  "stream_init = \<lparr>queue = [], waiting = [], stream_done = False, final = None\<rparr>"

text \<open>A waiter is answered with an event, or with the end of the stream (None).\<close>

datatype 'e delivery = Delivered nat "'e option"

text \<open>A promise keeps its first resolution.\<close>

definition resolveFinal :: "'r \<Rightarrow> ('e, 'r) stream \<Rightarrow> ('e, 'r) stream" where
  "resolveFinal r s = (case final s of None \<Rightarrow> s\<lparr>final := Some r\<rparr> | Some _ \<Rightarrow> s)"

text \<open>\<open>isComplete\<close> and \<open>extractResult\<close> are the constructor's arguments; an \<open>extractResult\<close> that throws
  (None) leaves \<open>push\<close> after the stream was marked done.\<close>

definition stream_push ::
  "('e \<Rightarrow> bool) \<Rightarrow> ('e \<Rightarrow> 'r option) \<Rightarrow> 'e \<Rightarrow> ('e, 'r) stream \<Rightarrow> ('e, 'r) stream \<times> 'e delivery list" where
  "stream_push isComplete extractResult e s =
     (if stream_done s then (s, [])
      else
        (case (if isComplete e
               then (case extractResult e of
                       None \<Rightarrow> Inl (s\<lparr>stream_done := True\<rparr>)
                     | Some r \<Rightarrow> Inr (resolveFinal r (s\<lparr>stream_done := True\<rparr>)))
               else Inr s) of
           Inl s1 \<Rightarrow> (s1, [])
         | Inr s1 \<Rightarrow>
             (case waiting s1 of
                w # ws \<Rightarrow> (s1\<lparr>waiting := ws\<rparr>, [Delivered w (Some e)])
              | [] \<Rightarrow> (s1\<lparr>queue := queue s1 @ [e]\<rparr>, []))))"

definition stream_end :: "'r option \<Rightarrow> ('e, 'r) stream \<Rightarrow> ('e, 'r) stream \<times> 'e delivery list" where
  "stream_end r s =
     (let s1 = s\<lparr>stream_done := True\<rparr>;
          s2 = (case r of None \<Rightarrow> s1 | Some x \<Rightarrow> resolveFinal x s1)
      in (s2\<lparr>waiting := []\<rparr>, map (\<lambda>w. Delivered w None) (waiting s2)))"

text \<open>A turn of the iterator of consumer \<open>w\<close>.\<close>

definition stream_next :: "nat \<Rightarrow> ('e, 'r) stream \<Rightarrow> ('e, 'r) stream \<times> 'e delivery list" where
  "stream_next w s =
     (case queue s of
        e # es \<Rightarrow> (s\<lparr>queue := es\<rparr>, [Delivered w (Some e)])
      | [] \<Rightarrow>
          if stream_done s then (s, [Delivered w None])
          else (s\<lparr>waiting := waiting s @ [w]\<rparr>, []))"

datatype ('e, 'r) stream_event = Push 'e | End "'r option" | Next nat

definition stream_step ::
  "('e \<Rightarrow> bool) \<Rightarrow> ('e \<Rightarrow> 'r option) \<Rightarrow> ('e, 'r) stream_event \<Rightarrow> ('e, 'r) stream \<Rightarrow> ('e, 'r) stream \<times> 'e delivery list" where
  "stream_step isComplete extractResult ev s =
     (case ev of
        Push e \<Rightarrow> stream_push isComplete extractResult e s
      | End r \<Rightarrow> stream_end r s
      | Next w \<Rightarrow> stream_next w s)"

fun stream_run ::
  "('e \<Rightarrow> bool) \<Rightarrow> ('e \<Rightarrow> 'r option) \<Rightarrow> ('e, 'r) stream_event list \<Rightarrow> ('e, 'r) stream \<Rightarrow> ('e, 'r) stream \<times> 'e delivery list" where
  "stream_run c x [] s = (s, [])"
| "stream_run c x (ev # evs) s =
     (let (s1, as) = stream_step c x ev s; (s2, bs) = stream_run c x evs s1 in (s2, as @ bs))"

subsection \<open>Assistant streams\<close>

datatype assistant_event =
    DoneEvent assistant
  | ErrorEvent assistant
  | PartEvent string

definition ev_isComplete :: "assistant_event \<Rightarrow> bool" where
  "ev_isComplete e = (case e of DoneEvent m \<Rightarrow> True | ErrorEvent m \<Rightarrow> True | PartEvent p \<Rightarrow> False)"

fun ev_extractResult :: "assistant_event \<Rightarrow> assistant option" where
  "ev_extractResult (DoneEvent m) = Some m"
| "ev_extractResult (ErrorEvent m) = Some m"
| "ev_extractResult (PartEvent p) = None"

text \<open>The two functions agree on which events carry a result.\<close>

lemma complete_has_result [simp]: "ev_isComplete e \<Longrightarrow> ev_extractResult e \<noteq> None"
  by (cases e) (simp_all add: ev_isComplete_def)

definition createSetupErrorMessage :: "js_runtime \<Rightarrow> rat \<Rightarrow> model \<Rightarrow> cause \<Rightarrow> assistant" where
  "createSetupErrorMessage rt now m err =
     \<lparr>a_content = [], a_provider = model_provider m, a_api = model_api m, a_model = model_id m,
      stopReason = ''error'',
      errorMessage = Some (case err of ErrorCause n msg \<Rightarrow> msg | ValueCause v \<Rightarrow> js_String rt v),
      a_usage = no_usage, a_timestamp = now\<rparr>"

text \<open>What the set-up gives: a failure; or an inner stream whose events are iterated, which then
  throws or ends with its result (None when it has none).\<close>

datatype inner_stream =
    SetupFailed cause
  | InnerThrew "assistant_event list" cause
  | InnerEnded "assistant_event list" "assistant option"

definition error_ops :: "assistant \<Rightarrow> (assistant_event, assistant) stream_event list" where
  "error_ops msg = [Push (ErrorEvent msg), End (Some msg)]"

text \<open>What \<open>lazyStream\<close> does to the outer stream.\<close>

definition lazyStream ::
  "js_runtime \<Rightarrow> rat \<Rightarrow> model \<Rightarrow> inner_stream \<Rightarrow> (assistant_event, assistant) stream_event list" where
  "lazyStream rt now m inner =
     (case inner of
        SetupFailed e \<Rightarrow> error_ops (createSetupErrorMessage rt now m e)
      | InnerThrew es e \<Rightarrow> map Push es @ error_ops (createSetupErrorMessage rt now m e)
      | InnerEnded es r \<Rightarrow> map Push es @ [End r])"

subsection \<open>Properties\<close>

text \<open>The events a stream accepts: those pushed until the first complete one or the end.\<close>

fun accepted_events :: "('e \<Rightarrow> bool) \<Rightarrow> bool \<Rightarrow> ('e, 'r) stream_event list \<Rightarrow> 'e list" where
  "accepted_events c d [] = []"
| "accepted_events c d (Push e # evs) = (if d then accepted_events c d evs else e # accepted_events c (c e) evs)"
| "accepted_events c d (End r # evs) = accepted_events c True evs"
| "accepted_events c d (Next w # evs) = accepted_events c d evs"

fun delivered :: "'e delivery list \<Rightarrow> 'e list" where
  "delivered [] = []"
| "delivered (Delivered w (Some e) # ds) = e # delivered ds"
| "delivered (Delivered w None # ds) = delivered ds"

lemma delivered_append [simp]: "delivered (xs @ ys) = delivered xs @ delivered ys"
  by (induction xs rule: delivered.induct) auto

lemma delivered_ends [simp]: "delivered (map (\<lambda>w. Delivered w None) ws) = []"
  by (induction ws) auto

lemma resolveFinal_keeps [simp]:
  "queue (resolveFinal r s) = queue s" "waiting (resolveFinal r s) = waiting s"
  "stream_done (resolveFinal r s) = stream_done s"
  by (simp_all add: resolveFinal_def split: option.split)

text \<open>Nobody waits while events are queued.\<close>

definition stream_inv :: "('e, 'r) stream \<Rightarrow> bool" where
  "stream_inv s \<longleftrightarrow> queue s = [] \<or> waiting s = []"

lemma stream_run_exact:
  "(\<And>e. c e \<Longrightarrow> x e \<noteq> None) \<Longrightarrow> stream_inv s \<Longrightarrow> stream_run c x evs s = (s', ds) \<Longrightarrow>
   stream_inv s' \<and> queue s @ accepted_events c (stream_done s) evs = delivered ds @ queue s'"
proof (induction evs arbitrary: s ds)
  case (Cons ev evs)
  obtain s1 as where step: "stream_step c x ev s = (s1, as)"
    by (cases "stream_step c x ev s")
  obtain bs where run: "stream_run c x evs s1 = (s', bs)" "ds = as @ bs"
    using Cons.prems(3) step by (cases "stream_run c x evs s1") simp
  have inv: "stream_inv s1"
    using Cons.prems(1,2) step
    by (cases ev) (auto simp: stream_step_def stream_push_def stream_end_def stream_next_def stream_inv_def
        Let_def split: list.splits if_splits option.splits)
  have "queue s @ accepted_events c (stream_done s) (ev # evs) =
      delivered as @ queue s1 @ accepted_events c (stream_done s1) evs"
    using Cons.prems(1,2) step
    by (cases ev) (auto dest: Cons.prems(1) simp: stream_step_def stream_push_def stream_end_def stream_next_def stream_inv_def
        Let_def split: list.splits if_splits option.splits)
  with Cons.IH [OF Cons.prems(1) inv run(1)] show ?case by (simp add: run(2))
qed simp

text \<open>C27. A stream delivers exactly the events it accepts, each once and in the order they were
  pushed, however pushes and reads interleave: what the consumers have received followed by
  what is queued is what was pushed up to the first final event or the end.\<close>

theorem stream_exact:
  assumes "\<And>e. isComplete e \<Longrightarrow> extractResult e \<noteq> None"
    and "stream_run isComplete extractResult evs stream_init = (s, ds)"
  shows "accepted_events isComplete False evs = delivered ds @ queue s \<and> (waiting s \<noteq> [] \<longrightarrow> queue s = [])"
  using stream_run_exact [OF assms(1) _ assms(2)] by (auto simp: stream_init_def stream_inv_def)

theorem stream_exact_witness:
  "\<exists>s ds. stream_run ev_isComplete ev_extractResult [Next 1, Push (PartEvent ''a''), Push (PartEvent ''b'')] stream_init = (s, ds) \<and>
     delivered ds = [PartEvent ''a''] \<and> queue s = [PartEvent ''b'']"
  using stream_exact [where isComplete = ev_isComplete, OF complete_has_result surjective_pairing,
      where evs = "[Next 1, Push (PartEvent ''a''), Push (PartEvent ''b'')]"]
  by (simp add: stream_step_def stream_push_def stream_next_def stream_init_def ev_isComplete_def)

lemma final_settled: "final s = Some r \<Longrightarrow> final (fst (stream_run c x evs s)) = Some r"
proof (induction evs arbitrary: s)
  case (Cons ev evs)
  have "final (fst (stream_step c x ev s)) = Some r"
    using Cons.prems
    by (cases ev) (auto simp: stream_step_def stream_push_def stream_end_def stream_next_def resolveFinal_def
        Let_def split: list.splits if_splits option.splits)
  then show ?case
    using Cons.IH by (simp add: case_prod_beta Let_def)
qed simp

lemma push_all:
  assumes "\<And>e. c e \<Longrightarrow> x e \<noteq> None" "\<not> stream_done s" "final s = None"
  shows "final (fst (stream_run c x (map Push es) s)) = Option.bind (find c es) x \<and>
    stream_done (fst (stream_run c x (map Push es) s)) = (\<exists>e \<in> set es. c e)"
  using assms(2,3)
proof (induction es arbitrary: s)
  case (Cons e es)
  let ?s1 = "fst (stream_step c x (Push e) s)"
  show ?case
  proof (cases "c e")
    case True
    then obtain r where r: "x e = Some r" using assms(1) by blast
    have s1: "final ?s1 = Some r" "stream_done ?s1"
      using Cons.prems True r
      by (simp_all add: stream_step_def stream_push_def resolveFinal_def Let_def split: list.split)
    have "fst (stream_run c x (map Push es) t) = t" if "stream_done t" for t
      using that by (induction es arbitrary: t) (simp_all add: stream_step_def stream_push_def)
    with s1 True r show ?thesis by (simp add: case_prod_beta Let_def)
  next
    case False
    then have "\<not> stream_done ?s1" "final ?s1 = None"
      using Cons.prems by (simp_all add: stream_step_def stream_push_def Let_def split: list.split)
    with False show ?thesis
      using Cons.IH [of ?s1] by (simp add: case_prod_beta Let_def)
  qed
qed simp

lemma stream_run_append:
  "stream_run c x (as @ bs) s =
     (let (s1, xs) = stream_run c x as s; (s2, ys) = stream_run c x bs s1 in (s2, xs @ ys))"
  by (induction as arbitrary: s) (simp_all add: case_prod_beta Let_def)

text \<open>A lazily set up stream always ends with a result when the provider fails: if the set-up
  or the iteration of the inner stream throws before a final event, the stream's result is
  an assistant message with stop reason \<open>error\<close> for the model of the call; a final event
  that came first decides the result.\<close>

theorem lazy_failure_reported:
  assumes "inner = SetupFailed e \<and> es = [] \<or> inner = InnerThrew es e"
  shows "final (fst (stream_run ev_isComplete ev_extractResult (lazyStream rt now m inner) stream_init)) =
    Some (case find ev_isComplete es of
       Some (DoneEvent msg) \<Rightarrow> msg
     | Some (ErrorEvent msg) \<Rightarrow> msg
     | _ \<Rightarrow> createSetupErrorMessage rt now m e)"
proof -
  let ?msg = "createSetupErrorMessage rt now m e"
  let ?run = "\<lambda>ops s. fst (stream_run ev_isComplete ev_extractResult ops s)"
  have ops: "lazyStream rt now m inner = map Push es @ error_ops ?msg"
    using assms by (auto simp: lazyStream_def)
  let ?s = "?run (map Push es) stream_init"
  have s: "final ?s = Option.bind (find ev_isComplete es) ev_extractResult"
      "stream_done ?s = (\<exists>ev \<in> set es. ev_isComplete ev)"
    using push_all [where c = ev_isComplete and s = stream_init, OF complete_has_result] by (simp_all add: stream_init_def)
  have "final (?run (error_ops ?msg) ?s) = Some (case find ev_isComplete es of
       Some (DoneEvent msg) \<Rightarrow> msg | Some (ErrorEvent msg) \<Rightarrow> msg | _ \<Rightarrow> ?msg)"
  proof (cases "find ev_isComplete es")
    case (Some ev)
    moreover have "ev_isComplete ev" using Some by (auto simp: find_Some_iff)
    ultimately show ?thesis
      using s(1) by (cases ev) (simp_all add: final_settled ev_isComplete_def)
  next
    case None
    then have "final ?s = None" using s(1) by simp
    moreover have "\<not> stream_done ?s" using s(2) None by (auto simp: find_None_iff)
    ultimately show ?thesis
      using None by (simp add: error_ops_def stream_step_def stream_push_def stream_end_def resolveFinal_def
          ev_isComplete_def Let_def split: list.split)
  qed
  then show ?thesis
    unfolding ops stream_run_append by (simp add: case_prod_beta Let_def)
qed

theorem lazy_failure_reported_witness:
  "final (fst (stream_run ev_isComplete ev_extractResult
      (lazyStream example_runtime 0 example_model (SetupFailed (ErrorCause ''Error'' ''no key''))) stream_init)) =
    Some (createSetupErrorMessage example_runtime 0 example_model (ErrorCause ''Error'' ''no key''))"
  using lazy_failure_reported [of "SetupFailed (ErrorCause ''Error'' ''no key'')" "ErrorCause ''Error'' ''no key''" "[]"]
  by simp

end
