(* ===== verification/Pi_Failure.thy ===== *)
theory Pi_Failure
  imports Pi_Models Pi_Auth Pi_Estimate
begin

text \<open>
  The model calls of \<open>drivers/tools/pibridge/bridge.ts\<close>: the error frames of \<open>failure\<close>, the
  choice of the model, the checks of images, what is learned from a failed HTTP response, and
  the result frame of \<open>generate\<close>. The provider's stream is the environment: \<open>generate\<close> is
  given the message it ends with.
\<close>

subsection \<open>Thrown values and frames\<close>

text \<open>An error object with its name, message, whether it is a \<open>BridgeValidationError\<close>, and its
  other properties; or any other value.\<close>

datatype bridge_error =
    ErrorT string string bool "(string \<times> json) list"
  | ValueT jsval

definition plain_error :: "string \<Rightarrow> bridge_error" where
  "plain_error msg = ErrorT ''Error'' msg False []"

definition BridgeValidationError :: "string \<Rightarrow> bridge_error" where
  "BridgeValidationError msg = ErrorT ''Error'' msg True []"

definition TypeError :: "js_runtime \<Rightarrow> bridge_error" where
  "TypeError rt = ErrorT ''TypeError'' (engineMessage rt) False []"

fun error_prop :: "bridge_error \<Rightarrow> string \<Rightarrow> jsval" where
  "error_prop (ErrorT n m v ps) k = map_of ps k"
| "error_prop (ValueT v) k = ojget v k"

fun error_name :: "bridge_error \<Rightarrow> string" where
  "error_name (ErrorT n m v ps) = n"
| "error_name (ValueT v) = ''Error''"

fun error_message :: "js_runtime \<Rightarrow> bridge_error \<Rightarrow> string" where
  "error_message rt (ErrorT n m v ps) = m"
| "error_message rt (ValueT v) = js_String rt v"

fun is_validation :: "bridge_error \<Rightarrow> bool" where
  "is_validation (ErrorT n m v ps) = v"
| "is_validation (ValueT v) = False"

record err_frame =
  ef_id :: string
  ef_code :: string
  ef_status :: "rat option"
  ef_provider_code :: "string option"
  ef_retry_after_ms :: jsval
  ef_detail :: string

definition integer_status :: "jsval \<Rightarrow> rat option" where
  "integer_status v = (case v of Some (JNum q) \<Rightarrow> if isInteger (Num q) then Some q else None | _ \<Rightarrow> None)"

definition token_of :: "jsval \<Rightarrow> string option" where
  "token_of v = (case v of Some (JStr s) \<Rightarrow> if safe_token s then Some s else None | _ \<Rightarrow> None)"

text \<open>The class of an HTTP status; None when it says nothing.\<close>

definition status_code :: "rat option \<Rightarrow> string option" where
  "status_code st =
     (case st of
        None \<Rightarrow> None
      | Some s \<Rightarrow>
          if s = 429 then Some ''rate_limited''
          else if s = 401 then Some ''auth''
          else if s = 403 then Some ''permission''
          else if s = 404 then Some ''model_not_found''
          else if s = 400 \<or> s = 422 then Some ''invalid_args''
          else if s = 408 \<or> s = 409 \<or> s \<ge> 500 then Some ''transient_provider''
          else None)"

definition base_code :: "js_runtime \<Rightarrow> string \<Rightarrow> bridge_error \<Rightarrow> string" where
  "base_code rt op e =
     (if error_name e = ''AbortError'' then ''cancelled''
      else if prefix ''unknown or ambiguous model'' (error_message rt e) then ''model_not_found''
      else if prefix ''Validation failed for tool'' (error_message rt e) then ''invalid_args''
      else if prefix ''workspace.'' op then ''tool_failed'' else ''provider_error'')"

definition generate_code :: "js_runtime \<Rightarrow> bridge_error \<Rightarrow> string" where
  "generate_code rt e =
     (let code0 = base_code rt ''llm.generate'' e;
          code1 =
            (if code0 = ''provider_error'' then
               (if error_prop e ''code'' = Some (JStr ''cancelled'') then ''cancelled''
                else if error_prop e ''code'' = Some (JStr ''transport_error'') then ''transport_error''
                else (case status_code (integer_status (error_prop e ''status'')) of
                        Some c \<Rightarrow> c | None \<Rightarrow> ''unknown_provider_error''))
             else code0)
      in if is_validation e then ''invalid_args'' else code1)"

definition failure :: "js_runtime \<Rightarrow> string \<Rightarrow> string \<Rightarrow> bridge_error \<Rightarrow> err_frame" where
  "failure rt i op e =
     (if op = ''llm.generate'' then
        (let code = generate_code rt e in
         \<lparr>ef_id = i, ef_code = code, ef_status = integer_status (error_prop e ''status''),
          ef_provider_code = token_of (error_prop e ''code''),
          ef_retry_after_ms = error_prop e ''retryAfterMS'',
          ef_detail =
            (if is_validation e then error_message rt e
             else ''Provider request failed ('' @ code @ ''); raw provider text is not exposed'')\<rparr>)
      else
        \<lparr>ef_id = i, ef_code = base_code rt op e, ef_status = None, ef_provider_code = None,
         ef_retry_after_ms = None, ef_detail = error_message rt e\<rparr>)"

subsection \<open>Facts of a failed response\<close>

text \<open>The chunks of a response body, and whether a read failed after them.\<close>

record response_body =
  body_chunks :: "nat list list"
  read_fails :: bool

text \<open>The bytes kept while reading; None as soon as more than 64 KiB have arrived.\<close>

fun read_chunks :: "nat list list \<Rightarrow> nat \<Rightarrow> nat list list \<Rightarrow> nat list list option" where
  "read_chunks [] len kept = Some kept"
| "read_chunks (c # cs) len kept =
     (if len + length c > 65536 then None else read_chunks cs (len + length c) (kept @ [c]))"

text \<open>\<open>parse\<close> is \<open>JSON.parse\<close> of the bytes decoded as UTF-8.\<close>

definition errorCode :: "(nat list \<Rightarrow> json option) \<Rightarrow> response_body option \<Rightarrow> string option" where
  "errorCode parse response =
     (case response of
        None \<Rightarrow> None
      | Some r \<Rightarrow>
          (case read_chunks (body_chunks r) 0 [] of
             None \<Rightarrow> None
           | Some chunks \<Rightarrow>
               (if read_fails r then None
                else
                  (case parse (concat chunks) of
                     None \<Rightarrow> None
                   | Some body \<Rightarrow>
                       token_of (js_coalesce (js_coalesce (ojget (jget body ''error'') ''code'')
                         (ojget (jget body ''error'') ''type'')) (jget body ''code''))))))"

record failure_info =
  fi_status :: "rat option"
  fi_retryAfterMS :: "rat option"
  fi_code :: "string option"

text \<open>The delay of the retry headers: \<open>Number\<close> of a header, an HTTP date by \<open>date_parse\<close>; an
  invalid or negative delay is dropped and a fraction rounded up.\<close>

definition header_delay :: "(string \<Rightarrow> jsnum) \<Rightarrow> rat \<Rightarrow> string option \<Rightarrow> string option \<Rightarrow> jsnum option" where
  "header_delay date_parse now milliseconds after =
     (let seconds = (\<lambda>s. case js_Number s of Num q \<Rightarrow> Num (q * 1000)
            | _ \<Rightarrow> (case date_parse s of Num t \<Rightarrow> Num (t - now) | n \<Rightarrow> n)) in
      case milliseconds of
        Some s \<Rightarrow> if s \<noteq> '''' then Some (js_Number s)
          else (case after of Some a \<Rightarrow> if a \<noteq> '''' then Some (seconds a) else None | None \<Rightarrow> None)
      | None \<Rightarrow> (case after of Some a \<Rightarrow> if a \<noteq> '''' then Some (seconds a) else None | None \<Rightarrow> None))"

definition retry_delay :: "jsnum option \<Rightarrow> rat option" where
  "retry_delay d = (case d of Some (Num q) \<Rightarrow> if q < 0 then None else Some (js_ceil q) | _ \<Rightarrow> None)"

datatype fetch_outcome =
    FetchOk
  | FetchFailed rat "string option" "string option" "response_body option"
  | FetchThrew bool

text \<open>The wrapper of \<open>fetch\<close>: what the last request taught.\<close>

definition capture_failure ::
  "(nat list \<Rightarrow> json option) \<Rightarrow> (string \<Rightarrow> jsnum) \<Rightarrow> rat \<Rightarrow> fetch_outcome \<Rightarrow> failure_info option \<Rightarrow> failure_info option" where
  "capture_failure parse date_parse now r fi =
     (case r of
        FetchOk \<Rightarrow> fi
      | FetchFailed st ms after body \<Rightarrow>
          Some \<lparr>fi_status = Some st, fi_retryAfterMS = retry_delay (header_delay date_parse now ms after),
            fi_code = errorCode parse body\<rparr>
      | FetchThrew aborted \<Rightarrow>
          Some \<lparr>fi_status = None, fi_retryAfterMS = None,
            fi_code = Some (if aborted then ''cancelled'' else ''transport_error'')\<rparr>)"

subsection \<open>The model of a request\<close>

definition string_or_empty :: "jsval \<Rightarrow> string" where
  "string_or_empty v = (case v of Some (JStr s) \<Rightarrow> s | _ \<Rightarrow> '''')"

definition resolveModel :: "registry \<Rightarrow> jsval \<Rightarrow> jsval \<Rightarrow> model option" where
  "resolveModel models provider modelId =
     (let p0 = string_or_empty provider;
          m0 = string_or_empty modelId;
          (p, m) = (if p0 = '''' then
             (case indexOf m0 ''/'' of Some i \<Rightarrow> (slice 0 i m0, drop (Suc i) m0) | None \<Rightarrow> (p0, m0))
           else (p0, m0))
      in if p \<noteq> '''' \<and> m \<noteq> '''' then getModel models p m
         else if m \<noteq> '''' then
           (case filter (\<lambda>v. model_id v = m) (getModels models None) of [v] \<Rightarrow> Some v | _ \<Rightarrow> None)
         else None)"

subsection \<open>Images\<close>

definition base64_char :: "char \<Rightarrow> bool" where
  "base64_char c = (is_digit c \<or> 65 \<le> code c \<and> code c \<le> 90 \<or> 97 \<le> code c \<and> code c \<le> 122 \<or>
     c = CHR ''+'' \<or> c = CHR ''/'')"

text \<open>\<open>/^[A-Za-z0-9+\/]*={0,2}$/\<close>, and the size of what \<open>Buffer.from(s, "base64")\<close> decodes.\<close>

definition base64_text :: "string \<Rightarrow> bool" where
  "base64_text s = (dropWhile base64_char s \<in> {[], ''='', ''==''})"

definition base64_byteLength :: "string \<Rightarrow> nat" where
  "base64_byteLength s = length (takeWhile (\<lambda>c. c \<noteq> CHR ''='') s) * 3 div 4"

definition IMAGE_TYPES :: "string list" where
  "IMAGE_TYPES = [''image/png'', ''image/jpeg'', ''image/gif'', ''image/webp'']"

definition valid_image :: "json \<Rightarrow> bool" where
  "valid_image b =
     (case (jget b ''data'', jget b ''mimeType'') of
        (Some (JStr d), Some (JStr mime)) \<Rightarrow>
          length d mod 4 = 0 \<and> base64_text d \<and> base64_byteLength d \<le> 10 * 1024 * 1024 \<and> mime \<in> set IMAGE_TYPES
      | _ \<Rightarrow> False)"

definition content_blocks :: "json \<Rightarrow> json list" where
  "content_blocks msg = (case jget msg ''content'' of Some (JArr bs) \<Rightarrow> bs | _ \<Rightarrow> [])"

definition request_images :: "js_runtime \<Rightarrow> json \<Rightarrow> (bridge_error, json list) result" where
  "request_images rt args =
     (case js_or (jget args ''messages'') (Some (JArr [])) of
        Some (JArr ms) \<Rightarrow> Inr (filter (\<lambda>b. jget b ''type'' = Some (JStr ''image'')) (concat (map content_blocks ms)))
      | _ \<Rightarrow> Inl (TypeError rt))"

definition check_images :: "js_runtime \<Rightarrow> model \<Rightarrow> json \<Rightarrow> (bridge_error, unit) result" where
  "check_images rt m args =
     (case request_images rt args of
        Inl e \<Rightarrow> Inl e
      | Inr images \<Rightarrow>
          if images \<noteq> [] \<and> (''image'' \<notin> set (model_input m) \<or>
              ojget (jget args ''options'') ''faux_supports_images'' = Some (JBool False))
          then Inl (BridgeValidationError ''model does not support image input'')
          else if list_all valid_image images then Inr ()
          else Inl (BridgeValidationError ''tool image is invalid, unsupported, or exceeds the 10 MiB decoded limit''))"

subsection \<open>\<open>generate\<close>\<close>

text \<open>The scripted answer given to the \<open>faux\<close> provider: a tool call (name, arguments, id) or a
  text.\<close>

datatype faux_script = FauxToolCall string jsval jsval | FauxText jsval

definition faux_answer :: "json \<Rightarrow> faux_script" where
  "faux_answer args =
     (let tool = ojget (jget args ''options'') ''faux_tool_call'' in
      case ojget tool ''name'' of
        Some (JStr name) \<Rightarrow> FauxToolCall name (js_or (ojget tool ''arguments'') (Some (JObj []))) (ojget tool ''id'')
      | _ \<Rightarrow> FauxText (js_or (ojget (jget args ''options'') ''faux_response'') (Some (JStr ''faux response''))))"

text \<open>The properties of \<open>{ ...(args.options || {}) }\<close>; spreading a value that is no object
  gives none (an array and a string would give their indices).\<close>

definition spread_options :: "json \<Rightarrow> (string \<times> json) list" where
  "spread_options args = (case jget args ''options'' of Some (JObj ps) \<Rightarrow> AList.clearjunk ps | _ \<Rightarrow> [])"

definition request_options :: "json \<Rightarrow> (string \<times> json) list" where
  "request_options args =
     (let o1 = AList.update ''maxRetries'' (JNum 0) (spread_options args);
          o2 = (case jget args ''api_key'' of
                  Some (JStr k) \<Rightarrow> if k \<noteq> '''' then AList.update ''apiKey'' (JStr k) o1 else o1
                | _ \<Rightarrow> o1)
      in AList.delete ''faux_supports_images'' (AList.delete ''faux_tool_call'' (AList.delete ''faux_response'' o2)))"

text \<open>Adapters that take a \<open>fetch\<close> of their own.\<close>

definition captures_fetch :: "model \<Rightarrow> bool" where
  "captures_fetch m = (model_api m \<in> {''anthropic-messages'', ''openai-completions'', ''openai-responses''})"

record prepared_call =
  call_model :: model
  call_faux :: "faux_script option"
  call_options :: "(string \<times> json) list"
  call_capture :: bool

definition generate_prepare :: "js_runtime \<Rightarrow> registry \<Rightarrow> json \<Rightarrow> (bridge_error, prepared_call) result" where
  "generate_prepare rt models args =
     (case resolveModel models (jget args ''provider'') (jget args ''model'') of
        None \<Rightarrow> Inl (plain_error (''unknown or ambiguous model '' @
            js_String rt (js_or (jget args ''provider'') (Some (JStr ''''))) @ ''/'' @
            js_String rt (js_or (jget args ''model'') (Some (JStr '''')))))
      | Some m \<Rightarrow>
          (case check_images rt m args of
             Inl e \<Rightarrow> Inl e
           | Inr _ \<Rightarrow>
               Inr \<lparr>call_model = m,
                    call_faux = (if model_provider m = ''faux'' then Some (faux_answer args) else None),
                    call_options = request_options args,
                    call_capture = captures_fetch m\<rparr>))"

text \<open>The message a stream ends with, and the diagnostics an adapter may have attached to it.\<close>

record stream_message =
  final_message :: assistant
  diagnostics :: "diagnostic_error list"

record usage_report =
  ur_model :: string
  ur_provider :: string
  ur_effort :: "string option"
  ur_input :: rat
  ur_output :: rat
  ur_cache_read :: rat
  ur_cache_write :: rat
  ur_total :: rat
  ur_context_tokens :: rat
  ur_context_window :: rat
  ur_cost :: usage_cost

definition report_usage :: "model \<Rightarrow> json \<Rightarrow> usage \<Rightarrow> usage_report" where
  "report_usage m args u =
     \<lparr>ur_model = model_id m, ur_provider = model_provider m,
      ur_effort = (case ojget (jget args ''options'') ''thinkingLevel'' of Some (JStr l) \<Rightarrow> Some l | _ \<Rightarrow> None),
      ur_input = tok_input u, ur_output = tok_output u, ur_cache_read = tok_cacheRead u,
      ur_cache_write = tok_cacheWrite u, ur_total = calculateContextTokens u,
      ur_context_tokens = tok_input u + tok_cacheRead u + tok_cacheWrite u,
      ur_context_window = contextWindow m, ur_cost = usage_cost u\<rparr>"

record failed_call =
  error_code :: string
  retryable :: bool
  provider_status :: "rat option"
  provider_code :: "string option"
  retry_after_ms :: "rat option"

record generated =
  g_provider :: string
  g_model :: string
  g_message :: stream_message
  g_usage :: usage_report
  g_failure :: "failed_call option"

definition result_code :: "assistant \<Rightarrow> bool \<Rightarrow> bool \<Rightarrow> failure_info option \<Rightarrow> string" where
  "result_code msg overflow recoverableLength fi =
     (if stopReason msg = ''aborted'' then ''cancelled''
      else if overflow then ''context_overflow''
      else if recoverableLength then ''length_recoverable''
      else (case status_code (Option.bind fi fi_status) of
              Some c \<Rightarrow> c
            | None \<Rightarrow> if Option.bind fi fi_code = Some ''transport_error'' then ''transport_error''
                else ''unknown_provider_error''))"

definition result_retryable :: "assistant \<Rightarrow> bool \<Rightarrow> bool \<Rightarrow> failure_info option \<Rightarrow> bool" where
  "result_retryable msg overflow recoverableLength fi =
     (overflow \<or> recoverableLength \<or> isRetryableAssistantError msg \<or>
      (case Option.bind fi fi_status of None \<Rightarrow> False | Some s \<Rightarrow> s = 408 \<or> s = 409 \<or> s = 429 \<or> s \<ge> 500))"

definition generate_result :: "model \<Rightarrow> json \<Rightarrow> stream_message \<Rightarrow> failure_info option \<Rightarrow> generated" where
  "generate_result m args sm fi =
     (let msg = final_message sm;
          usage = report_usage m args (a_usage msg);
          overflow = isContextOverflow msg (contextWindow m);
          recoverableLength = isRecoverableLength msg (maxTokens m)
      in if stopReason msg = ''error'' \<or> stopReason msg = ''aborted'' \<or> overflow \<or> recoverableLength then
           (let code = result_code msg overflow recoverableLength fi;
                safeMessage = sm\<lparr>final_message := msg\<lparr>
                  a_content := (if code = ''context_overflow'' then a_content msg else []),
                  errorMessage := Some (''Provider request failed ('' @ code @ '')'')\<rparr>\<rparr>
            in \<lparr>g_provider = model_provider m, g_model = model_id m, g_message = safeMessage, g_usage = usage,
                g_failure = Some \<lparr>error_code = code, retryable = result_retryable msg overflow recoverableLength fi,
                  provider_status = Option.bind fi fi_status, provider_code = Option.bind fi fi_code,
                  retry_after_ms = Option.bind fi fi_retryAfterMS\<rparr>\<rparr>)
         else \<lparr>g_provider = model_provider m, g_model = model_id m, g_message = sm, g_usage = usage, g_failure = None\<rparr>)"

subsection \<open>Properties\<close>

definition failure_codes :: "string list" where
  "failure_codes = [''cancelled'', ''model_not_found'', ''invalid_args'', ''rate_limited'', ''auth'', ''permission'',
     ''transient_provider'', ''transport_error'', ''unknown_provider_error'']"

lemma status_code_known: "status_code st = Some c \<Longrightarrow> c \<in> set failure_codes"
  by (auto simp: status_code_def failure_codes_def split: option.splits if_splits)

lemma generate_code_known: "generate_code rt e \<in> set failure_codes"
proof -
  have "base_code rt ''llm.generate'' e \<in> {''cancelled'', ''model_not_found'', ''invalid_args'', ''provider_error''}"
    by (simp add: base_code_def)
  moreover have "(case status_code st of Some c \<Rightarrow> c | None \<Rightarrow> ''unknown_provider_error'') \<in> set failure_codes" for st
    using status_code_known [of st] by (cases "status_code st") (simp_all add: failure_codes_def)
  moreover have "{''cancelled'', ''model_not_found'', ''invalid_args'', ''transport_error''} \<subseteq> set failure_codes"
    by (simp add: failure_codes_def)
  ultimately show ?thesis
    unfolding generate_code_def Let_def by auto
qed

lemma token_of_safe: "token_of v = Some s \<Longrightarrow> safe_token s"
  by (auto simp: token_of_def split: option.splits json.splits if_splits)



lemma read_chunks_bound:
  "read_chunks cs len kept = Some ks \<Longrightarrow> len = length (concat kept) \<Longrightarrow>
   ks = kept @ cs \<and> length (concat ks) \<le> max 65536 len"
proof (induction cs arbitrary: len kept)
  case (Cons c cs)
  then have step: "read_chunks cs (len + length c) (kept @ [c]) = Some ks" and le: "len + length c \<le> 65536"
    by (auto split: if_splits)
  have "len + length c = length (concat (kept @ [c]))"
    using Cons.prems(2) by simp
  from Cons.IH [OF step this] le show ?case by auto
qed simp

text \<open>Reading the code of a failed response is bounded: a code is returned only when the
  whole body was read and is at most 64 KiB, and it is a short token.\<close>

lemma errorCode_bounded:
  assumes "errorCode parse (Some r) = Some c"
  shows "length (concat (body_chunks r)) \<le> 65536 \<and> \<not> read_fails r \<and> safe_token c"
proof -
  from assms obtain ks where ks: "read_chunks (body_chunks r) 0 [] = Some ks"
    by (auto simp: errorCode_def split: option.splits)
  with assms have "\<not> read_fails r" "safe_token c"
    by (auto simp: errorCode_def dest: token_of_safe split: option.splits if_splits)
  with read_chunks_bound [OF ks] show ?thesis by (auto simp del: length_concat)
qed



subsection \<open>Which model answers\<close>

lemma slash_absent: "c \<notin> set s \<Longrightarrow> indexOf s [c] = None"
  by (auto simp: indexOf_None_iff sublist_def)

text \<open>A model name without a provider is answered exactly when one model of the whole
  catalogue has that id, and by that model; \<open>provider/id\<close> is split at its first slash.\<close>

theorem resolve_unambiguous:
  assumes "CHR ''/'' \<notin> set p" "p \<noteq> []" "m \<noteq> []"
  shows "resolveModel models None (Some (JStr (p @ ''/'' @ m))) = getModel models p m \<and>
    (resolveModel models None (Some (JStr p)) = Some v) =
      (filter (\<lambda>w. model_id w = p) (getModels models None) = [v])"
  using assms indexOf_fresh_char [OF assms(1), of m]
  by (simp add: resolveModel_def string_or_empty_def slice_0 slash_absent split: list.split)

theorem resolve_unambiguous_witness:
  "CHR ''/'' \<notin> set ''faux'' \<and>
   resolveModel registry_init None (Some (JStr (''faux'' @ ''/'' @ ''a/b''))) = getModel registry_init ''faux'' ''a/b''"
proof -
  have "CHR ''/'' \<notin> set ''faux''" by simp
  from resolve_unambiguous [OF this, of "''a/b''" registry_init] show ?thesis by simp
qed

end
