(* ===== verification/Pi_Bridge.thy ===== *)
theory Pi_Bridge
  imports Pi_Failure Promise_Chain
begin

text \<open>
  The bridge process (\<open>drivers/tools/pibridge/bridge.ts\<close>): the environment of workspace tools,
  their serialisation by \<open>withWorkspaceEnvironment\<close>, and the frame loop of \<open>handle\<close> with its
  table of active requests. Streams and tools are the environment: they settle when an event
  says so. The argument checker of the bundled agent and the file system's access check are
  arguments.
\<close>

type_synonym env = "(string \<times> string) list"

subsection \<open>Environment names and tools\<close>

record platform =
  win32 :: bool
  delimiter :: char
  can_execute :: "string \<Rightarrow> string \<Rightarrow> bool"

definition toUpperCase :: "string \<Rightarrow> string" where
  "toUpperCase s = map upper s"

definition environmentValue :: "platform \<Rightarrow> env \<Rightarrow> string \<Rightarrow> string option" where
  "environmentValue pf shellEnv name =
     (if \<not> win32 pf then map_of shellEnv name
      else (case find (\<lambda>key. toUpperCase key = toUpperCase name) (map fst shellEnv) of
              None \<Rightarrow> None
            | Some found \<Rightarrow> map_of shellEnv found))"

fun duplicate_name :: "string list \<Rightarrow> string set \<Rightarrow> string option" where
  "duplicate_name [] folded = None"
| "duplicate_name (key # ks) folded =
     (if toUpperCase key \<in> folded then Some key else duplicate_name ks (insert (toUpperCase key) folded))"

definition normalizeEnvironmentNames :: "platform \<Rightarrow> env \<Rightarrow> (bridge_error, env) result" where
  "normalizeEnvironmentNames pf shellEnv =
     (if \<not> win32 pf then Inr shellEnv
      else (case duplicate_name (map fst shellEnv) {} of
              Some key \<Rightarrow> Inl (BridgeValidationError (''duplicate Windows environment name '' @ key))
            | None \<Rightarrow> Inr shellEnv))"

definition executableAvailable :: "platform \<Rightarrow> string \<Rightarrow> env \<Rightarrow> bool" where
  "executableAvailable pf name shellEnv =
     (let or_default = (\<lambda>v d. case v of Some s \<Rightarrow> if s \<noteq> '''' then s else d | None \<Rightarrow> d);
          extensions = (if win32 pf
             then split_on (CHR '';'') (or_default (environmentValue pf shellEnv ''PATHEXT'') ''.EXE;.CMD;.BAT;.COM'')
             else ['''']);
          dirs = split_on (delimiter pf) (or_default (environmentValue pf shellEnv ''PATH'') '''')
      in list_ex (\<lambda>dir. list_ex (\<lambda>ext. can_execute pf dir (name @ ext)) extensions) dirs)"

text \<open>The shell configuration that \<open>prepare\<close> gives to bash.\<close>

record execution =
  exec_env :: env
  inheritEnv :: bool

datatype tool = HarnessTool string "execution option" | CodingTool string

definition configuredHarnessTool :: "string \<Rightarrow> env \<Rightarrow> tool option" where
  "configuredHarnessTool name shellEnv =
     (if name \<noteq> ''bash'' then
        (if name \<in> {''read'', ''write'', ''edit''} then Some (HarnessTool name None) else None)
      else Some (HarnessTool ''bash'' (Some \<lparr>exec_env = shellEnv, inheritEnv = False\<rparr>)))"

definition codingTools :: "platform \<Rightarrow> env \<Rightarrow> string list" where
  "codingTools pf shellEnv =
     [''grep'', ''find'', ''ls''] @
     (if executableAvailable pf ''pwsh'' shellEnv \<or> executableAvailable pf ''powershell'' shellEnv
      then [''powershell''] else [])"

definition positive_integer :: "jsval \<Rightarrow> bool" where
  "positive_integer v = (case v of Some (JNum q) \<Rightarrow> isInteger (Num q) \<and> q \<ge> 1 | _ \<Rightarrow> False)"

definition check_read_args :: "json \<Rightarrow> bridge_error option" where
  "check_read_args args =
     (if jget args ''offset'' \<noteq> None \<and> \<not> positive_integer (jget args ''offset'')
      then Some (plain_error ''Validation failed for tool read: offset must be a positive integer'')
      else if jget args ''limit'' \<noteq> None \<and> \<not> positive_integer (jget args ''limit'')
      then Some (plain_error ''Validation failed for tool read: limit must be a positive integer'')
      else None)"

text \<open>\<open>workspace\<close> up to the call of \<open>execute\<close>: the tool and its checked arguments. \<open>validate\<close>
  prepares and checks the arguments of a tool.\<close>

definition workspace ::
  "platform \<Rightarrow> (tool \<Rightarrow> json \<Rightarrow> (bridge_error, json) result) \<Rightarrow> string \<Rightarrow> json \<Rightarrow> env \<Rightarrow> (bridge_error, tool \<times> json) result" where
  "workspace pf validate name args shellEnv =
     (case (if name = ''read'' then check_read_args args else None) of
        Some e \<Rightarrow> Inl e
      | None \<Rightarrow>
          (case configuredHarnessTool name shellEnv of
             Some t \<Rightarrow> (case validate t args of Inl e \<Rightarrow> Inl e | Inr v \<Rightarrow> Inr (t, v))
           | None \<Rightarrow>
               if name = ''grep'' \<and> \<not> executableAvailable pf ''rg'' shellEnv
               then Inl (plain_error ''ripgrep (rg) is not available'')
               else if name = ''find'' \<and> \<not> executableAvailable pf ''fd'' shellEnv
               then Inl (plain_error ''fd is not available'')
               else if name \<notin> set (codingTools pf shellEnv)
               then Inl (plain_error (''unknown or unavailable Pi workspace tool '' @ name))
               else (case validate (CodingTool name) args of Inl e \<Rightarrow> Inl e | Inr v \<Rightarrow> Inr (CodingTool name, v))))"

subsection \<open>Frames\<close>

record model_info =
  mi_id :: string
  mi_name :: string
  mi_provider :: string
  mi_api :: string
  mi_reasoning :: bool
  mi_input :: "string list"
  mi_contextWindow :: rat
  mi_maxTokens :: rat
  thinking_levels :: "string list"

definition describe_model :: "model \<Rightarrow> model_info" where
  "describe_model m =
     \<lparr>mi_id = model_id m, mi_name = model_name m, mi_provider = model_provider m, mi_api = model_api m,
      mi_reasoning = reasoning m, mi_input = model_input m, mi_contextWindow = contextWindow m,
      mi_maxTokens = maxTokens m,
      thinking_levels = map fst (filter (\<lambda>(l, v). v \<noteq> None) (thinkingLevelMap m))\<rparr>"

datatype result_value = GeneratedV generated | ModelsV "model_info list" | ToolV json

datatype frame =
    ReadyF
  | ProtocolErrorF string
  | ProgressF string json
  | ResultF string result_value
  | ErrorF err_frame

subsection \<open>The process\<close>

record bridge_ctx =
  ctx_rt :: js_runtime
  ctx_models :: registry
  ctx_platform :: platform
  ctx_validate :: "tool \<Rightarrow> json \<Rightarrow> (bridge_error, json) result"

text \<open>What an active request awaits: a stream, the rejection of \<open>generate\<close>, or its turn or tool
  in the workspace.\<close>

datatype pending = Streaming prepared_call json | Rejecting string bridge_error | InWorkspace

record workspace_job =
  w_id :: string
  w_op :: string
  w_args :: json
  w_env :: env

record bridge =
  active :: "(string \<times> pending \<times> bool) list"
  workspaceTail :: "(unit, workspace_job) chains"
  running :: bool
  process_env :: env
  saved_env :: env
  exited :: bool

definition bridge_init :: "env \<Rightarrow> bridge" where
  "bridge_init e = \<lparr>active = [], workspaceTail = [], running = False, process_env = e, saved_env = [], exited = False\<rparr>"

text \<open>\<open>frame.env\<close> as a record of strings.\<close>

fun string_env :: "(string \<times> json) list \<Rightarrow> (bridge_error, env) result" where
  "string_env [] = Inr []"
| "string_env ((k, v) # kvs) =
     (case v of
        JStr s \<Rightarrow> (case string_env kvs of Inl e \<Rightarrow> Inl e | Inr env \<Rightarrow> Inr ((k, s) # env))
      | _ \<Rightarrow> Inl (BridgeValidationError ''workspace env values must be strings''))"

definition frame_env :: "platform \<Rightarrow> json \<Rightarrow> (bridge_error, env) result" where
  "frame_env pf f =
     (case (case jget f ''env'' of Some (JObj kvs) \<Rightarrow> string_env (AList.clearjunk kvs) | _ \<Rightarrow> Inr []) of
        Inl e \<Rightarrow> Inl e
      | Inr shellEnv \<Rightarrow> normalizeEnvironmentNames pf shellEnv)"

definition args_of :: "json \<Rightarrow> json" where
  "args_of f = (if truthy (jget f ''args'') then the (jget f ''args'') else JObj [])"

definition is_active :: "string \<Rightarrow> bridge \<Rightarrow> bool" where
  "is_active i s = (map_of (active s) i \<noteq> None)"

definition activate :: "string \<Rightarrow> pending \<Rightarrow> bridge \<Rightarrow> bridge" where
  "activate i p s = s\<lparr>active := AList.update i (p, False) (active s)\<rparr>"

definition deactivate :: "string \<Rightarrow> bridge \<Rightarrow> bridge" where
  "deactivate i s = s\<lparr>active := AList.delete i (active s)\<rparr>"

definition abort_request :: "string \<Rightarrow> bridge \<Rightarrow> bridge" where
  "abort_request i s =
     (case map_of (active s) i of None \<Rightarrow> s | Some (p, b) \<Rightarrow> s\<lparr>active := AList.update i (p, True) (active s)\<rparr>)"

definition provider_wait :: json where
  "provider_wait = JObj [(''phase'', JStr ''provider_wait'')]"

text \<open>An accepted request, up to its first \<open>await\<close>.\<close>

definition start_request :: "bridge_ctx \<Rightarrow> string \<Rightarrow> json \<Rightarrow> bridge \<Rightarrow> bridge \<times> frame list" where
  "start_request c i f s =
     (let op = string_or_empty (jget f ''op''); rt = ctx_rt c in
      if op = ''llm.generate'' then
        (case generate_prepare rt (ctx_models c) (args_of f) of
           Inl e \<Rightarrow> (activate i (Rejecting op e) s, [])
         | Inr call \<Rightarrow> (activate i (Streaming call (args_of f)) s, [ProgressF i provider_wait]))
      else if op = ''llm.models'' then
        (s, [ResultF i (ModelsV (map describe_model (getModels (ctx_models c)
               (case ojget (jget f ''args'') ''provider'' of Some (JStr p) \<Rightarrow> Some p | _ \<Rightarrow> None))))])
      else if prefix ''workspace.'' op then
        (case frame_env (ctx_platform c) f of
           Inl e \<Rightarrow> (s, [ErrorF (failure rt i op e)])
         | Inr env \<Rightarrow>
             ((activate i InWorkspace s)\<lparr>workspaceTail := chain_enqueue ()
                \<lparr>w_id = i, w_op = op, w_args = args_of f, w_env = env\<rparr> (workspaceTail s)\<rparr>, []))
      else (s, [ErrorF (failure rt i op (plain_error (''unsupported bridge operation '' @ js_String rt (jget f ''op''))))]))"

definition accepts :: "json \<Rightarrow> bridge \<Rightarrow> string option" where
  "accepts f s =
     (let i = string_or_empty (jget f ''id'') in
      if i \<noteq> '''' \<and> jget f ''kind'' = Some (JStr ''request'') \<and> \<not> is_active i s then Some i else None)"

definition handle :: "bridge_ctx \<Rightarrow> json \<Rightarrow> bridge \<Rightarrow> bridge \<times> frame list" where
  "handle c f s =
     (let i = string_or_empty (jget f ''id'') in
      if i = '''' then (s, [])
      else if jget f ''kind'' = Some (JStr ''cancel'') then (abort_request i s, [])
      else if jget f ''kind'' \<noteq> Some (JStr ''request'') \<or> is_active i s then (s, [])
      else start_request c i f s)"

text \<open>Events: a line of the input and its end; the stream of a generation ends (with what was
  learned of its last failed request); the rejection of \<open>generate\<close> reaches \<open>handle\<close>; the
  workspace chain moves on; the running tool reports or settles.\<close>

datatype bridge_event =
    LineE string
  | CloseE
  | StreamSettled string "(bridge_error, stream_message \<times> failure_info option) result"
  | RejectionE string
  | WorkspaceTurn
  | ToolProgress json
  | ToolSettled "(bridge_error, json) result"

text \<open>Leaving \<open>withWorkspaceEnvironment\<close>: the result frame or the error frame, the environment
  restored, the next call released.\<close>

definition finish_workspace ::
  "bridge_ctx \<Rightarrow> workspace_job \<Rightarrow> (bridge_error, json) result \<Rightarrow> bridge \<Rightarrow> bridge \<times> frame list" where
  "finish_workspace c j r s =
     ((deactivate (w_id j) s)\<lparr>process_env := saved_env s, running := False,
        workspaceTail := chain_settle () (workspaceTail s)\<rparr>,
      [case r of
         Inr v \<Rightarrow> ResultF (w_id j) (ToolV v)
       | Inl e \<Rightarrow> ErrorF (failure (ctx_rt c) (w_id j) (w_op j) e)])"

text \<open>The turn of the first call of the chain: its environment is projected into
  \<open>process.env\<close> and the tool started.\<close>

definition begin_workspace :: "bridge_ctx \<Rightarrow> workspace_job \<Rightarrow> bridge \<Rightarrow> bridge \<times> frame list" where
  "begin_workspace c j s =
     (let s1 = s\<lparr>saved_env := process_env s, process_env := w_env j, running := True\<rparr> in
      case workspace (ctx_platform c) (ctx_validate c) (drop (length ''workspace.'') (w_op j)) (w_args j) (w_env j) of
        Inl e \<Rightarrow> finish_workspace c j (Inl e) s1
      | Inr tv \<Rightarrow> (s1, []))"

definition bridge_step :: "bridge_ctx \<Rightarrow> bridge_event \<Rightarrow> bridge \<Rightarrow> bridge \<times> frame list" where
  "bridge_step c ev s =
     (if exited s then (s, [])
      else
        (case ev of
           LineE line \<Rightarrow>
             (case JSON_parse (ctx_rt c) line of
                None \<Rightarrow> (s, [ProtocolErrorF (engineMessage (ctx_rt c))])
              | Some f \<Rightarrow> handle c f s)
         | CloseE \<Rightarrow> (s\<lparr>active := map (\<lambda>(i, p, b). (i, p, True)) (active s), exited := True\<rparr>, [])
         | StreamSettled i r \<Rightarrow>
             (case map_of (active s) i of
                Some (Streaming call args, b) \<Rightarrow>
                  (deactivate i s,
                   [case r of
                      Inr (sm, fi) \<Rightarrow> ResultF i (GeneratedV (generate_result (call_model call) args sm
                        (if call_capture call then fi else None)))
                    | Inl e \<Rightarrow> ErrorF (failure (ctx_rt c) i ''llm.generate'' e)])
              | _ \<Rightarrow> (s, []))
         | RejectionE i \<Rightarrow>
             (case map_of (active s) i of
                Some (Rejecting op e, b) \<Rightarrow> (deactivate i s, [ErrorF (failure (ctx_rt c) i op e)])
              | _ \<Rightarrow> (s, []))
         | WorkspaceTurn \<Rightarrow>
             (case chain_jobs (workspaceTail s) () of
                j # js \<Rightarrow> if running s then (s, []) else begin_workspace c j s
              | [] \<Rightarrow> (s, []))
         | ToolProgress p \<Rightarrow>
             (case chain_jobs (workspaceTail s) () of
                j # js \<Rightarrow> if running s then (s, [ProgressF (w_id j) p]) else (s, [])
              | [] \<Rightarrow> (s, []))
         | ToolSettled r \<Rightarrow>
             (case chain_jobs (workspaceTail s) () of
                j # js \<Rightarrow> if running s then finish_workspace c j r s else (s, [])
              | [] \<Rightarrow> (s, []))))"

fun bridge_run :: "bridge_ctx \<Rightarrow> bridge_event list \<Rightarrow> bridge \<Rightarrow> bridge \<times> frame list" where
  "bridge_run c [] s = (s, [])"
| "bridge_run c (ev # evs) s =
     (let (s1, fs) = bridge_step c ev s; (s2, gs) = bridge_run c evs s1 in (s2, fs @ gs))"

definition bridge_main :: "bridge_ctx \<Rightarrow> env \<Rightarrow> bridge_event list \<Rightarrow> bridge \<times> frame list" where
  "bridge_main c e evs = (let (s, fs) = bridge_run c evs (bridge_init e) in (s, ReadyF # fs))"

subsection \<open>One terminal frame per accepted request\<close>

definition terminal_for :: "string \<Rightarrow> frame \<Rightarrow> bool" where
  "terminal_for i f = (case f of ResultF k v \<Rightarrow> k = i | ErrorF e \<Rightarrow> ef_id e = i | _ \<Rightarrow> False)"

definition terminals :: "string \<Rightarrow> frame list \<Rightarrow> nat" where
  "terminals i fs = length (filter (terminal_for i) fs)"

definition active_count :: "string \<Rightarrow> bridge \<Rightarrow> nat" where
  "active_count i s = (if is_active i s then 1 else 0)"

text \<open>The requests accepted for an id: lines that are requests for it while it is not active.\<close>

definition accepted_line :: "bridge_ctx \<Rightarrow> string \<Rightarrow> bridge_event \<Rightarrow> bridge \<Rightarrow> bool" where
  "accepted_line c i ev s =
     (\<not> exited s \<and>
      (case ev of
         LineE line \<Rightarrow> (case JSON_parse (ctx_rt c) line of None \<Rightarrow> False | Some f \<Rightarrow> accepts f s = Some i)
       | _ \<Rightarrow> False))"

fun accepted_count :: "bridge_ctx \<Rightarrow> string \<Rightarrow> bridge_event list \<Rightarrow> bridge \<Rightarrow> nat" where
  "accepted_count c i [] s = 0"
| "accepted_count c i (ev # evs) s =
     (if accepted_line c i ev s then 1 else 0) + accepted_count c i evs (fst (bridge_step c ev s))"

text \<open>The workspace chain and the table of active requests agree; the environment is that of
  the running call.\<close>

definition workspace_ids :: "bridge \<Rightarrow> string list" where
  "workspace_ids s = map w_id (chain_jobs (workspaceTail s) ())"

definition in_workspace :: "string \<Rightarrow> bridge \<Rightarrow> bool" where
  "in_workspace i s = (case map_of (active s) i of Some (InWorkspace, b) \<Rightarrow> True | _ \<Rightarrow> False)"

definition agree :: "bridge \<Rightarrow> bool" where
  "agree s \<longleftrightarrow> distinct (workspace_ids s) \<and> (\<forall>i. i \<in> set (workspace_ids s) \<longleftrightarrow> in_workspace i s)"

definition env_ok :: "env \<Rightarrow> bridge \<Rightarrow> bool" where
  "env_ok e s \<longleftrightarrow>
     (if running s
      then (\<exists>j js. chain_jobs (workspaceTail s) () = j # js \<and> process_env s = w_env j) \<and> saved_env s = e
      else process_env s = e)"

lemma failure_id [simp]: "ef_id (failure rt i op e) = i"
  by (simp add: failure_def Let_def)

lemma terminals_simps [simp]:
  "terminals i [] = 0"
  "terminals i (f # fs) = (if terminal_for i f then 1 else 0) + terminals i fs"
  "terminals i (fs @ gs) = terminals i fs + terminals i gs"
  by (simp_all add: terminals_def)

lemma terminal_for_simps [simp]:
  "terminal_for i (ResultF k v) = (k = i)" "terminal_for i (ErrorF e) = (ef_id e = i)"
  "\<not> terminal_for i (ProgressF k p)" "\<not> terminal_for i ReadyF" "\<not> terminal_for i (ProtocolErrorF m)"
  by (simp_all add: terminal_for_def)

lemma activate_simps [simp]:
  "is_active i (activate k p s) = (i = k \<or> is_active i s)"
  "is_active i (deactivate k s) = (i \<noteq> k \<and> is_active i s)"
  "workspaceTail (activate k p s) = workspaceTail s" "workspaceTail (deactivate k s) = workspaceTail s"
  "running (activate k p s) = running s" "running (deactivate k s) = running s"
  "process_env (activate k p s) = process_env s" "process_env (deactivate k s) = process_env s"
  "saved_env (activate k p s) = saved_env s" "saved_env (deactivate k s) = saved_env s"
  by (auto simp: is_active_def activate_def deactivate_def update_conv' delete_conv')

lemma is_active_updates [simp]:
  "is_active i (s\<lparr>workspaceTail := t\<rparr>) = is_active i s" "is_active i (s\<lparr>running := r\<rparr>) = is_active i s"
  "is_active i (s\<lparr>process_env := p\<rparr>) = is_active i s" "is_active i (s\<lparr>saved_env := p\<rparr>) = is_active i s"
  by (simp_all add: is_active_def)

lemma is_active_abort [simp]: "is_active i (abort_request k s) = is_active i s"
  by (auto simp: is_active_def abort_request_def update_conv' split: option.split)

lemma in_workspace_active: "in_workspace i s \<Longrightarrow> is_active i s"
  by (auto simp: in_workspace_def is_active_def split: option.splits)

lemma in_workspace_simps [simp]:
  "in_workspace i (activate k p s) = (if i = k then p = InWorkspace else in_workspace i s)"
  "in_workspace i (deactivate k s) = (i \<noteq> k \<and> in_workspace i s)"
  "in_workspace i (abort_request k s) = in_workspace i s"
  "in_workspace i (s\<lparr>workspaceTail := t\<rparr>) = in_workspace i s" "in_workspace i (s\<lparr>running := r\<rparr>) = in_workspace i s"
  "in_workspace i (s\<lparr>process_env := p'\<rparr>) = in_workspace i s" "in_workspace i (s\<lparr>saved_env := p'\<rparr>) = in_workspace i s"
  by (auto simp: in_workspace_def activate_def deactivate_def abort_request_def update_conv' delete_conv'
      split: option.split pending.split)

lemma abort_request_keeps [simp]:
  "workspaceTail (abort_request k s) = workspaceTail s" "running (abort_request k s) = running s"
  "process_env (abort_request k s) = process_env s" "saved_env (abort_request k s) = saved_env s"
  by (auto simp: abort_request_def split: option.split)

lemma workspace_ids_simps [simp]:
  "workspace_ids (s\<lparr>workspaceTail := chain_enqueue () j t\<rparr>) = map w_id (chain_jobs t ()) @ [w_id j]"
  "workspace_ids (s\<lparr>workspaceTail := chain_settle () t\<rparr>) = tl (map w_id (chain_jobs t ()))"
  by (simp_all add: workspace_ids_def pchain.jobs_enqueue pchain.jobs_settle map_tl)

lemma workspace_ids_same: "workspaceTail s = workspaceTail t \<Longrightarrow> workspace_ids s = workspace_ids t"
  by (simp add: workspace_ids_def)

text \<open>A change of the table that concerns no workspace request.\<close>

lemma agree_same:
  "agree s \<Longrightarrow> workspaceTail t = workspaceTail s \<Longrightarrow> (\<And>i. in_workspace i t = in_workspace i s) \<Longrightarrow> agree t"
  by (simp add: agree_def workspace_ids_same [of t s])

lemma env_ok_same:
  "env_ok e s \<Longrightarrow> workspaceTail t = workspaceTail s \<Longrightarrow> running t = running s \<Longrightarrow>
   process_env t = process_env s \<Longrightarrow> saved_env t = saved_env s \<Longrightarrow> env_ok e t"
  unfolding env_ok_def by simp metis

lemma settle_other:
  assumes "agree s" "env_ok e s" "map_of (active s) k = Some (p, b)" "p \<noteq> InWorkspace"
  shows "agree (deactivate k s) \<and> env_ok e (deactivate k s) \<and> is_active k s"
proof -
  have "\<not> in_workspace k s"
    using assms(3,4) by (simp add: in_workspace_def split: pending.split)
  then have "in_workspace i (deactivate k s) = in_workspace i s" for i by auto
  then have "agree (deactivate k s)" by (intro agree_same [OF assms(1)]) simp_all
  moreover have "env_ok e (deactivate k s)" by (rule env_ok_same [OF assms(2)]) simp_all
  ultimately show ?thesis using assms(3) by (simp add: is_active_def)
qed

lemma finish_workspace_inv:
  assumes "agree s" "env_ok e s" "running s" "chain_jobs (workspaceTail s) () = j # js"
  shows "agree (fst (finish_workspace c j r s)) \<and> env_ok e (fst (finish_workspace c j r s)) \<and>
    terminals i (snd (finish_workspace c j r s)) + active_count i (fst (finish_workspace c j r s)) = active_count i s"
proof -
  have ids: "workspace_ids s = w_id j # map w_id js"
    using assms(4) by (simp add: workspace_ids_def)
  then have fresh: "w_id j \<notin> set (map w_id js)" "distinct (map w_id js)" and act: "is_active (w_id j) s"
    using assms(1) by (auto simp: agree_def intro: in_workspace_active)
  have inw: "in_workspace k s \<longleftrightarrow> k = w_id j \<or> k \<in> set (map w_id js)" for k
    using assms(1) ids by (auto simp: agree_def)
  have "k \<in> set (map w_id js) \<longleftrightarrow> k \<noteq> w_id j \<and> in_workspace k s" for k
    using fresh(1) inw by metis
  then have "agree (fst (finish_workspace c j r s))"
    using fresh(2) assms(4) unfolding agree_def by (simp add: finish_workspace_def)
  moreover have "env_ok e (fst (finish_workspace c j r s))"
    using assms(2,3) by (simp add: finish_workspace_def env_ok_def)
  moreover have "terminals i (snd (finish_workspace c j r s)) + active_count i (fst (finish_workspace c j r s)) = active_count i s"
    using act by (auto simp: finish_workspace_def active_count_def split: sum.split)
  ultimately show ?thesis by simp
qed

lemma begin_workspace_inv:
  assumes "agree s" "env_ok e s" "\<not> running s" "chain_jobs (workspaceTail s) () = j # js"
  shows "agree (fst (begin_workspace c j s)) \<and> env_ok e (fst (begin_workspace c j s)) \<and>
    terminals i (snd (begin_workspace c j s)) + active_count i (fst (begin_workspace c j s)) = active_count i s"
proof -
  let ?s = "s\<lparr>saved_env := process_env s, process_env := w_env j, running := True\<rparr>"
  have "agree ?s" "env_ok e ?s" "running ?s" "chain_jobs (workspaceTail ?s) () = j # js"
      "active_count i ?s = active_count i s"
    using assms by (auto simp: env_ok_def active_count_def intro: agree_same)
  with finish_workspace_inv [of ?s e j js c] show ?thesis
    by (simp add: begin_workspace_def Let_def split: sum.split)
qed

lemma start_request_inv:
  assumes "agree s" "env_ok e s" "\<not> is_active k s"
  shows "agree (fst (start_request c k f s)) \<and> env_ok e (fst (start_request c k f s)) \<and>
    terminals i (snd (start_request c k f s)) + active_count i (fst (start_request c k f s)) =
      active_count i s + (if i = k then 1 else 0)"
proof -
  have k: "\<not> in_workspace k s" "k \<notin> set (workspace_ids s)"
    using assms(1,3) in_workspace_active by (auto simp: agree_def)
  have "agree (activate k p s)" if "p \<noteq> InWorkspace" for p
    using k(1) that by (intro agree_same [OF assms(1)]) auto
  moreover have "env_ok e (activate k p s)" for p
    using assms(2) by (rule env_ok_same) simp_all
  moreover have "agree ((activate k InWorkspace s)\<lparr>workspaceTail := chain_enqueue () j (workspaceTail s)\<rparr>)"
    if "w_id j = k" for j
    using assms(1) k that by (auto simp: agree_def workspace_ids_def pchain.jobs_enqueue)
  moreover have "env_ok e ((activate k InWorkspace s)\<lparr>workspaceTail := chain_enqueue () j (workspaceTail s)\<rparr>)" for j
    using assms(2) by (auto simp: env_ok_def pchain.jobs_enqueue)
  ultimately show ?thesis
    using assms by (simp add: start_request_def Let_def active_count_def split: sum.split)
qed

lemma bridge_step_inv:
  assumes "agree s" "env_ok e s"
  shows "agree (fst (bridge_step c ev s)) \<and> env_ok e (fst (bridge_step c ev s)) \<and>
    terminals i (snd (bridge_step c ev s)) + active_count i (fst (bridge_step c ev s)) =
      active_count i s + (if accepted_line c i ev s then 1 else 0)"
proof (cases "exited s")
  case True
  then show ?thesis using assms by (simp add: bridge_step_def accepted_line_def)
next
  case False
  note st = bridge_step_def accepted_line_def
  show ?thesis
  proof (cases ev)
    case (LineE line)
    show ?thesis
    proof (cases "JSON_parse (ctx_rt c) line")
      case (Some f)
      let ?k = "string_or_empty (jget f ''id'')"
      show ?thesis
      proof (cases "accepts f s = None")
        case True
        have "agree (abort_request ?k s)" "env_ok e (abort_request ?k s)"
          using agree_same [OF assms(1)] env_ok_same [OF assms(2)] by simp_all
        with True False Some LineE assms show ?thesis
          by (auto simp: st handle_def accepts_def Let_def active_count_def split: if_splits)
      next
        case acc: False
        then have k: "\<not> is_active ?k s" "accepts f s = Some ?k" and h: "handle c f s = start_request c ?k f s"
          by (auto simp: accepts_def handle_def Let_def split: if_splits)
        show ?thesis
          using start_request_inv [OF assms k(1), of c f i] False Some LineE k(2)
          by (simp add: st h)
      qed
    qed (use False LineE assms in \<open>simp add: st\<close>)
  next
    case CloseE
    have a: "map_of (map (\<lambda>(i, p, b). (i, p, True)) xs) k = map_option (\<lambda>(p, b). (p, True)) (map_of xs k)" for xs :: "(string \<times> pending \<times> bool) list" and k
      by (induction xs) auto
    let ?s = "s\<lparr>active := map (\<lambda>(i, p, b). (i, p, True)) (active s), exited := True\<rparr>"
    have "in_workspace k ?s = in_workspace k s" "is_active k ?s = is_active k s" for k
      by (auto simp: in_workspace_def is_active_def a split: option.split pending.split)
    then have "agree ?s" "env_ok e ?s" "active_count i ?s = active_count i s"
      using agree_same [OF assms(1)] env_ok_same [OF assms(2)] by (simp_all add: active_count_def)
    with False CloseE show ?thesis by (simp add: st)
  next
    case (StreamSettled k r)
    show ?thesis
    proof (cases "map_of (active s) k")
      case (Some pb)
      obtain p b where "pb = (p, b)" by (cases pb)
      with settle_other [OF assms, of k p b] Some show ?thesis
        using False StreamSettled assms by (cases p) (auto simp: st active_count_def split: sum.split)
    qed (use False StreamSettled assms in \<open>simp add: st\<close>)
  next
    case (RejectionE k)
    show ?thesis
    proof (cases "map_of (active s) k")
      case (Some pb)
      obtain p b where "pb = (p, b)" by (cases pb)
      with settle_other [OF assms, of k p b] Some show ?thesis
        using False RejectionE assms by (cases p) (auto simp: st active_count_def)
    qed (use False RejectionE assms in \<open>simp add: st\<close>)
  next
    case WorkspaceTurn
    then show ?thesis
      using assms False begin_workspace_inv [OF assms, of _ _ c i]
      by (auto simp: st split: list.split)
  next
    case (ToolProgress p)
    then show ?thesis using assms False by (simp add: st split: list.split)
  next
    case (ToolSettled r)
    then show ?thesis
      using assms False finish_workspace_inv [OF assms, of _ _ c r i]
      by (auto simp: st split: list.split)
  qed
qed

lemma bridge_run_inv:
  "agree s \<Longrightarrow> env_ok e s \<Longrightarrow> bridge_run c evs s = (s', fs) \<Longrightarrow>
   agree s' \<and> env_ok e s' \<and> terminals i fs + active_count i s' = active_count i s + accepted_count c i evs s"
proof (induction evs arbitrary: s fs)
  case (Cons ev evs)
  obtain s1 as where step: "bridge_step c ev s = (s1, as)" by (cases "bridge_step c ev s")
  obtain bs where run: "bridge_run c evs s1 = (s', bs)" "fs = as @ bs"
    using Cons.prems(3) step by (cases "bridge_run c evs s1") simp
  have one: "agree s1" "env_ok e s1"
      "terminals i as + active_count i s1 = active_count i s + (if accepted_line c i ev s then 1 else 0)"
    using bridge_step_inv [OF Cons.prems(1,2), of c ev i] step by simp_all
  from Cons.IH [OF one(1,2) run(1)] one(3) show ?case
    by (simp add: run(2) step)
qed simp

lemma bridge_init_inv: "agree (bridge_init e)" "env_ok e (bridge_init e)" "active_count i (bridge_init e) = 0"
  by (simp_all add: bridge_init_def agree_def env_ok_def workspace_ids_def chain_jobs_def in_workspace_def
      active_count_def is_active_def)

text \<open>C5. Every request the bridge accepts is answered by exactly one result or error frame:
  whatever the streams, tools, cancellations and repeated frames do, the terminal frames sent
  for an id and the request still active under it make up the requests accepted for it.\<close>

theorem one_terminal_frame:
  assumes "bridge_main c e evs = (s, fs)"
  shows "terminals i fs + active_count i s = accepted_count c i evs (bridge_init e)"
proof -
  obtain gs where run: "bridge_run c evs (bridge_init e) = (s, gs)" "fs = ReadyF # gs"
    using assms by (cases "bridge_run c evs (bridge_init e)") (simp add: bridge_main_def)
  from bridge_run_inv [OF bridge_init_inv(1,2) run(1), of i] show ?thesis
    by (simp add: run(2) bridge_init_inv(3))
qed

definition example_ctx :: bridge_ctx where
  "example_ctx = \<lparr>
     ctx_rt = example_runtime\<lparr>JSON_parse := (\<lambda>s. if s = ''ls'' then
        Some (JObj [(''id'', JStr ''7''), (''kind'', JStr ''request''), (''op'', JStr ''workspace.ls''), (''env'', JObj [(''HOME'', JStr ''h'')])])
        else None)\<rparr>,
     ctx_models = registry_init,
     ctx_platform = \<lparr>win32 = False, delimiter = CHR '':'', can_execute = (\<lambda>d n. False)\<rparr>,
     ctx_validate = (\<lambda>t a. Inr a)\<rparr>"

lemmas bridge_eval =
  example_ctx_def bridge_init_def bridge_step_def handle_def start_request_def string_or_empty_def is_active_def
  frame_env_def normalizeEnvironmentNames_def activate_def chain_enqueue_def chain_jobs_def begin_workspace_def
  workspace_def configuredHarnessTool_def codingTools_def executableAvailable_def environmentValue_def
  finish_workspace_def deactivate_def chain_settle_def active_count_def accepted_line_def accepts_def args_of_def Let_def

theorem one_terminal_frame_witness:
  "\<exists>s fs. bridge_main example_ctx [] [LineE ''ls'', WorkspaceTurn, LineE ''ls'', ToolSettled (Inr JNull)] = (s, fs) \<and>
     terminals ''7'' fs = 1"
proof -
  obtain s fs where m: "bridge_main example_ctx [] [LineE ''ls'', WorkspaceTurn, LineE ''ls'', ToolSettled (Inr JNull)] = (s, fs)"
    by (cases "bridge_main example_ctx [] [LineE ''ls'', WorkspaceTurn, LineE ''ls'', ToolSettled (Inr JNull)]")
  moreover have "active_count ''7'' s = 0"
    using m by (auto simp: bridge_main_def bridge_eval)
  moreover have "accepted_count example_ctx ''7'' [LineE ''ls'', WorkspaceTurn, LineE ''ls'', ToolSettled (Inr JNull)] (bridge_init []) = 1"
    by (auto simp: bridge_eval)
  ultimately show ?thesis using one_terminal_frame [OF m, of "''7''"] by auto
qed

text \<open>C28. The environment of the process is the caller's, or, while a workspace tool runs, exactly
  the snapshot its request carried: the calls run one at a time, and each restores what it
  found.\<close>

theorem workspace_environment:
  assumes "bridge_main c e evs = (s, fs)"
  shows "if running s
    then process_env s = w_env (hd (chain_jobs (workspaceTail s) ())) \<and> saved_env s = e
    else process_env s = e"
proof -
  obtain gs where run: "bridge_run c evs (bridge_init e) = (s, gs)"
    using assms by (cases "bridge_run c evs (bridge_init e)") (simp add: bridge_main_def)
  from bridge_run_inv [OF bridge_init_inv(1,2) run, of "[]"] have "env_ok e s" by blast
  then show ?thesis by (auto simp: env_ok_def)
qed

theorem workspace_environment_witness:
  "\<exists>s fs. bridge_main example_ctx [(''A'', ''1'')] [LineE ''ls'', WorkspaceTurn] = (s, fs) \<and>
     process_env s = [(''HOME'', ''h'')] \<and> saved_env s = [(''A'', ''1'')]"
proof -
  obtain s fs where m: "bridge_main example_ctx [(''A'', ''1'')] [LineE ''ls'', WorkspaceTurn] = (s, fs)"
    by (cases "bridge_main example_ctx [(''A'', ''1'')] [LineE ''ls'', WorkspaceTurn]")
  moreover have "running s" "w_env (hd (chain_jobs (workspaceTail s) ())) = [(''HOME'', ''h'')]"
    using m by (auto simp: bridge_main_def bridge_eval)
  ultimately show ?thesis using workspace_environment [OF m] by auto
qed

end
