(* ===== verification/Js_Utf16.thy ===== *)
theory Js_Utf16
  imports Js_Prelude
begin

text \<open>
  Strings whose code units matter: a JavaScript string is a list of UTF-16 code units. A
  string splits into characters, each one unit or a surrogate pair; the encoder and the
  streaming decoder of UTF-8 (\<open>TextEncoder\<close>, \<open>TextDecoder\<close>, \<open>Buffer\<close>) work on these.
\<close>

type_synonym jstring = "nat list"

definition hi_surrogate :: "nat \<Rightarrow> bool" where
  "hi_surrogate c = (55296 \<le> c \<and> c \<le> 56319)"

definition lo_surrogate :: "nat \<Rightarrow> bool" where
  "lo_surrogate c = (56320 \<le> c \<and> c \<le> 57343)"

definition newline_unit :: nat where
  "newline_unit = 10"

text \<open>The characters of a string.\<close>

fun chars :: "jstring \<Rightarrow> jstring list" where
  "chars [] = []"
| "chars [a] = [[a]]"
| "chars (a # b # s) =
     (if hi_surrogate a \<and> lo_surrogate b then [a, b] # chars s else [a] # chars (b # s))"

text \<open>Two strings whose concatenation forms a pair across the border.\<close>

definition joins :: "jstring \<Rightarrow> jstring \<Rightarrow> bool" where
  "joins s t = (s \<noteq> [] \<and> t \<noteq> [] \<and> hi_surrogate (last s) \<and> lo_surrogate (hd t))"

lemma hi_not_lo [simp]: "hi_surrogate c \<Longrightarrow> \<not> lo_surrogate c"
  by (simp add: hi_surrogate_def lo_surrogate_def)

lemma concat_chars [simp]: "concat (chars s) = s"
  by (induction s rule: chars.induct) auto

lemma chars_Nil_iff [simp]: "chars s = [] \<longleftrightarrow> s = []"
  by (cases s rule: chars.cases) auto

lemma joins_Nil [simp]: "\<not> joins [] t" "\<not> joins s []"
  by (simp_all add: joins_def)

lemma chars_append: "\<not> joins s t \<Longrightarrow> chars (s @ t) = chars s @ chars t"
proof (induction s rule: chars.induct)
  case (2 a)
  then show ?case by (cases t) (auto simp: joins_def)
qed (auto simp: joins_def split: if_splits)

lemma chars_single: "c \<in> set (chars s) \<Longrightarrow> (\<exists>a. c = [a]) \<or> (\<exists>a b. c = [a, b] \<and> hi_surrogate a \<and> lo_surrogate b)"
  by (induction s rule: chars.induct) (auto split: if_splits)

lemma chars_Cons:
  "chars (c # s) = (if hi_surrogate c \<and> s \<noteq> [] \<and> lo_surrogate (hd s) then [c, hd s] # chars (tl s) else [c] # chars s)"
  by (cases s) auto

text \<open>A part of the characters of a string is the characters of that part.\<close>

lemma chars_split:
  "chars s = cs @ ds \<Longrightarrow> chars (concat cs) = cs \<and> chars (concat ds) = ds \<and> \<not> joins (concat cs) (concat ds)"
proof (induction s arbitrary: cs rule: chars.induct)
  case (2 a)
  then show ?case by (cases cs) auto
next
  case (3 a b s)
  show ?case
  proof (cases cs)
    case Nil
    with 3 show ?thesis by (metis append_Nil concat.simps(1) concat_chars chars.simps(1) joins_Nil(1))
  next
    case (Cons c cs')
    show ?thesis
    proof (cases "hi_surrogate a \<and> lo_surrogate b")
      case True
      with Cons "3.prems" have c: "c = [a, b]" and rest: "chars s = cs' @ ds" by auto
      from "3.IH"(1) [OF True rest] True c Cons show ?thesis
        by (cases "concat cs'") (auto simp: joins_def)
    next
      case False
      with Cons "3.prems" have c: "c = [a]" and rest: "chars (b # s) = cs' @ ds" by auto
      have bs: "b # s = concat cs' @ concat ds"
        by (metis rest concat_append concat_chars)
      from "3.IH"(2) [OF False rest] have ih: "chars (concat cs') = cs'" "chars (concat ds) = ds"
          "\<not> joins (concat cs') (concat ds)" by auto
      have "hd (concat cs' @ concat ds) = b" using bs by (metis list.sel(1))
      then have "\<not> joins [a] (concat cs')" "concat cs' = [] \<Longrightarrow> \<not> joins [a] (concat ds)"
        using False by (auto simp: joins_def hd_append simp del: concat_eq_Nil_conv split: if_splits)
      moreover have "chars ([a] @ concat cs') = [a] # cs'"
        using chars_append [of "[a]" "concat cs'"] calculation(1) ih(1) by simp
      ultimately show ?thesis
        using ih Cons c by (cases "concat cs' = []") (auto simp: joins_def)
    qed
  qed
qed simp

lemma chars_snoc:
  assumes "chars s = cs @ [c]"
  shows "chars (concat cs) = cs" "s = concat cs @ c" "\<not> joins (concat cs) c"
    "(\<exists>a. c = [a]) \<or> (\<exists>a b. c = [a, b] \<and> hi_surrogate a \<and> lo_surrogate b)"
proof -
  show "chars (concat cs) = cs" "\<not> joins (concat cs) c" using chars_split [OF assms] by simp_all
  show "s = concat cs @ c" by (metis assms concat_append concat_chars concat.simps append_Nil2)
  show "(\<exists>a. c = [a]) \<or> (\<exists>a b. c = [a, b] \<and> hi_surrogate a \<and> lo_surrogate b)"
    using chars_single [of c s] assms by simp
qed

subsection \<open>UTF-8\<close>

text \<open>The replacement character.\<close>

definition REPLACEMENT :: nat where
  "REPLACEMENT = 65533"

definition surrogate :: "nat \<Rightarrow> bool" where
  "surrogate c = (hi_surrogate c \<or> lo_surrogate c)"

fun char_code :: "jstring \<Rightarrow> nat" where
  "char_code [a] = (if surrogate a then REPLACEMENT else a)"
| "char_code [a, b] = 65536 + (a - 55296) * 1024 + (b - 56320)"
| "char_code _ = REPLACEMENT"

definition encode_code :: "nat \<Rightarrow> nat list" where
  "encode_code c =
     (if c < 128 then [c]
      else if c < 2048 then [192 + c div 64, 128 + c mod 64]
      else if c < 65536 then [224 + c div 4096, 128 + c div 64 mod 64, 128 + c mod 64]
      else [240 + c div 262144, 128 + c div 4096 mod 64, 128 + c div 64 mod 64, 128 + c mod 64])"

text \<open>\<open>TextEncoder.encode\<close>: an unpaired surrogate is encoded as the replacement character.\<close>

definition utf8_encode :: "jstring \<Rightarrow> nat list" where
  "utf8_encode s = concat (map (\<lambda>c. encode_code (char_code c)) (chars s))"

definition unpaired :: "jstring \<Rightarrow> bool" where
  "unpaired c = (case c of [a] \<Rightarrow> surrogate a | _ \<Rightarrow> False)"

definition well_formed :: "jstring \<Rightarrow> bool" where
  "well_formed s = (\<not> list_ex unpaired (chars s))"

text \<open>The size of a character.\<close>

definition char_bytes :: "jstring \<Rightarrow> nat" where
  "char_bytes c = length (encode_code (char_code c))"

lemma char_bytes_simps [simp]:
  "char_bytes [a] = (if a \<le> 127 then 1 else if a \<le> 2047 then 2 else if a < 65536 then 3 else 4)"
  "hi_surrogate a \<Longrightarrow> lo_surrogate b \<Longrightarrow> char_bytes [a, b] = 4"
  by (auto simp: char_bytes_def encode_code_def surrogate_def hi_surrogate_def lo_surrogate_def REPLACEMENT_def)

lemma utf8_encode_append: "\<not> joins s t \<Longrightarrow> utf8_encode (s @ t) = utf8_encode s @ utf8_encode t"
  by (simp add: utf8_encode_def chars_append)

lemma utf8_encode_Nil [simp]: "utf8_encode [] = []"
  by (simp add: utf8_encode_def)

lemma length_utf8_encode: "length (utf8_encode s) = sum_list (map char_bytes (chars s))"
  unfolding utf8_encode_def length_concat by (simp add: char_bytes_def [abs_def] o_def)

text \<open>ASCII text and printed integers as code units.\<close>

definition js_text :: "string \<Rightarrow> jstring" where
  "js_text s = map of_char s"

definition js_nat :: "nat \<Rightarrow> jstring" where
  "js_nat n = js_text (string_of_nat n)"

definition js_int :: "int \<Rightarrow> jstring" where
  "js_int i = (if i < 0 then 45 # js_nat (nat (- i)) else js_nat (nat i))"

text \<open>The units that the runtime counts as white space.\<close>

definition js_space :: "nat \<Rightarrow> bool" where
  "js_space c \<longleftrightarrow>
     c \<in> {9, 10, 11, 12, 13, 32, 160, 5760, 8232, 8233, 8239, 8287, 12288, 65279} \<or> (8192 \<le> c \<and> c \<le> 8202)"

end
