(* ===== verification/Line_Diff.thy ===== *)
theory Line_Diff
  imports Js_Utf16
begin

text \<open>
  The line difference shown after an edit (\<open>Diff2\<close>, \<open>LineDiff\<close>, \<open>diffLines\<close> in
  \<open>bridge.mjs\<close>): the greedy search over edit scripts of growing length, diagonal by diagonal, with
  the two bounds that drop diagonals beyond the end of a text. The callers pass none of the options that change the
  comparison, the tokens, the length of the search or the way the result is returned, so these branches are not taken.

  The search always finds a script within as many rounds as the two texts have lines, and the
  script it returns turns the old text into the new one.
\<close>

subsection \<open>Paths\<close>

record component =
  comp_count :: nat
  comp_added :: bool
  comp_removed :: bool

text \<open>The chain \<open>lastComponent\<close>, \<open>previousComponent\<close>, ... is a list, the last component first. The
  chain is shared between paths but never changed before the search ends.\<close>

record edit_path =
  oldPos :: int
  lastComponent :: "component list"

definition addToPath :: "edit_path \<Rightarrow> bool \<Rightarrow> bool \<Rightarrow> int \<Rightarrow> edit_path" where
  "addToPath p added removed oldPosInc =
     \<lparr>oldPos = oldPos p + oldPosInc,
      lastComponent =
        (case lastComponent p of
           l # prev \<Rightarrow>
             (if comp_added l = added \<and> comp_removed l = removed
              then l\<lparr>comp_count := comp_count l + 1\<rparr> # prev
              else \<lparr>comp_count = 1, comp_added = added, comp_removed = removed\<rparr> # l # prev)
         | [] \<Rightarrow> [\<lparr>comp_count = 1, comp_added = added, comp_removed = removed\<rparr>])\<rparr>"

text \<open>The loop of \<open>extractCommon\<close>: how many tokens agree after the two positions.\<close>

function commonCount :: "'a list \<Rightarrow> 'a list \<Rightarrow> int \<Rightarrow> int \<Rightarrow> nat" where
  "commonCount newTokens oldTokens oldP newP =
     (if newP + 1 < int (length newTokens) \<and> oldP + 1 < int (length oldTokens) \<and>
         oldTokens ! nat (oldP + 1) = newTokens ! nat (newP + 1)
      then Suc (commonCount newTokens oldTokens (oldP + 1) (newP + 1)) else 0)"
  by auto
termination
  by (relation "measure (\<lambda>(ns, os, op, np). nat (int (length ns) - np))") auto

declare commonCount.simps [simp del]

definition extractCommon :: "edit_path \<Rightarrow> 'a list \<Rightarrow> 'a list \<Rightarrow> int \<Rightarrow> edit_path \<times> int" where
  "extractCommon basePath newTokens oldTokens diagonalPath =
     (let newP = oldPos basePath - diagonalPath;
          n = commonCount newTokens oldTokens (oldPos basePath) newP
      in (\<lparr>oldPos = oldPos basePath + int n,
           lastComponent =
             (if n > 0 then \<lparr>comp_count = n, comp_added = False, comp_removed = False\<rparr> # lastComponent basePath
              else lastComponent basePath)\<rparr>,
          newP + int n))"

subsection \<open>The search\<close>

text \<open>The array \<open>bestPath\<close>, indexed by diagonals, and the two bounds; None is infinite.\<close>

type_synonym best_paths = "int \<Rightarrow> edit_path option"

datatype search =
    Found "component list"
  | Searching best_paths "int option" "int option"

definition raised :: "int option \<Rightarrow> int \<Rightarrow> int" where
  "raised minDiagonal k = (case minDiagonal of None \<Rightarrow> k | Some m \<Rightarrow> max m k)"

definition lowered :: "int option \<Rightarrow> int \<Rightarrow> int" where
  "lowered maxDiagonal k = (case maxDiagonal of None \<Rightarrow> k | Some m \<Rightarrow> min m k)"

text \<open>One turn of the loop of \<open>execEditLength\<close>.\<close>

definition diagonal_step ::
  "'a list \<Rightarrow> 'a list \<Rightarrow> int \<Rightarrow> best_paths \<Rightarrow> int option \<Rightarrow> int option \<Rightarrow> search" where
  "diagonal_step newTokens oldTokens k bestPath minDiagonal maxDiagonal =
     (let removePath = bestPath (k - 1);
          addPath = bestPath (k + 1);
          bestPath1 = (if removePath \<noteq> None then bestPath(k - 1 := None) else bestPath);
          canAdd = (case addPath of None \<Rightarrow> False
            | Some a \<Rightarrow> 0 \<le> oldPos a - k \<and> oldPos a - k < int (length newTokens));
          canRemove = (case removePath of None \<Rightarrow> False | Some r \<Rightarrow> oldPos r + 1 < int (length oldTokens))
      in if \<not> canAdd \<and> \<not> canRemove then Searching (bestPath1(k := None)) minDiagonal maxDiagonal
         else
           (let basePath =
                  (if \<not> canRemove \<or> canAdd \<and> oldPos (the removePath) < oldPos (the addPath)
                   then addToPath (the addPath) True False 0
                   else addToPath (the removePath) False True 1);
                (basePath1, newP) = extractCommon basePath newTokens oldTokens k
            in if oldPos basePath1 + 1 \<ge> int (length oldTokens) \<and> newP + 1 \<ge> int (length newTokens)
               then Found (lastComponent basePath1)
               else Searching (bestPath1(k \<mapsto> basePath1))
                 (if newP + 1 \<ge> int (length newTokens) then Some (raised minDiagonal (k + 1)) else minDiagonal)
                 (if oldPos basePath1 + 1 \<ge> int (length oldTokens) then Some (lowered maxDiagonal (k - 1)) else maxDiagonal)))"

function diagonal_loop ::
  "'a list \<Rightarrow> 'a list \<Rightarrow> int \<Rightarrow> int \<Rightarrow> best_paths \<Rightarrow> int option \<Rightarrow> int option \<Rightarrow> search" where
  "diagonal_loop newTokens oldTokens editLength k bestPath minDiagonal maxDiagonal =
     (if k \<le> lowered maxDiagonal editLength then
        (case diagonal_step newTokens oldTokens k bestPath minDiagonal maxDiagonal of
           Found cs \<Rightarrow> Found cs
         | Searching bp lo hi \<Rightarrow> diagonal_loop newTokens oldTokens editLength (k + 2) bp lo hi)
      else Searching bestPath minDiagonal maxDiagonal)"
  by auto
termination
  by (relation "measure (\<lambda>(ns, os, d, k, _). nat (d + 2 - k))") (auto simp: lowered_def split: option.splits)

declare diagonal_loop.simps [simp del]

definition execEditLength ::
  "'a list \<Rightarrow> 'a list \<Rightarrow> int \<Rightarrow> best_paths \<Rightarrow> int option \<Rightarrow> int option \<Rightarrow> search" where
  "execEditLength newTokens oldTokens editLength bestPath minDiagonal maxDiagonal =
     diagonal_loop newTokens oldTokens editLength (raised minDiagonal (- editLength)) bestPath minDiagonal maxDiagonal"

text \<open>The rounds; running past \<open>maxEditLength\<close> returns \<open>undefined\<close> (None).\<close>

function diff_rounds ::
  "'a list \<Rightarrow> 'a list \<Rightarrow> int \<Rightarrow> best_paths \<Rightarrow> int option \<Rightarrow> int option \<Rightarrow> component list option" where
  "diff_rounds newTokens oldTokens editLength bestPath minDiagonal maxDiagonal =
     (if editLength \<le> int (length newTokens) + int (length oldTokens) then
        (case execEditLength newTokens oldTokens editLength bestPath minDiagonal maxDiagonal of
           Found cs \<Rightarrow> Some cs
         | Searching bp lo hi \<Rightarrow> diff_rounds newTokens oldTokens (editLength + 1) bp lo hi)
      else None)"
  by auto
termination
  by (relation "measure (\<lambda>(ns, os, d, _). nat (int (length ns) + int (length os) + 1 - d))") auto

declare diff_rounds.simps [simp del]

subsection \<open>The result\<close>

record 'u change =
  ch_value :: "'u list"
  ch_count :: nat
  ch_added :: bool
  ch_removed :: bool

fun component_values :: "component list \<Rightarrow> 'u list list \<Rightarrow> 'u list list \<Rightarrow> nat \<Rightarrow> nat \<Rightarrow> 'u change list" where
  "component_values [] newTokens oldTokens newP oldP = []"
| "component_values (c # cs) newTokens oldTokens newP oldP =
     (let n = comp_count c;
          change = (\<lambda>v. \<lparr>ch_value = v, ch_count = n, ch_added = comp_added c, ch_removed = comp_removed c\<rparr>)
      in if \<not> comp_removed c
         then change (concat (slice newP (newP + n) newTokens)) #
           component_values cs newTokens oldTokens (newP + n) (if comp_added c then oldP else oldP + n)
         else change (concat (slice oldP (oldP + n) oldTokens)) #
           component_values cs newTokens oldTokens newP (oldP + n))"

definition buildValues :: "component list \<Rightarrow> 'u list list \<Rightarrow> 'u list list \<Rightarrow> 'u change list" where
  "buildValues lastComp newTokens oldTokens = component_values (rev lastComp) newTokens oldTokens 0 0"

definition diffWithOptionsObj :: "'u list list \<Rightarrow> 'u list list \<Rightarrow> 'u change list option" where
  "diffWithOptionsObj oldTokens newTokens =
     (let (p, newP) = extractCommon \<lparr>oldPos = - 1, lastComponent = []\<rparr> newTokens oldTokens 0 in
      if oldPos p + 1 \<ge> int (length oldTokens) \<and> newP + 1 \<ge> int (length newTokens)
      then Some (buildValues (lastComponent p) newTokens oldTokens)
      else map_option (\<lambda>cs. buildValues cs newTokens oldTokens)
        (diff_rounds newTokens oldTokens 1 [0 \<mapsto> p] None None))"

subsection \<open>Lines\<close>

text \<open>\<open>value.split(/(\n|\r\n)/)\<close>: lines and line ends by turns.\<close>

fun split_line_ends :: "jstring \<Rightarrow> jstring \<Rightarrow> jstring list" where
  "split_line_ends line [] = [line]"
| "split_line_ends line (c # s) =
     (if c = 10 then line # [10] # split_line_ends [] s
      else if c = 13 \<and> s \<noteq> [] \<and> hd s = 10 then line # [13, 10] # split_line_ends [] (tl s)
      else split_line_ends (line @ [c]) s)"

text \<open>The loop of \<open>tokenize2\<close>: entries at odd places are appended to the line before.\<close>

fun merge_line_ends :: "nat \<Rightarrow> jstring list \<Rightarrow> jstring list \<Rightarrow> jstring list" where
  "merge_line_ends i ret [] = ret"
| "merge_line_ends i ret (line # ls) =
     merge_line_ends (Suc i) (if odd i then butlast ret @ [last ret @ line] else ret @ [line]) ls"

definition tokenize2 :: "jstring \<Rightarrow> jstring list" where
  "tokenize2 s =
     (let parts = split_line_ends [] s
      in merge_line_ends 0 [] (if last parts = [] then butlast parts else parts))"

definition removeEmpty :: "jstring list \<Rightarrow> jstring list" where
  "removeEmpty ts = filter (\<lambda>t. t \<noteq> []) ts"

definition diffLines :: "jstring \<Rightarrow> jstring \<Rightarrow> nat change list option" where
  "diffLines oldStr newStr = diffWithOptionsObj (removeEmpty (tokenize2 oldStr)) (removeEmpty (tokenize2 newStr))"

subsection \<open>Scripts\<close>

text \<open>A chain of components (the last first) describes how the second list becomes the third.\<close>

inductive edits :: "component list \<Rightarrow> 'a list \<Rightarrow> 'a list \<Rightarrow> bool" where
  start: "edits [] [] []"
| add: "edits cs os ns \<Longrightarrow> t \<noteq> [] \<Longrightarrow>
    edits (\<lparr>comp_count = length t, comp_added = True, comp_removed = False\<rparr> # cs) os (ns @ t)"
| remove: "edits cs os ns \<Longrightarrow> t \<noteq> [] \<Longrightarrow>
    edits (\<lparr>comp_count = length t, comp_added = False, comp_removed = True\<rparr> # cs) (os @ t) ns"
| keep: "edits cs os ns \<Longrightarrow> t \<noteq> [] \<Longrightarrow>
    edits (\<lparr>comp_count = length t, comp_added = False, comp_removed = False\<rparr> # cs) (os @ t) (ns @ t)"

inductive_cases edits_Cons: "edits (c # cs) os ns"

lemma edits_addToPath:
  assumes "edits (lastComponent p) os ns"
  shows "edits (lastComponent (addToPath p True False 0)) os (ns @ [t])"
    and "edits (lastComponent (addToPath p False True 1)) (os @ [t]) ns"
proof -
  show "edits (lastComponent (addToPath p True False 0)) os (ns @ [t])"
  proof (cases "lastComponent p")
    case Nil
    with assms edits.add [of "[]" os ns "[t]"] show ?thesis by (simp add: addToPath_def)
  next
    case (Cons l prev)
    show ?thesis
    proof (cases "comp_added l \<and> \<not> comp_removed l")
      case True
      with assms Cons obtain ms u where "edits prev os ms" "u \<noteq> []" "ns = ms @ u"
          "l = \<lparr>comp_count = length u, comp_added = True, comp_removed = False\<rparr>"
        by (auto elim: edits_Cons)
      with edits.add [of prev os ms "u @ [t]"] Cons show ?thesis by (simp add: addToPath_def)
    next
      case False
      with assms Cons edits.add [of "l # prev" os ns "[t]"] show ?thesis by (auto simp: addToPath_def)
    qed
  qed
  show "edits (lastComponent (addToPath p False True 1)) (os @ [t]) ns"
  proof (cases "lastComponent p")
    case Nil
    with assms edits.remove [of "[]" os ns "[t]"] show ?thesis by (simp add: addToPath_def)
  next
    case (Cons l prev)
    show ?thesis
    proof (cases "\<not> comp_added l \<and> comp_removed l")
      case True
      with assms Cons obtain ms u where "edits prev ms ns" "u \<noteq> []" "os = ms @ u"
          "l = \<lparr>comp_count = length u, comp_added = False, comp_removed = True\<rparr>"
        by (auto elim: edits_Cons)
      with edits.remove [of prev ms ns "u @ [t]"] Cons show ?thesis by (simp add: addToPath_def)
    next
      case False
      with assms Cons edits.remove [of "l # prev" os ns "[t]"] show ?thesis by (auto simp: addToPath_def)
    qed
  qed
qed

subsection \<open>Valid paths\<close>

text \<open>A path on the diagonal \<open>k\<close> has consumed \<open>oldPos + 1\<close> old and \<open>oldPos + 1 - k\<close> new tokens.\<close>

definition path_ok :: "'a list \<Rightarrow> 'a list \<Rightarrow> int \<Rightarrow> edit_path \<Rightarrow> bool" where
  "path_ok ns os k p \<longleftrightarrow>
     0 \<le> oldPos p + 1 \<and> oldPos p + 1 \<le> int (length os) \<and> 0 \<le> oldPos p + 1 - k \<and> oldPos p + 1 - k \<le> int (length ns) \<and>
     edits (lastComponent p) (take (nat (oldPos p + 1)) os) (take (nat (oldPos p + 1 - k)) ns)"

lemma commonCount_agree:
  "commonCount ns os (int x - 1) (int y - 1) = c \<Longrightarrow> x \<le> length os \<Longrightarrow> y \<le> length ns \<Longrightarrow>
     x + c \<le> length os \<and> y + c \<le> length ns \<and> take c (drop x os) = take c (drop y ns)"
proof (induction c arbitrary: x y)
  case (Suc c)
  have step: "y < length ns" "x < length os" "os ! x = ns ! y" "commonCount ns os (int x) (int y) = c"
    using Suc.prems(1) by (subst (asm) commonCount.simps, auto split: if_splits)+
  have "commonCount ns os (int (Suc x) - 1) (int (Suc y) - 1) = c" using step(4) by simp
  from Suc.IH [OF this] step show ?case by (simp add: Cons_nth_drop_Suc [symmetric])
qed simp

lemma extract_ok:
  assumes "path_ok ns os k p" "extractCommon p ns os k = (q, newP)"
  shows "path_ok ns os k q \<and> oldPos q \<ge> oldPos p \<and> newP = oldPos q - k"
proof -
  define x y where "x = nat (oldPos p + 1)" and "y = nat (oldPos p + 1 - k)"
  have pos: "oldPos p = int x - 1" "oldPos p - k = int y - 1" "x \<le> length os" "y \<le> length ns"
      and ed: "edits (lastComponent p) (take x os) (take y ns)"
    using assms(1) by (auto simp: path_ok_def x_def y_def)
  define c where "c = commonCount ns os (int x - 1) (int y - 1)"
  from commonCount_agree [OF c_def [symmetric] pos(3,4)]
  have c: "x + c \<le> length os" "y + c \<le> length ns" "take c (drop x os) = take c (drop y ns)" by auto
  have e: "commonCount ns os (oldPos p) (oldPos p - k) = c"
    unfolding c_def pos(1) [symmetric] pos(2) [symmetric] ..
  have "q = \<lparr>oldPos = oldPos p + int c, lastComponent =
      (if c > 0 then \<lparr>comp_count = c, comp_added = False, comp_removed = False\<rparr> # lastComponent p else lastComponent p)\<rparr>"
      "newP = oldPos p - k + int c"
    using assms(2) unfolding extractCommon_def Let_def e by simp_all
  then have q: "oldPos q = int (x + c) - 1" "newP = int (y + c) - 1"
      "lastComponent q = (if c > 0 then \<lparr>comp_count = c, comp_added = False, comp_removed = False\<rparr> # lastComponent p else lastComponent p)"
    using pos(1,2) by simp_all
  have "edits (lastComponent q) (take (x + c) os) (take (y + c) ns)"
  proof (cases "c = 0")
    case False
    then have "edits (\<lparr>comp_count = length (take c (drop x os)), comp_added = False, comp_removed = False\<rparr> # lastComponent p)
        (take x os @ take c (drop x os)) (take y ns @ take c (drop x os))"
      using c(1) by (intro edits.keep ed) auto
    with False c q show ?thesis by (simp add: take_add)
  qed (use ed q in simp)
  moreover have "nat (oldPos q + 1) = x + c" "nat (oldPos q + 1 - k) = y + c" using q(1) pos by auto
  ultimately show ?thesis using q c pos by (simp add: path_ok_def)
qed

text \<open>What visiting a diagonal does, given the path \<open>p\<close> that it gets.\<close>

definition visited :: "'a list \<Rightarrow> 'a list \<Rightarrow> int \<Rightarrow> best_paths \<Rightarrow> edit_path \<Rightarrow> bool" where
  "visited ns os k bp p \<longleftrightarrow>
     (\<forall>lo hi. diagonal_step ns os k bp lo hi =
       (if oldPos p + 1 = int (length os) \<and> oldPos p + 1 - k = int (length ns) then Found (lastComponent p)
        else Searching (bp(k - 1 := None, k \<mapsto> p))
          (if oldPos p + 1 - k = int (length ns) then Some (raised lo (k + 1)) else lo)
          (if oldPos p + 1 = int (length os) then Some (lowered hi (k - 1)) else hi)))"

lemma clear_same: "(if bp (j::int) \<noteq> None then bp(j := None) else bp) = bp(j := None)"
  by auto

lemma visit_base:
  assumes "path_ok ns os k b"
    and "\<And>lo hi. diagonal_step ns os k bp lo hi =
      (let (b1, newP) = extractCommon b ns os k
       in if oldPos b1 + 1 \<ge> int (length os) \<and> newP + 1 \<ge> int (length ns) then Found (lastComponent b1)
          else Searching (bp(k - 1 := None, k \<mapsto> b1))
            (if newP + 1 \<ge> int (length ns) then Some (raised lo (k + 1)) else lo)
            (if oldPos b1 + 1 \<ge> int (length os) then Some (lowered hi (k - 1)) else hi))"
  obtains p where "path_ok ns os k p" "oldPos b \<le> oldPos p" "visited ns os k bp p"
proof -
  obtain p newP where e: "extractCommon b ns os k = (p, newP)" by (cases "extractCommon b ns os k")
  note ok = extract_ok [OF assms(1) e]
  then have "int (length os) \<le> oldPos p + 1 \<longleftrightarrow> oldPos p + 1 = int (length os)"
      "int (length ns) \<le> newP + 1 \<longleftrightarrow> oldPos p + 1 - k = int (length ns)"
    by (auto simp: path_ok_def)
  with ok assms(2) e show thesis by (intro that [of p]) (simp_all add: visited_def)
qed

lemma visit_add:
  assumes "bp (k + 1) = Some a" "path_ok ns os (k + 1) a" "oldPos a - k < int (length ns)"
    and "\<And>r. bp (k - 1) = Some r \<Longrightarrow> oldPos r + 1 < int (length os) \<Longrightarrow> oldPos r < oldPos a"
  obtains p where "path_ok ns os k p" "oldPos a \<le> oldPos p" "visited ns os k bp p"
proof -
  let ?b = "addToPath a True False 0" and ?y = "nat (oldPos a - k)"
  have y: "0 \<le> oldPos a - k" "?y < length ns" "nat (oldPos a + 1 - (k + 1)) = ?y" "nat (oldPos a + 1 - k) = Suc ?y"
    using assms(2,3) by (auto simp: path_ok_def)
  then have "edits (lastComponent ?b) (take (nat (oldPos a + 1)) os) (take (Suc ?y) ns)"
    using edits_addToPath(1) [of a "take (nat (oldPos a + 1)) os" "take ?y ns" "ns ! ?y"] assms(2)
    by (simp add: path_ok_def take_Suc_conv_app_nth)
  then have ok: "path_ok ns os k ?b" using assms(2) y by (simp add: path_ok_def) (simp add: addToPath_def)
  have b: "oldPos ?b = oldPos a" by (simp add: addToPath_def)
  have clear: "(if bp (k - 1) \<noteq> None then bp(k - 1 := None) else bp) = bp(k - 1 := None)" by (rule clear_same)
  have "diagonal_step ns os k bp lo hi =
      (let (b1, newP) = extractCommon ?b ns os k
       in if oldPos b1 + 1 \<ge> int (length os) \<and> newP + 1 \<ge> int (length ns) then Found (lastComponent b1)
          else Searching (bp(k - 1 := None, k \<mapsto> b1))
            (if newP + 1 \<ge> int (length ns) then Some (raised lo (k + 1)) else lo)
            (if oldPos b1 + 1 \<ge> int (length os) then Some (lowered hi (k - 1)) else hi))" for lo hi
    using assms(1,3,4) y(1)
    unfolding diagonal_step_def Let_def clear by (cases "bp (k - 1)") simp_all
  from visit_base [OF ok this] obtain p where "path_ok ns os k p" "oldPos ?b \<le> oldPos p" "visited ns os k bp p" .
  then show thesis using b by (intro that) simp_all
qed

lemma visit_remove:
  assumes "bp (k - 1) = Some r" "path_ok ns os (k - 1) r" "oldPos r + 1 < int (length os)"
    and "\<And>a. bp (k + 1) = Some a \<Longrightarrow> 0 \<le> oldPos a - k \<Longrightarrow> oldPos a - k < int (length ns) \<Longrightarrow> \<not> oldPos r < oldPos a"
  obtains p where "path_ok ns os k p" "oldPos r + 1 \<le> oldPos p" "visited ns os k bp p"
proof -
  let ?b = "addToPath r False True 1" and ?x = "nat (oldPos r + 1)"
  have x: "0 \<le> oldPos r + 1" "?x < length os" "nat (oldPos r + 2) = Suc ?x" "oldPos r + 1 - (k - 1) = oldPos r + 2 - k"
    using assms(2,3) by (auto simp: path_ok_def)
  have "edits (lastComponent r) (take ?x os) (take (nat (oldPos r + 2 - k)) ns)"
    using assms(2) unfolding path_ok_def x(4) by blast
  from edits_addToPath(2) [OF this, of "os ! ?x"] x(2)
  have "edits (lastComponent ?b) (take (Suc ?x) os) (take (nat (oldPos r + 2 - k)) ns)"
    by (simp add: take_Suc_conv_app_nth)
  moreover have b: "oldPos ?b = oldPos r + 1" by (simp add: addToPath_def)
  ultimately have ok: "path_ok ns os k ?b" using assms(2,3) x by (simp add: path_ok_def add.assoc)
  have "diagonal_step ns os k bp lo hi =
      (let (b1, newP) = extractCommon ?b ns os k
       in if oldPos b1 + 1 \<ge> int (length os) \<and> newP + 1 \<ge> int (length ns) then Found (lastComponent b1)
          else Searching (bp(k - 1 := None, k \<mapsto> b1))
            (if newP + 1 \<ge> int (length ns) then Some (raised lo (k + 1)) else lo)
            (if oldPos b1 + 1 \<ge> int (length os) then Some (lowered hi (k - 1)) else hi))" for lo hi
    using assms(1,3,4)
    by (cases "bp (k + 1)") (auto simp add: diagonal_step_def Let_def)
  from visit_base [OF ok this] obtain p where "path_ok ns os k p" "oldPos ?b \<le> oldPos p" "visited ns os k bp p" .
  then show thesis using b by (intro that) simp_all
qed

subsection \<open>Progress of the search\<close>

abbreviation used_old :: "edit_path \<Rightarrow> int" where
  "used_old p \<equiv> oldPos p + 1"

abbreviation used_new :: "int \<Rightarrow> edit_path \<Rightarrow> int" where
  "used_new k p \<equiv> oldPos p + 1 - k"

text \<open>A path found in round \<open>d\<close> has used at least \<open>d\<close> tokens; one at the end of a text is on
  or beyond the bound it caused.\<close>

definition entry_ok :: "'a list \<Rightarrow> 'a list \<Rightarrow> int \<Rightarrow> int \<Rightarrow> int option \<Rightarrow> int option \<Rightarrow> edit_path \<Rightarrow> bool" where
  "entry_ok ns os d k lo hi p \<longleftrightarrow>
     path_ok ns os k p \<and> d \<le> used_old p + used_new k p \<and>
     \<not> (used_old p = int (length os) \<and> used_new k p = int (length ns)) \<and>
     (used_old p = int (length os) \<longrightarrow> (\<exists>h. hi = Some h \<and> h < k)) \<and>
     (used_new k p = int (length ns) \<longrightarrow> (\<exists>l. lo = Some l \<and> k < l))"

definition at_new_end :: "'a list \<Rightarrow> 'a list \<Rightarrow> best_paths \<Rightarrow> int \<Rightarrow> bool" where
  "at_new_end ns os bp k \<longleftrightarrow> (\<exists>p. bp k = Some p \<and> used_new k p = int (length ns) \<and> used_old p < int (length os))"

definition at_old_end :: "'a list \<Rightarrow> 'a list \<Rightarrow> best_paths \<Rightarrow> int \<Rightarrow> bool" where
  "at_old_end ns os bp k \<longleftrightarrow> (\<exists>p. bp k = Some p \<and> used_old p = int (length os) \<and> used_new k p < int (length ns))"

definition paths_ok :: "'a list \<Rightarrow> 'a list \<Rightarrow> int \<Rightarrow> best_paths \<Rightarrow> bool" where
  "paths_ok ns os d bp \<longleftrightarrow> (\<forall>k p. bp k = Some p \<longrightarrow> path_ok ns os k p \<and> - d \<le> k \<and> k \<le> d)"

text \<open>After round \<open>d\<close> every diagonal of its parity between the bounds has a path.\<close>

definition round_ok :: "'a list \<Rightarrow> 'a list \<Rightarrow> int \<Rightarrow> best_paths \<Rightarrow> int option \<Rightarrow> int option \<Rightarrow> bool" where
  "round_ok ns os d bp lo hi \<longleftrightarrow>
     paths_ok ns os d bp \<and>
     (\<forall>k. even (k + d) \<longrightarrow> - d \<le> k \<longrightarrow> k \<le> d \<longrightarrow> (\<forall>l. lo = Some l \<longrightarrow> l \<le> k + 1) \<longrightarrow>
        (\<forall>h. hi = Some h \<longrightarrow> k \<le> h + 1) \<longrightarrow> (\<exists>p. bp k = Some p \<and> entry_ok ns os d k lo hi p)) \<and>
     (\<forall>l. lo = Some l \<longrightarrow> odd (l + d) \<and> - d < l \<and> l \<le> d + 1 \<and> at_new_end ns os bp (l - 1)) \<and>
     (\<forall>h. hi = Some h \<longrightarrow> odd (h + d) \<and> - d \<le> h + 1 \<and> h < d \<and> at_old_end ns os bp (h + 1))"

definition first_diagonal :: "int option \<Rightarrow> int \<Rightarrow> int" where
  "first_diagonal lo d = raised lo (- (d + 1))"

text \<open>During round \<open>d + 1\<close>, about to visit \<open>k\<close>.\<close>

definition loop_ok ::
  "'a list \<Rightarrow> 'a list \<Rightarrow> int \<Rightarrow> best_paths \<Rightarrow> int option \<Rightarrow> int option \<Rightarrow> int \<Rightarrow> best_paths \<Rightarrow> int option \<Rightarrow> int option \<Rightarrow> bool" where
  "loop_ok ns os d bp0 lo0 hi0 k bp lo hi \<longleftrightarrow>
     first_diagonal lo0 d \<le> k \<and> odd (k + d) \<and> paths_ok ns os (d + 1) bp \<and>
     (\<forall>j. even (j + d) \<longrightarrow> k - 1 \<le> j \<longrightarrow> bp j = bp0 j) \<and>
     (\<forall>j. odd (j + d) \<longrightarrow> first_diagonal lo0 d \<le> j \<longrightarrow> j < k \<longrightarrow> (\<exists>p. bp j = Some p \<and> entry_ok ns os (d + 1) j lo hi p)) \<and>
     (lo = lo0 \<and> (lo0 = None \<or> k = first_diagonal lo0 d) \<or>
      (\<exists>l. lo = Some l \<and> even (l + d) \<and> first_diagonal lo0 d < l \<and> l \<le> k \<and> at_new_end ns os bp (l - 1))) \<and>
     (hi = hi0 \<and> (\<forall>h. hi0 = Some h \<longrightarrow> k \<le> h) \<or>
      (\<exists>h. hi = Some h \<and> h = k - 3 \<and> first_diagonal lo0 d \<le> h + 1 \<and> h \<le> d \<and> at_old_end ns os bp (h + 1)))"

lemma entry_unfinished:
  "entry_ok ns os d k lo hi p \<Longrightarrow> d < int (length os) + int (length ns)"
  by (auto simp: entry_ok_def path_ok_def)

text \<open>The bounds stay on their side of the diagonal on which the texts end.\<close>

lemma bounds_apart:
  assumes "round_ok ns os d bp lo hi"
  shows "lo = Some l \<Longrightarrow> l \<le> int (length os) - int (length ns)"
    and "hi = Some h \<Longrightarrow> int (length os) - int (length ns) \<le> h"
  using assms by (auto simp: round_ok_def at_new_end_def at_old_end_def)

lemma round_start:
  assumes "round_ok ns os d bp lo hi" "0 \<le> d"
  shows "loop_ok ns os d bp lo hi (first_diagonal lo d) bp lo hi \<and> first_diagonal lo d \<le> lowered hi (d + 1)"
proof -
  have lo: "odd (l + d)" "- d < l" "l \<le> d + 1" if "lo = Some l" for l using assms(1) that by (auto simp: round_ok_def)
  have hi: "odd (h + d)" "- d \<le> h + 1" "h < d" if "hi = Some h" for h using assms(1) that by (auto simp: round_ok_def)
  have between: "l \<le> h" if "lo = Some l" "hi = Some h" for l h
    using bounds_apart [OF assms(1)] that by fastforce
  have s: "first_diagonal lo d = (case lo of None \<Rightarrow> - (d + 1) | Some l \<Rightarrow> l)"
    using lo by (fastforce simp: first_diagonal_def raised_def split: option.split)
  have "paths_ok ns os (d + 1) bp" using assms(1) by (fastforce simp: round_ok_def paths_ok_def)
  moreover have "odd (first_diagonal lo d + d)" using lo by (auto simp: s split: option.split)
  moreover have "first_diagonal lo d \<le> h" if "hi = Some h" for h
    using that hi(2) [OF that] between by (auto simp: s split: option.split)
  moreover have "first_diagonal lo d \<le> d + 1" using lo assms(2) by (auto simp: s split: option.split)
  ultimately show ?thesis
    by (auto simp: loop_ok_def lowered_def split: option.split)
qed

lemma lowered_le: "k \<le> lowered hi e \<Longrightarrow> k \<le> e \<and> (\<forall>h. hi = Some h \<longrightarrow> k \<le> h)"
  by (auto simp: lowered_def split: option.splits)

lemma raised_ge: "raised lo e \<le> k \<Longrightarrow> e \<le> k \<and> (\<forall>l. lo = Some l \<longrightarrow> l \<le> k)"
  by (auto simp: raised_def split: option.splits)

text \<open>Every diagonal that is visited gets a path; the first one after a lower bound ends the new
  text again and the one on the upper bound ends the old text again.\<close>

lemma loop_visit:
  assumes r: "round_ok ns os d bp0 lo0 hi0" and l: "loop_ok ns os d bp0 lo0 hi0 k bp lo hi"
    and k: "k \<le> lowered hi (d + 1)" and d: "0 \<le> d"
  obtains p where "path_ok ns os k p" "d + 1 \<le> used_old p + used_new k p" "visited ns os k bp p" "hi = hi0"
    "lo0 \<noteq> None \<Longrightarrow> k = first_diagonal lo0 d \<Longrightarrow> used_new k p = int (length ns)"
    "hi0 = Some k \<Longrightarrow> used_old p = int (length os)"
proof -
  let ?s = "first_diagonal lo0 d"
  have ke: "k \<le> d + 1" and kh0: "\<And>h. hi = Some h \<Longrightarrow> k \<le> h" using lowered_le [OF k] by auto
  have "hi = hi0 \<or> (\<exists>h. hi = Some h \<and> h = k - 3)" using l unfolding loop_ok_def by blast
  with kh0 have hi: "hi = hi0" by fastforce
  with kh0 have kh: "\<And>h. hi0 = Some h \<Longrightarrow> k \<le> h" by simp
  have odd_k: "odd (k + d)" and sk: "?s \<le> k" and same: "\<And>j. even (j + d) \<Longrightarrow> k - 1 \<le> j \<Longrightarrow> bp j = bp0 j"
    using l by (auto simp: loop_ok_def)
  have nb: "bp (k - 1) = bp0 (k - 1)" "bp (k + 1) = bp0 (k + 1)" using same odd_k by auto
  have sl: "\<And>l. lo0 = Some l \<Longrightarrow> l \<le> k" "- (d + 1) \<le> k"
    using raised_ge [OF sk [unfolded first_diagonal_def]] by auto
  have lo_s: "lo0 = Some l \<Longrightarrow> ?s = l" for l using r by (fastforce simp: round_ok_def first_diagonal_def raised_def)
  have range: "bp0 j = Some p \<Longrightarrow> path_ok ns os j p \<and> - d \<le> j \<and> j \<le> d" for j p
    using r by (auto simp: round_ok_def paths_ok_def)
  have has: "\<exists>p. bp0 j = Some p \<and> entry_ok ns os d j lo0 hi0 p"
    if "even (j + d)" "- d \<le> j" "j \<le> d" "\<And>l. lo0 = Some l \<Longrightarrow> l \<le> j + 1" "\<And>h. hi0 = Some h \<Longrightarrow> j \<le> h + 1" for j
    using r that unfolding round_ok_def by blast
  have add_data: "d \<le> used_old a + used_new (k + 1) a" if "bp0 (k + 1) = Some a" for a
  proof -
    have "\<exists>p. bp0 (k + 1) = Some p \<and> entry_ok ns os d (k + 1) lo0 hi0 p"
      using range [OF that] odd_k sl kh by (intro has) fastforce+
    with that show ?thesis by (auto simp: entry_ok_def)
  qed
  have top: "used_old a = int (length os) \<and> used_new (k + 1) a < int (length ns)" if "hi0 = Some k" "bp0 (k + 1) = Some a" for a
    using r that by (auto simp: round_ok_def at_old_end_def)
  have top_ex: "\<exists>a. bp0 (k + 1) = Some a" if "hi0 = Some k"
    using r that by (auto simp: round_ok_def at_old_end_def)
  have low: "used_new (k - 1) q = int (length ns)" if "lo0 = Some k" "bp0 (k - 1) = Some q" for q
    using r that by (auto simp: round_ok_def at_new_end_def)
  show thesis
  proof (cases "k = - (d + 1)")
    case True
    have "\<exists>p. bp0 (k + 1) = Some p \<and> entry_ok ns os d (k + 1) lo0 hi0 p"
    proof (rule has)
      show "k + 1 \<le> d" using True d by simp
    qed (use True odd_k sl kh in fastforce)+
    then obtain a where a: "bp0 (k + 1) = Some a" "entry_ok ns os d (k + 1) lo0 hi0 a" by blast
    have none: "bp0 (k - 1) = None" using range [of "k - 1"] True by (cases "bp0 (k - 1)") auto
    have "used_new (k + 1) a \<noteq> int (length ns)" using a(2) sl by (fastforce simp: entry_ok_def)
    then have "oldPos a - k < int (length ns)" using a(2) by (auto simp: entry_ok_def path_ok_def)
    from visit_add [of bp k a ns os, OF _ _ this] a nb none obtain p where
      p: "path_ok ns os k p" "oldPos a \<le> oldPos p" "visited ns os k bp p" by (auto simp: entry_ok_def)
    have "lo0 \<noteq> Some k" using r True by (auto simp: round_ok_def)
    then show thesis using p hi add_data [OF a(1)] top a(1) lo_s
      by (intro that [OF p(1) _ p(3)]) (fastforce simp: path_ok_def)+
  next
    case False
    have "\<exists>q. bp0 (k - 1) = Some q \<and> entry_ok ns os d (k - 1) lo0 hi0 q"
    proof (rule has)
      have "k \<noteq> - d" using odd_k by auto
      then show "- d \<le> k - 1" using False sl(2) by linarith
    qed (use odd_k sl(1) kh ke in force)+
    then obtain q where q: "bp0 (k - 1) = Some q" "entry_ok ns os d (k - 1) lo0 hi0 q" by blast
    have "used_old q \<noteq> int (length os)" using q(2) kh by (fastforce simp: entry_ok_def)
    then have qn: "oldPos q + 1 < int (length os)" using q(2) by (auto simp: entry_ok_def path_ok_def)
    show thesis
    proof (cases "\<exists>a. bp0 (k + 1) = Some a \<and> oldPos a - k < int (length ns) \<and> oldPos q < oldPos a")
      case True
      then obtain a where a: "bp0 (k + 1) = Some a" "oldPos a - k < int (length ns)" "oldPos q < oldPos a" by blast
      from visit_add [of bp k a ns os, OF _ _ a(2)] a nb q range [OF a(1)] obtain p where
        p: "path_ok ns os k p" "oldPos a \<le> oldPos p" "visited ns os k bp p" by auto
      show thesis using p hi add_data [OF a(1)] top a lo_s low q(1)
        by (intro that [OF p(1) _ p(3)]) (fastforce simp: path_ok_def)+
    next
      case no: False
      from visit_remove [of bp k q ns os, OF _ _ qn] no nb q obtain p where
        p: "path_ok ns os k p" "oldPos q + 1 \<le> oldPos p" "visited ns os k bp p" by (auto simp: entry_ok_def)
      have "hi0 \<noteq> Some k" using top_ex top no qn by fastforce
      then show thesis using p hi q lo_s low
        by (intro that [OF p(1) _ p(3)]) (fastforce simp: path_ok_def entry_ok_def)+
    qed
  qed
qed

lemma loop_next:
  assumes r: "round_ok ns os d bp0 lo0 hi0" and l: "loop_ok ns os d bp0 lo0 hi0 k bp lo hi"
    and k: "k \<le> lowered hi (d + 1)" and d: "0 \<le> d"
    and p: "path_ok ns os k p" "d + 1 \<le> used_old p + used_new k p" "hi = hi0"
      "lo0 \<noteq> None \<Longrightarrow> k = first_diagonal lo0 d \<Longrightarrow> used_new k p = int (length ns)"
      "hi0 = Some k \<Longrightarrow> used_old p = int (length os)"
    and unfinished: "\<not> (used_old p = int (length os) \<and> used_new k p = int (length ns))"
  shows "loop_ok ns os d bp0 lo0 hi0 (k + 2) (bp(k - 1 := None, k \<mapsto> p))
      (if used_new k p = int (length ns) then Some (raised lo (k + 1)) else lo)
      (if used_old p = int (length os) then Some (lowered hi (k - 1)) else hi)"
    (is "loop_ok _ _ _ _ _ _ _ ?bp ?lo ?hi")
proof -
  let ?s = "first_diagonal lo0 d"
  have odd_k: "odd (k + d)" and sk: "?s \<le> k" and po: "paths_ok ns os (d + 1) bp"
      and same: "\<And>j. even (j + d) \<Longrightarrow> k - 1 \<le> j \<Longrightarrow> bp j = bp0 j"
      and past: "\<And>j. odd (j + d) \<Longrightarrow> ?s \<le> j \<Longrightarrow> j < k \<Longrightarrow> \<exists>p. bp j = Some p \<and> entry_ok ns os (d + 1) j lo hi p"
    using l by (auto simp: loop_ok_def)
  have kh: "\<And>h. hi = Some h \<Longrightarrow> k \<le> h" and ke: "k \<le> d + 1" "- (d + 1) \<le> k"
    using lowered_le [OF k] raised_ge [OF sk [unfolded first_diagonal_def]] by auto
  have lo_le: "m \<le> k" if "lo = Some m" for m
    using l that raised_ge [OF sk [unfolded first_diagonal_def]] unfolding loop_ok_def by blast
  have lo': "?lo = (if used_new k p = int (length ns) then Some (k + 1) else lo)"
    using lo_le by (fastforce simp: raised_def split: option.split)
  have hi': "?hi = (if used_old p = int (length os) then Some (k - 1) else hi)"
    using kh by (fastforce simp: lowered_def split: option.split)
  have entry: "entry_ok ns os (d + 1) k ?lo ?hi p"
    using p(1,2) unfinished unfolding lo' hi' by (auto simp: entry_ok_def)
  have old_entry: "entry_ok ns os (d + 1) j ?lo ?hi q" if "entry_ok ns os (d + 1) j lo hi q" "j < k" for j q
    using that kh lo_le unfolding lo' hi' by (fastforce simp: entry_ok_def)
  have end_p: "at_new_end ns os ?bp k" if "used_new k p = int (length ns)"
    using that unfinished p(1) by (auto simp: at_new_end_def path_ok_def)
  have end_o: "at_old_end ns os ?bp k" if "used_old p = int (length os)"
    using that unfinished p(1) by (auto simp: at_old_end_def path_ok_def)
  have keep: "at_new_end ns os ?bp (l - 1)" if "at_new_end ns os bp (l - 1)" "even (l + d)" "l \<le> k" for l
  proof -
    have "l - 1 \<noteq> k - 1" "l - 1 \<noteq> k" using that(2,3) odd_k by auto
    with that(1) show ?thesis by (simp add: at_new_end_def)
  qed
  have "paths_ok ns os (d + 1) ?bp" using po p(1) ke by (auto simp: paths_ok_def)
  moreover have "\<forall>j. even (j + d) \<longrightarrow> k + 2 - 1 \<le> j \<longrightarrow> ?bp j = bp0 j"
    using same by auto
  moreover have "\<forall>j. odd (j + d) \<longrightarrow> ?s \<le> j \<longrightarrow> j < k + 2 \<longrightarrow> (\<exists>p. ?bp j = Some p \<and> entry_ok ns os (d + 1) j ?lo ?hi p)"
  proof (intro allI impI)
    fix j assume j: "odd (j + d)" "?s \<le> j" "j < k + 2"
    then have "j \<noteq> k - 1" "j \<noteq> k + 1" using odd_k by auto
    with j past [of j] old_entry [of j] entry show "\<exists>p. ?bp j = Some p \<and> entry_ok ns os (d + 1) j ?lo ?hi p"
      by (cases "j = k") fastforce+
  qed
  moreover have "?lo = lo0 \<and> (lo0 = None \<or> k + 2 = ?s) \<or>
      (\<exists>l. ?lo = Some l \<and> even (l + d) \<and> ?s < l \<and> l \<le> k + 2 \<and> at_new_end ns os ?bp (l - 1))"
  proof (cases "used_new k p = int (length ns)")
    case True
    with end_p sk odd_k show ?thesis unfolding lo' by auto
  next
    case False
    with l keep p(4) show ?thesis unfolding lo' by (auto simp: loop_ok_def)
  qed
  moreover have "?hi = hi0 \<and> (\<forall>h. hi0 = Some h \<longrightarrow> k + 2 \<le> h) \<or>
      (\<exists>h. ?hi = Some h \<and> h = k + 2 - 3 \<and> ?s \<le> h + 1 \<and> h \<le> d \<and> at_old_end ns os ?bp (h + 1))"
  proof (cases "used_old p = int (length os)")
    case True
    with end_o sk ke show ?thesis unfolding hi' by auto
  next
    case False
    have "k + 2 \<le> h" if "hi0 = Some h" for h
    proof -
      have h: "odd (h + d)" "k \<le> h" "k \<noteq> h" using r kh p(3,5) False that by (auto simp: round_ok_def)
      then have "k + 1 \<noteq> h" using odd_k by auto
      with h show ?thesis by linarith
    qed
    with False p(3) show ?thesis unfolding hi' by auto
  qed
  ultimately show ?thesis using sk odd_k unfolding loop_ok_def by simp
qed

text \<open>The end of a round.\<close>

lemma loop_end:
  assumes r: "round_ok ns os d bp0 lo0 hi0" and l: "loop_ok ns os d bp0 lo0 hi0 k bp lo hi"
    and k: "\<not> k \<le> lowered hi (d + 1)" and d: "0 \<le> d"
  shows "round_ok ns os (d + 1) bp lo hi"
proof -
  let ?s = "first_diagonal lo0 d"
  have odd_k: "odd (k + d)" and sk: "?s \<le> k" and po: "paths_ok ns os (d + 1) bp"
      and past: "\<And>j. odd (j + d) \<Longrightarrow> ?s \<le> j \<Longrightarrow> j < k \<Longrightarrow> \<exists>p. bp j = Some p \<and> entry_ok ns os (d + 1) j lo hi p"
    using l by (auto simp: loop_ok_def)
  have first: "?s \<le> lowered hi0 (d + 1)" using round_start [OF r d] by simp
  have s_ge: "- (d + 1) \<le> ?s" by (simp add: first_diagonal_def raised_def split: option.split)
  have hi_cases: "hi = hi0 \<and> (\<forall>h. hi0 = Some h \<longrightarrow> k \<le> h) \<or>
      (\<exists>h. hi = Some h \<and> h = k - 3 \<and> ?s \<le> h + 1 \<and> h \<le> d \<and> at_old_end ns os bp (h + 1))"
    and lo_cases: "lo = lo0 \<and> (lo0 = None \<or> k = ?s) \<or>
      (\<exists>l. lo = Some l \<and> even (l + d) \<and> ?s < l \<and> l \<le> k \<and> at_new_end ns os bp (l - 1))"
    using l unfolding loop_ok_def by blast+
  have hi: "hi = None \<and> d + 1 < k \<or> (\<exists>h. hi = Some h \<and> h = k - 3 \<and> ?s \<le> h + 1 \<and> h \<le> d \<and> at_old_end ns os bp (h + 1))"
  proof (cases "hi = hi0 \<and> (\<forall>h. hi0 = Some h \<longrightarrow> k \<le> h)")
    case True
    have "hi0 = None"
    proof (rule ccontr)
      assume "hi0 \<noteq> None"
      then obtain h where "hi0 = Some h" by blast
      moreover from this have "h < d" using r by (simp add: round_ok_def)
      ultimately show False using True k by (simp add: lowered_def)
    qed
    with True k show ?thesis by (simp add: lowered_def)
  qed (use hi_cases in blast)
  have "k \<noteq> ?s" using hi_cases first k by auto
  then have lo: "lo = None \<and> ?s = - (d + 1) \<or>
      (\<exists>l. lo = Some l \<and> even (l + d) \<and> ?s < l \<and> at_new_end ns os bp (l - 1))"
    using lo_cases by (auto simp: first_diagonal_def raised_def)
  have "\<exists>p. bp j = Some p \<and> entry_ok ns os (d + 1) j lo hi p"
    if "even (j + (d + 1))" "- (d + 1) \<le> j" "j \<le> d + 1" "\<forall>l. lo = Some l \<longrightarrow> l \<le> j + 1" "\<forall>h. hi = Some h \<longrightarrow> j \<le> h + 1" for j
  proof (rule past)
    show "odd (j + d)" using that(1) by simp
    show "?s \<le> j" using lo that(2,4) by fastforce
    show "j < k" using hi that(3,5) by fastforce
  qed
  moreover have "odd (m + (d + 1)) \<and> - (d + 1) < m \<and> m \<le> d + 1 + 1 \<and> at_new_end ns os bp (m - 1)" if "lo = Some m" for m
  proof -
    have m: "even (m + d)" "?s < m" "at_new_end ns os bp (m - 1)" using lo that by auto
    then obtain p where "bp (m - 1) = Some p" by (auto simp: at_new_end_def)
    then have "m - 1 \<le> d + 1" using po unfolding paths_ok_def by blast
    with m s_ge show ?thesis by (intro conjI) (simp, linarith, linarith, simp)
  qed
  moreover have "odd (h + (d + 1)) \<and> - (d + 1) \<le> h + 1 \<and> h < d + 1 \<and> at_old_end ns os bp (h + 1)" if "hi = Some h" for h
  proof -
    have h: "h = k - 3" "?s \<le> h + 1" "h \<le> d" "at_old_end ns os bp (h + 1)" using hi that by auto
    have "odd (h + (d + 1))" unfolding h(1) using odd_k by simp
    with h s_ge show ?thesis by (intro conjI) (simp, linarith, linarith, simp)
  qed
  ultimately show ?thesis using po unfolding round_ok_def by blast
qed

text \<open>A round finds a script or leaves the invariant, and it finds one when the texts are used up.\<close>

lemma found_edits:
  assumes "path_ok ns os k p" "used_old p = int (length os)" "used_new k p = int (length ns)"
  shows "edits (lastComponent p) os ns"
  using assms by (simp add: path_ok_def)

lemma loop_result:
  assumes "round_ok ns os d bp0 lo0 hi0" "0 \<le> d" "loop_ok ns os d bp0 lo0 hi0 k bp lo hi"
  shows "case diagonal_loop ns os (d + 1) k bp lo hi of
      Found cs \<Rightarrow> edits cs os ns
    | Searching bp' lo' hi' \<Rightarrow> round_ok ns os (d + 1) bp' lo' hi' \<and>
        (k \<le> lowered hi (d + 1) \<longrightarrow> d + 1 < int (length os) + int (length ns))"
  using assms(3)
proof (induction "nat (d + 3 - k)" arbitrary: k bp lo hi rule: less_induct)
  case less
  show ?case
  proof (cases "k \<le> lowered hi (d + 1)")
    case False
    with loop_end [OF assms(1) less.prems False assms(2)] show ?thesis
      by (subst diagonal_loop.simps) simp
  next
    case True
    from loop_visit [OF assms(1) less.prems True assms(2)] obtain p where
      p: "path_ok ns os k p" "d + 1 \<le> used_old p + used_new k p" "visited ns os k bp p" "hi = hi0"
        "lo0 \<noteq> None \<Longrightarrow> k = first_diagonal lo0 d \<Longrightarrow> used_new k p = int (length ns)"
        "hi0 = Some k \<Longrightarrow> used_old p = int (length os)" by blast
    show ?thesis
    proof (cases "used_old p = int (length os) \<and> used_new k p = int (length ns)")
      case True': True
      then have "edits (lastComponent p) os ns" using found_edits [OF p(1)] by blast
      with True True' p(3) show ?thesis by (subst diagonal_loop.simps) (simp add: visited_def)
    next
      case unfinished: False
      obtain bp1 lo1 hi1 where step: "diagonal_step ns os k bp lo hi = Searching bp1 lo1 hi1"
          and next_ok: "loop_ok ns os d bp0 lo0 hi0 (k + 2) bp1 lo1 hi1"
        using p(3) [unfolded visited_def if_not_P [OF unfinished], rule_format]
          loop_next [OF assms(1) less.prems True assms(2) p(1,2,4,5,6) unfinished]
        by (rule that)
      have more: "d + 1 < int (length os) + int (length ns)"
        using p(1,2) unfinished by (auto simp: path_ok_def)
      have "nat (d + 3 - (k + 2)) < nat (d + 3 - k)" using lowered_le [OF True] by simp
      from less.hyps [OF this next_ok] more show ?thesis
        using True by (subst diagonal_loop.simps) (simp add: step split: search.splits)
    qed
  qed
qed

lemma rounds_result:
  assumes "round_ok ns os d bp lo hi" "0 \<le> d" "d < int (length os) + int (length ns)"
  shows "\<exists>cs. diff_rounds ns os (d + 1) bp lo hi = Some cs \<and> edits cs os ns"
  using assms
proof (induction "nat (int (length os) + int (length ns) - d)" arbitrary: d bp lo hi rule: less_induct)
  case less
  note start = round_start [OF less.prems(1,2)]
  have exec: "execEditLength ns os (d + 1) bp lo hi = diagonal_loop ns os (d + 1) (first_diagonal lo d) bp lo hi"
    by (simp add: execEditLength_def first_diagonal_def)
  note result = loop_result [OF less.prems(1,2) conjunct1 [OF start]]
  show ?case
  proof (cases "execEditLength ns os (d + 1) bp lo hi")
    case (Found cs)
    with result less.prems(3) show ?thesis by (subst diff_rounds.simps) (simp add: exec)
  next
    case (Searching bp1 lo1 hi1)
    with result start have ok: "round_ok ns os (d + 1) bp1 lo1 hi1" "d + 1 < int (length os) + int (length ns)"
      by (simp_all add: exec)
    have "\<exists>cs. diff_rounds ns os (d + 1 + 1) bp1 lo1 hi1 = Some cs \<and> edits cs os ns"
      using less.prems(2,3) ok by (intro less.hyps) auto
    with less.prems(3) show ?thesis by (subst diff_rounds.simps) (simp add: Searching)
  qed
qed

text \<open>The values of the components are those of the script.\<close>

lemma component_values_append:
  "component_values (cs @ ds) ns os i j =
     component_values cs ns os i j @
     component_values ds ns os (i + sum_list (map comp_count (filter (\<lambda>c. \<not> comp_removed c) cs)))
       (j + sum_list (map comp_count (filter (\<lambda>c. comp_removed c \<or> \<not> comp_added c) cs)))"
  by (induction cs arbitrary: i j) (auto simp: Let_def add.assoc)

lemma edits_lengths:
  "edits cs os ns \<Longrightarrow>
     sum_list (map comp_count (filter (\<lambda>c. \<not> comp_removed c) (rev cs))) = length ns \<and>
     sum_list (map comp_count (filter (\<lambda>c. comp_removed c \<or> \<not> comp_added c) (rev cs))) = length os"
  by (induction rule: edits.induct) auto

definition old_side :: "'u change list \<Rightarrow> 'u list" where
  "old_side parts = concat (map ch_value (filter (\<lambda>c. \<not> ch_added c) parts))"

definition new_side :: "'u change list \<Rightarrow> 'u list" where
  "new_side parts = concat (map ch_value (filter (\<lambda>c. \<not> ch_removed c) parts))"

lemma sides_append [simp]:
  "old_side (a @ b) = old_side a @ old_side b" "new_side (a @ b) = new_side a @ new_side b"
  by (simp_all add: old_side_def new_side_def)

lemma edits_values:
  assumes "edits cs os ns"
  shows "old_side (component_values (rev cs) (ns @ ns') (os @ os') 0 0) = concat os \<and>
    new_side (component_values (rev cs) (ns @ ns') (os @ os') 0 0) = concat ns"
  using assms
proof (induction arbitrary: ns' os' rule: edits.induct)
  case start
  then show ?case by (simp add: old_side_def new_side_def)
next
  case (add cs os ns t)
  from add.IH [of "t @ ns'" os'] edits_lengths [OF add.hyps(1)] show ?case
    by (simp add: component_values_append old_side_def new_side_def Let_def slice_def)
next
  case (remove cs os ns t)
  from remove.IH [of ns' "t @ os'"] edits_lengths [OF remove.hyps(1)] show ?case
    by (simp add: component_values_append old_side_def new_side_def Let_def slice_def)
next
  case (keep cs os ns t)
  from keep.IH [of "t @ ns'" "t @ os'"] edits_lengths [OF keep.hyps(1)] show ?case
    by (simp add: component_values_append old_side_def new_side_def Let_def slice_def)
qed

lemma edits_buildValues:
  "edits cs os ns \<Longrightarrow> old_side (buildValues cs ns os) = concat os \<and> new_side (buildValues cs ns os) = concat ns"
  using edits_values [of cs os ns "[]" "[]"] by (simp add: buildValues_def)

text \<open>Before the first round no bound is set. When one text is already used up, the first round does
  what it would do with that bound.\<close>

lemma first_round_old:
  assumes "path_ok ns os 0 p" "used_old p = int (length os)" "used_new 0 p < int (length ns)"
  shows "execEditLength ns os 1 [0 \<mapsto> p] None None = execEditLength ns os 1 [0 \<mapsto> p] None (Some (- 1))"
proof -
  from visit_add [of "[0 \<mapsto> p]" "- 1" p ns os] assms obtain q where
    q: "path_ok ns os (- 1) q" "oldPos p \<le> oldPos q" and v: "visited ns os (- 1) [0 \<mapsto> p] q" by auto
  have n: "used_old q = int (length os)" using q assms(2) by (auto simp: path_ok_def)
  have "diagonal_step ns os (- 1) [0 \<mapsto> p] None None = diagonal_step ns os (- 1) [0 \<mapsto> p] None (Some (- 1))"
    using v n unfolding visited_def by (simp add: lowered_def)
  then show ?thesis
    by (simp add: execEditLength_def raised_def) (subst (1 2) diagonal_loop.simps, simp add: lowered_def)
qed

lemma first_round_new:
  assumes "path_ok ns os 0 p" "used_old p < int (length os)" "used_new 0 p = int (length ns)"
  shows "execEditLength ns os 1 [0 \<mapsto> p] None None = execEditLength ns os 1 [0 \<mapsto> p] (Some 1) None"
proof -
  from visit_remove [of "[0 \<mapsto> p]" 1 p ns os] assms obtain q where
    q: "path_ok ns os 1 q" "oldPos p + 1 \<le> oldPos q" and v: "visited ns os 1 [0 \<mapsto> p] q" by auto
  have n: "used_new 1 q = int (length ns)" using q assms(3) by (auto simp: path_ok_def)
  have one: "diagonal_step ns os 1 [0 \<mapsto> p] None None = diagonal_step ns os 1 [0 \<mapsto> p] (Some 1) None"
    using v n unfolding visited_def by (simp add: raised_def)
  have "diagonal_step ns os (- 1) [0 \<mapsto> p] None None = Searching [0 \<mapsto> p] None None"
    using assms(3) by (auto simp: diagonal_step_def Let_def fun_upd_def)
  then have "execEditLength ns os 1 [0 \<mapsto> p] None None = diagonal_loop ns os 1 1 [0 \<mapsto> p] None None"
    by (simp add: execEditLength_def raised_def) (subst (1) diagonal_loop.simps, simp add: lowered_def)
  also have "\<dots> = execEditLength ns os 1 [0 \<mapsto> p] (Some 1) None"
    using one by (simp add: execEditLength_def raised_def) (subst (1 2) diagonal_loop.simps, simp add: lowered_def)
  finally show ?thesis .
qed

lemma rounds_first:
  assumes "path_ok ns os 0 p" "\<not> (used_old p = int (length os) \<and> used_new 0 p = int (length ns))"
  shows "\<exists>cs. diff_rounds ns os 1 [0 \<mapsto> p] None None = Some cs \<and> edits cs os ns"
proof -
  define hi where "hi = (if used_old p = int (length os) then Some (- 1) else None :: int option)"
  define lo where "lo = (if used_new 0 p = int (length ns) then Some 1 else None :: int option)"
  have le: "used_old p \<le> int (length os)" "used_new 0 p \<le> int (length ns)" "0 \<le> used_old p" using assms(1) by (auto simp: path_ok_def)
  have "entry_ok ns os 0 0 lo hi p" using assms le by (auto simp: entry_ok_def hi_def lo_def)
  then have "round_ok ns os 0 [0 \<mapsto> p] lo hi"
    using assms le by (auto simp: round_ok_def paths_ok_def at_new_end_def at_old_end_def hi_def lo_def split: if_splits)
  from rounds_result [OF this] assms(2) le
  obtain cs where cs: "diff_rounds ns os 1 [0 \<mapsto> p] lo hi = Some cs" "edits cs os ns" by auto
  have "execEditLength ns os 1 [0 \<mapsto> p] None None = execEditLength ns os 1 [0 \<mapsto> p] lo hi"
    using first_round_old [OF assms(1)] first_round_new [OF assms(1)] assms(2) le
    by (cases "used_old p = int (length os)"; cases "used_new 0 p = int (length ns)") (simp_all add: hi_def lo_def)
  then have "diff_rounds ns os 1 [0 \<mapsto> p] None None = diff_rounds ns os 1 [0 \<mapsto> p] lo hi"
    by (subst (1 2) diff_rounds.simps) simp
  with cs show ?thesis by auto
qed

lemma diff_script: "\<exists>cs. diffWithOptionsObj os ns = Some (buildValues cs ns os) \<and> edits cs os ns"
proof -
  obtain p newP where e: "extractCommon \<lparr>oldPos = - 1, lastComponent = []\<rparr> ns os 0 = (p, newP)"
    by (cases "extractCommon \<lparr>oldPos = - 1, lastComponent = []\<rparr> ns os 0")
  have "path_ok ns os 0 \<lparr>oldPos = - 1, lastComponent = []\<rparr>" by (simp add: path_ok_def edits.start)
  from extract_ok [OF this e] have ok: "path_ok ns os 0 p" "newP = oldPos p" by auto
  have full: "(oldPos p + 1 \<ge> int (length os) \<and> newP + 1 \<ge> int (length ns)) =
      (used_old p = int (length os) \<and> used_new 0 p = int (length ns))"
    using ok by (auto simp: path_ok_def)
  show ?thesis
  proof (cases "used_old p = int (length os) \<and> used_new 0 p = int (length ns)")
    case True
    then have "edits (lastComponent p) os ns" using found_edits [OF ok(1)] by blast
    with True full e show ?thesis by (auto simp: diffWithOptionsObj_def)
  next
    case False
    from rounds_first [OF ok(1) this] obtain cs where "diff_rounds ns os 1 [0 \<mapsto> p] None None = Some cs" "edits cs os ns"
      by blast
    with False full e show ?thesis by (auto simp: diffWithOptionsObj_def)
  qed
qed

subsection \<open>Tokens are lines\<close>

text \<open>\<open>content.match(/[^\n]*\n|[^\n]+/g) ?? []\<close>: the lines with their line ends. The first
  argument is the line read so far.\<close>

fun line_tokens :: "jstring \<Rightarrow> jstring \<Rightarrow> jstring list" where
  "line_tokens line [] = (if line = [] then [] else [line])"
| "line_tokens line (c # s) =
     (if c = 10 then (line @ [c]) # line_tokens [] s else line_tokens (line @ [c]) s)"

definition splitLinesWithEndings :: "jstring \<Rightarrow> jstring list" where
  "splitLinesWithEndings content = line_tokens [] content"

definition without_empty_end :: "jstring list \<Rightarrow> jstring list" where
  "without_empty_end parts = (if last parts = [] then butlast parts else parts)"

lemma split_line_ends_nonempty [simp]: "split_line_ends line s \<noteq> []"
  by (induction line s rule: split_line_ends.induct) auto

lemma line_tokens_cr: "s \<noteq> [] \<Longrightarrow> hd s = 10 \<Longrightarrow> line_tokens line s = (line @ [10]) # line_tokens [] (tl s)"
  by (cases s) auto

lemma merge_lines:
  "even i \<Longrightarrow> merge_line_ends i ret (without_empty_end (split_line_ends line s)) = ret @ line_tokens line s"
proof (induction line s arbitrary: i ret rule: split_line_ends.induct)
  case (1 line)
  then show ?case by (simp add: without_empty_end_def)
next
  case (2 line c s)
  have two: "without_empty_end (a # b # split_line_ends [] t) = a # b # without_empty_end (split_line_ends [] t)" for a b t
    by (simp add: without_empty_end_def)
  show ?case
  proof (cases "c = 10")
    case True
    with "2.IH"(1) [of "Suc (Suc i)" "ret @ [line @ [10]]"] "2.prems" show ?thesis by (simp add: two)
  next
    case no: False
    show ?thesis
    proof (cases "c = 13 \<and> s \<noteq> [] \<and> hd s = 10")
      case True
      with "2.IH"(2) [OF no True, of "Suc (Suc i)" "ret @ [line @ [13, 10]]"] "2.prems" no show ?thesis
        by (simp add: two line_tokens_cr)
    next
      case False
      with "2.IH"(3) [OF no False, of i ret] "2.prems" no show ?thesis by auto
    qed
  qed
qed

lemma line_tokens_concat: "concat (line_tokens line s) = line @ s"
  by (induction line s rule: line_tokens.induct) auto

lemma line_tokens_nonempty: "t \<in> set (line_tokens line s) \<Longrightarrow> t \<noteq> []"
  by (induction line s rule: line_tokens.induct) (auto split: if_splits)

lemma concat_lines [simp]: "concat (splitLinesWithEndings s) = s"
  by (simp add: splitLinesWithEndings_def line_tokens_concat)

lemma tokens_eq: "removeEmpty (tokenize2 s) = splitLinesWithEndings s"
proof -
  have "tokenize2 s = line_tokens [] s"
    using merge_lines [of 0 "[]" "[]" s] by (simp add: tokenize2_def without_empty_end_def Let_def)
  moreover have "filter (\<lambda>t. t \<noteq> []) (line_tokens [] s) = line_tokens [] s"
    using line_tokens_nonempty by (auto intro: filter_True)
  ultimately show ?thesis by (simp add: removeEmpty_def splitLinesWithEndings_def)
qed

text \<open>C7. The line difference is always found: the search ends with a script within as many rounds as
  the two texts have lines, and the script is exact. The kept and removed parts make up the
  old text and the kept and added parts the new one.\<close>

theorem diffLines_total:
  "\<exists>parts. diffLines oldStr newStr = Some parts \<and> old_side parts = oldStr \<and> new_side parts = newStr"
proof -
  obtain cs where cs: "diffLines oldStr newStr = Some (buildValues cs (splitLinesWithEndings newStr) (splitLinesWithEndings oldStr))"
      "edits cs (splitLinesWithEndings oldStr) (splitLinesWithEndings newStr)"
    using diff_script by (auto simp: diffLines_def tokens_eq)
  from edits_buildValues [OF cs(2)] cs(1) show ?thesis by simp
qed

end
