(* ===== verification/Edit_Match.thy ===== *)
theory Edit_Match
  imports Line_Diff "HOL-Library.Multiset"
begin

text \<open>
  Finding and replacing the texts of an edit (\<open>harness/tools/edit-diff.js\<close> in
  \<open>bridge.mjs\<close>): line endings, the exact and the fuzzy search, replacement of disjoint
  regions, and replacement that keeps the lines it does not touch. The Unicode normal form
  NFKC is a parameter \<open>nfkc\<close>.

  An edit whose texts occur in the file replaces exactly these regions; a fuzzy edit keeps
  every line outside the lines it matches.
\<close>

subsection \<open>Line endings\<close>

definition detectLineEnding :: "jstring \<Rightarrow> jstring" where
  "detectLineEnding content =
     (case indexOf content [10] of
        None \<Rightarrow> [10]
      | Some lf \<Rightarrow>
          (case indexOf content [13, 10] of None \<Rightarrow> [10] | Some crlf \<Rightarrow> (if crlf < lf then [13, 10] else [10])))"

fun replace_crlf :: "jstring \<Rightarrow> jstring" where
  "replace_crlf [] = []"
| "replace_crlf (c # s) =
     (if c = 13 \<and> s \<noteq> [] \<and> hd s = 10 then 10 # replace_crlf (tl s) else c # replace_crlf s)"

definition normalizeToLF :: "jstring \<Rightarrow> jstring" where
  "normalizeToLF s = map (\<lambda>c. if c = 13 then 10 else c) (replace_crlf s)"

definition restoreLineEndings :: "jstring \<Rightarrow> jstring \<Rightarrow> jstring" where
  "restoreLineEndings s ending =
     (if ending = [13, 10] then concat (map (\<lambda>c. if c = 10 then [13, 10] else [c]) s) else s)"

definition stripBom :: "jstring \<Rightarrow> jstring \<times> jstring" where
  "stripBom content = (if content \<noteq> [] \<and> hd content = 65279 then ([65279], tl content) else ([], content))"

subsection \<open>Fuzzy search\<close>

definition trimEnd :: "jstring \<Rightarrow> jstring" where
  "trimEnd s = rev (dropWhile js_space (rev s))"

definition fuzzy_char :: "nat \<Rightarrow> nat" where
  "fuzzy_char c =
     (if 8216 \<le> c \<and> c \<le> 8219 then 39
      else if 8220 \<le> c \<and> c \<le> 8223 then 34
      else if 8208 \<le> c \<and> c \<le> 8213 \<or> c = 8722 then 45
      else if c = 160 \<or> 8194 \<le> c \<and> c \<le> 8202 \<or> c = 8239 \<or> c = 8287 \<or> c = 12288 then 32
      else c)"

definition normalizeForFuzzyMatch :: "(jstring \<Rightarrow> jstring) \<Rightarrow> jstring \<Rightarrow> jstring" where
  "normalizeForFuzzyMatch nfkc s = map fuzzy_char (join_with [10] (map trimEnd (split_on 10 (nfkc s))))"

record match_result =
  match_found :: bool
  match_index :: int
  match_length :: nat
  usedFuzzyMatch :: bool

definition fuzzyFindText :: "(jstring \<Rightarrow> jstring) \<Rightarrow> jstring \<Rightarrow> jstring \<Rightarrow> match_result" where
  "fuzzyFindText nfkc content oldText =
     (case indexOf content oldText of
        Some i \<Rightarrow> \<lparr>match_found = True, match_index = int i, match_length = length oldText, usedFuzzyMatch = False\<rparr>
      | None \<Rightarrow>
          (let fuzzyOldText = normalizeForFuzzyMatch nfkc oldText in
           case indexOf (normalizeForFuzzyMatch nfkc content) fuzzyOldText of
             None \<Rightarrow> \<lparr>match_found = False, match_index = - 1, match_length = 0, usedFuzzyMatch = False\<rparr>
           | Some i \<Rightarrow> \<lparr>match_found = True, match_index = int i, match_length = length fuzzyOldText, usedFuzzyMatch = True\<rparr>))"

text \<open>\<open>s.split(sep)\<close> for a string: an empty separator splits into code units.\<close>

function split_by :: "jstring \<Rightarrow> jstring \<Rightarrow> jstring list" where
  "split_by sep s =
     (if sep = [] then map (\<lambda>c. [c]) s
      else
        (case indexOf s sep of
           None \<Rightarrow> [s]
         | Some i \<Rightarrow> take i s # split_by sep (drop (i + length sep) s)))"
  by auto
termination
proof (relation "measure (\<lambda>(sep, s). length s)")
  fix sep s :: jstring and i
  assume "sep \<noteq> []" "indexOf s sep = Some i"
  then show "((sep, drop (i + length sep) s), sep, s) \<in> measure (\<lambda>(sep, s). length s)"
    using indexOf_Some [of s sep i] by (cases sep) auto
qed simp

declare split_by.simps [simp del]

definition countOccurrences :: "(jstring \<Rightarrow> jstring) \<Rightarrow> jstring \<Rightarrow> jstring \<Rightarrow> int" where
  "countOccurrences nfkc content oldText =
     int (length (split_by (normalizeForFuzzyMatch nfkc oldText) (normalizeForFuzzyMatch nfkc content))) - 1"

subsection \<open>Replacement\<close>

record replacement =
  editIndex :: nat
  matchIndex :: nat
  matchLength :: nat
  rep_newText :: jstring

definition replace_at :: "nat \<Rightarrow> nat \<Rightarrow> jstring \<Rightarrow> jstring \<Rightarrow> jstring" where
  "replace_at i n new content = take i content @ new @ drop (i + n) content"

text \<open>The replacements are made from the last to the first.\<close>

definition applyReplacements :: "jstring \<Rightarrow> replacement list \<Rightarrow> nat \<Rightarrow> jstring" where
  "applyReplacements content rs offset =
     foldr (\<lambda>r result. replace_at (matchIndex r - offset) (matchLength r) (rep_newText r) result) rs content"

type_synonym span = "nat \<times> nat"

fun line_spans :: "nat \<Rightarrow> jstring list \<Rightarrow> span list" where
  "line_spans offset [] = []"
| "line_spans offset (line # ls) = (offset, offset + length line) # line_spans (offset + length line) ls"

definition getLineSpans :: "jstring \<Rightarrow> span list" where
  "getLineSpans content = line_spans 0 (splitLinesWithEndings content)"

fun find_start :: "nat \<Rightarrow> span list \<Rightarrow> nat \<Rightarrow> nat option" where
  "find_start i [] p = None"
| "find_start i ((start, end_pos) # spans) p =
     (if start \<le> p \<and> p < end_pos then Some i else find_start (Suc i) spans p)"

fun find_end :: "nat \<Rightarrow> span list \<Rightarrow> nat \<Rightarrow> nat" where
  "find_end i [] p = i"
| "find_end i ((start, end_pos) # spans) p = (if end_pos < p then find_end (Suc i) spans p else i)"

definition outside_error :: jstring where
  "outside_error = js_text ''Replacement range is outside the base content.''"

definition getReplacementLineRange :: "span list \<Rightarrow> replacement \<Rightarrow> (jstring, span) result" where
  "getReplacementLineRange ls r =
     (case find_start 0 ls (matchIndex r) of
        None \<Rightarrow> Inl outside_error
      | Some startLine \<Rightarrow>
          (let endLine = find_end startLine (drop startLine ls) (matchIndex r + matchLength r) in
           if endLine \<ge> length ls then Inl outside_error else Inr (startLine, endLine + 1)))"

record line_group =
  startLine :: nat
  endLine :: nat
  group_replacements :: "replacement list"

text \<open>One turn of the loop that groups replacements whose lines overlap.\<close>

definition add_to_groups :: "line_group list \<Rightarrow> span \<Rightarrow> replacement \<Rightarrow> line_group list" where
  "add_to_groups groups rng r =
     (if groups \<noteq> [] \<and> fst rng < endLine (last groups)
      then butlast groups @ [(last groups)\<lparr>endLine := max (endLine (last groups)) (snd rng),
        group_replacements := group_replacements (last groups) @ [r]\<rparr>]
      else groups @ [\<lparr>startLine = fst rng, endLine = snd rng, group_replacements = [r]\<rparr>])"

fun group_lines :: "span list \<Rightarrow> line_group list \<Rightarrow> replacement list \<Rightarrow> (jstring, line_group list) result" where
  "group_lines ls groups [] = Inr groups"
| "group_lines ls groups (r # rs) =
     (case getReplacementLineRange ls r of
        Inl e \<Rightarrow> Inl e
      | Inr rng \<Rightarrow> group_lines ls (add_to_groups groups rng r) rs)"

fun render_groups :: "jstring list \<Rightarrow> span list \<Rightarrow> jstring \<Rightarrow> nat \<Rightarrow> line_group list \<Rightarrow> jstring" where
  "render_groups originalLines baseLines baseContent i [] = concat (drop i originalLines)"
| "render_groups originalLines baseLines baseContent i (g # gs) =
     (let groupStart = fst (baseLines ! startLine g);
          groupEnd = snd (baseLines ! (endLine g - 1))
      in concat (slice i (startLine g) originalLines) @
         applyReplacements (slice groupStart groupEnd baseContent) (group_replacements g) groupStart @
         render_groups originalLines baseLines baseContent (endLine g) gs)"

definition line_count_error :: jstring where
  "line_count_error = js_text ''Cannot preserve unchanged lines because the base content has a different line count.''"

definition applyReplacementsPreservingUnchangedLines ::
  "jstring \<Rightarrow> jstring \<Rightarrow> replacement list \<Rightarrow> (jstring, jstring) result" where
  "applyReplacementsPreservingUnchangedLines originalContent baseContent rs =
     (let originalLines = splitLinesWithEndings originalContent; baseLines = getLineSpans baseContent in
      if length originalLines \<noteq> length baseLines then Inl line_count_error
      else
        (case group_lines baseLines [] (sort_key matchIndex rs) of
           Inl e \<Rightarrow> Inl e
         | Inr groups \<Rightarrow> Inr (render_groups originalLines baseLines baseContent 0 groups)))"

subsection \<open>Edits\<close>

record edit =
  oldText :: jstring
  newText :: jstring

definition getNotFoundError :: "jstring \<Rightarrow> nat \<Rightarrow> nat \<Rightarrow> jstring" where
  "getNotFoundError path i totalEdits =
     (if totalEdits = 1 then js_text ''Could not find the exact text in '' @ path @
        js_text ''. The old text must match exactly including all whitespace and newlines.''
      else js_text ''Could not find edits['' @ js_nat i @ js_text ''] in '' @ path @
        js_text ''. The oldText must match exactly including all whitespace and newlines.'')"

definition getDuplicateError :: "jstring \<Rightarrow> nat \<Rightarrow> nat \<Rightarrow> int \<Rightarrow> jstring" where
  "getDuplicateError path i totalEdits occurrences =
     (if totalEdits = 1 then js_text ''Found '' @ js_int occurrences @ js_text '' occurrences of the text in '' @ path @
        js_text ''. The text must be unique. Please provide more context to make it unique.''
      else js_text ''Found '' @ js_int occurrences @ js_text '' occurrences of edits['' @ js_nat i @ js_text ''] in '' @ path @
        js_text ''. Each oldText must be unique. Please provide more context to make it unique.'')"

definition getEmptyOldTextError :: "jstring \<Rightarrow> nat \<Rightarrow> nat \<Rightarrow> jstring" where
  "getEmptyOldTextError path i totalEdits =
     (if totalEdits = 1 then js_text ''oldText must not be empty in '' @ path @ js_text ''.''
      else js_text ''edits['' @ js_nat i @ js_text ''].oldText must not be empty in '' @ path @ js_text ''.'')"

definition getNoChangeError :: "jstring \<Rightarrow> nat \<Rightarrow> jstring" where
  "getNoChangeError path totalEdits =
     (if totalEdits = 1 then js_text ''No changes made to '' @ path @ js_text ''. The replacement produced identical content. This might indicate an issue with special characters or the text not existing as expected.''
      else js_text ''No changes made to '' @ path @ js_text ''. The replacements produced identical content.'')"

definition overlap_error :: "jstring \<Rightarrow> replacement \<Rightarrow> replacement \<Rightarrow> jstring" where
  "overlap_error path previous current =
     js_text ''edits['' @ js_nat (editIndex previous) @ js_text ''] and edits['' @ js_nat (editIndex current) @
     js_text ''] overlap in '' @ path @ js_text ''. Merge them into one edit or target disjoint regions.''"

definition normalized_edit :: "edit \<Rightarrow> edit" where
  "normalized_edit e = \<lparr>oldText = normalizeToLF (oldText e), newText = normalizeToLF (newText e)\<rparr>"

fun first_empty :: "nat \<Rightarrow> edit list \<Rightarrow> nat option" where
  "first_empty i [] = None"
| "first_empty i (e # es) = (if oldText e = [] then Some i else first_empty (Suc i) es)"

fun match_edits :: "(jstring \<Rightarrow> jstring) \<Rightarrow> jstring \<Rightarrow> jstring \<Rightarrow> nat \<Rightarrow> nat \<Rightarrow> edit list \<Rightarrow> (jstring, replacement list) result" where
  "match_edits nfkc base path totalEdits i [] = Inr []"
| "match_edits nfkc base path totalEdits i (e # es) =
     (let m = fuzzyFindText nfkc base (oldText e); occurrences = countOccurrences nfkc base (oldText e) in
      if \<not> match_found m then Inl (getNotFoundError path i totalEdits)
      else if occurrences > 1 then Inl (getDuplicateError path i totalEdits occurrences)
      else
        (case match_edits nfkc base path totalEdits (Suc i) es of
           Inl err \<Rightarrow> Inl err
         | Inr rs \<Rightarrow> Inr (\<lparr>editIndex = i, matchIndex = nat (match_index m), matchLength = match_length m,
             rep_newText = newText e\<rparr> # rs)))"

fun first_overlap :: "replacement list \<Rightarrow> (replacement \<times> replacement) option" where
  "first_overlap (a # b # rs) =
     (if matchIndex a + matchLength a > matchIndex b then Some (a, b) else first_overlap (b # rs))"
| "first_overlap _ = None"

definition applyEditsToNormalizedContent ::
  "(jstring \<Rightarrow> jstring) \<Rightarrow> jstring \<Rightarrow> edit list \<Rightarrow> jstring \<Rightarrow> (jstring, jstring \<times> jstring) result" where
  "applyEditsToNormalizedContent nfkc content edit_list path =
     (let es = map normalized_edit edit_list; totalEdits = length es in
      case first_empty 0 es of
        Some i \<Rightarrow> Inl (getEmptyOldTextError path i totalEdits)
      | None \<Rightarrow>
          (let fuzzy = list_ex (\<lambda>e. usedFuzzyMatch (fuzzyFindText nfkc content (oldText e))) es;
               base = (if fuzzy then normalizeForFuzzyMatch nfkc content else content)
           in case match_edits nfkc base path totalEdits 0 es of
                Inl err \<Rightarrow> Inl err
              | Inr ms \<Rightarrow>
                  (let matched = sort_key matchIndex ms in
                   case first_overlap matched of
                     Some (a, b) \<Rightarrow> Inl (overlap_error path a b)
                   | None \<Rightarrow>
                       (case (if fuzzy then applyReplacementsPreservingUnchangedLines content base matched
                              else Inr (applyReplacements base matched 0)) of
                          Inl err \<Rightarrow> Inl err
                        | Inr new \<Rightarrow>
                            (if content = new then Inl (getNoChangeError path totalEdits) else Inr (content, new))))))"

subsection \<open>Exact edits\<close>

text \<open>Gaps and texts by turns.\<close>

fun weave :: "jstring list \<Rightarrow> jstring list \<Rightarrow> jstring" where
  "weave (g # gs) (t # ts) = g @ t @ weave gs ts"
| "weave gs ts = concat gs"

fun gaps_of :: "nat \<Rightarrow> jstring \<Rightarrow> replacement list \<Rightarrow> jstring list" where
  "gaps_of pos content [] = [drop pos content]"
| "gaps_of pos content (r # rs) =
     slice pos (matchIndex r) content # gaps_of (matchIndex r + matchLength r) content rs"

definition region :: "jstring \<Rightarrow> replacement \<Rightarrow> jstring" where
  "region content r = slice (matchIndex r) (matchIndex r + matchLength r) content"

fun disjoint_from :: "nat \<Rightarrow> nat \<Rightarrow> replacement list \<Rightarrow> bool" where
  "disjoint_from pos n [] = (pos \<le> n)"
| "disjoint_from pos n (r # rs) =
     (pos \<le> matchIndex r \<and> disjoint_from (matchIndex r + matchLength r) n rs)"

lemma disjoint_from_le: "disjoint_from pos n rs \<Longrightarrow> pos \<le> n"
  by (induction rs arbitrary: pos) fastforce+

lemma weave_regions:
  "disjoint_from pos (length content) rs \<Longrightarrow> weave (gaps_of pos content rs) (map (region content) rs) = drop pos content"
proof (induction rs arbitrary: pos)
  case (Cons r rs)
  have "drop pos content = slice pos (matchIndex r) content @ drop (matchIndex r) content"
    using Cons.prems by (simp add: slice_def) (metis append_take_drop_id drop_drop le_add_diff_inverse2)
  moreover have "drop (matchIndex r) content = region content r @ drop (matchIndex r + matchLength r) content"
    by (simp add: region_def slice_def) (metis append_take_drop_id drop_drop add.commute)
  ultimately show ?case using Cons by simp
qed simp

lemma apply_disjoint:
  "disjoint_from pos (length content) rs \<Longrightarrow>
     applyReplacements content rs 0 = take pos content @ weave (gaps_of pos content rs) (map rep_newText rs)"
proof (induction rs arbitrary: pos)
  case Nil
  then show ?case by (simp add: applyReplacements_def)
next
  case (Cons r rs)
  let ?q = "matchIndex r + matchLength r"
  have le: "pos \<le> matchIndex r" "?q \<le> length content" using Cons.prems disjoint_from_le by auto
  have "take (matchIndex r) content = take pos content @ slice pos (matchIndex r) content"
    using le(1) by (simp add: slice_def) (metis le_add_diff_inverse take_add)
  moreover have "applyReplacements content (r # rs) 0 = replace_at (matchIndex r) (matchLength r) (rep_newText r) (applyReplacements content rs 0)"
    by (simp add: applyReplacements_def)
  ultimately show ?case
    using Cons.IH [of ?q] Cons.prems le by (simp add: replace_at_def min_def)
qed

lemma first_overlap_disjoint:
  assumes "first_overlap rs = None" "\<And>r. r \<in> set rs \<Longrightarrow> matchIndex r + matchLength r \<le> n" "pos \<le> n"
    and "rs \<noteq> [] \<Longrightarrow> pos \<le> matchIndex (hd rs)"
  shows "disjoint_from pos n rs"
  using assms
proof (induction rs arbitrary: pos rule: first_overlap.induct)
  case (1 a b rs)
  then show ?case by (auto split: if_splits)
qed auto

lemma length_gaps: "length (gaps_of pos content rs) = Suc (length rs)"
  by (induction rs arbitrary: pos) auto

text \<open>The matches of texts that occur in the content.\<close>

definition edit_of :: "jstring \<Rightarrow> replacement \<Rightarrow> edit" where
  "edit_of content r = \<lparr>oldText = region content r, newText = rep_newText r\<rparr>"

lemma match_exact:
  assumes "match_edits nfkc content path totalEdits i es = Inr rs" "\<And>e. e \<in> set es \<Longrightarrow> indexOf content (oldText e) \<noteq> None"
  shows "map (edit_of content) rs = es \<and> (\<forall>r \<in> set rs. matchIndex r + matchLength r \<le> length content)"
  using assms
proof (induction es arbitrary: i rs)
  case (Cons e es)
  obtain j where j: "indexOf content (oldText e) = Some j" using Cons.prems(2) [of e] by auto
  obtain rs1 where rs: "match_edits nfkc content path totalEdits (Suc i) es = Inr rs1"
      "rs = \<lparr>editIndex = i, matchIndex = j, matchLength = length (oldText e), rep_newText = newText e\<rparr> # rs1"
    using Cons.prems(1) j by (auto simp: fuzzyFindText_def Let_def split: if_splits sum.splits)
  have "take (length (oldText e)) (drop j content) = oldText e" "j + length (oldText e) \<le> length content"
    using indexOf_Some [OF j] by (auto simp: prefix_def)
  with Cons.IH [OF rs(1)] Cons.prems(2) rs(2) show ?case by (simp add: edit_of_def region_def slice_def)
qed simp

lemma exact_not_fuzzy: "indexOf content t \<noteq> None \<Longrightarrow> \<not> usedFuzzyMatch (fuzzyFindText nfkc content t)"
  by (auto simp: fuzzyFindText_def)

lemma applyEdits_plain:
  assumes "applyEditsToNormalizedContent nfkc content edit_list path = Inr (base, new)"
    and "\<not> list_ex (\<lambda>e. usedFuzzyMatch (fuzzyFindText nfkc content (oldText e))) (map normalized_edit edit_list)"
  shows "\<exists>rs. match_edits nfkc content path (length (map normalized_edit edit_list)) 0 (map normalized_edit edit_list) = Inr rs \<and>
    first_overlap (sort_key matchIndex rs) = None \<and> new = applyReplacements content (sort_key matchIndex rs) 0 \<and>
    base = content \<and> content \<noteq> new"
proof -
  let ?es = "map normalized_edit edit_list"
  note def = assms(1) [unfolded applyEditsToNormalizedContent_def Let_def if_not_P [OF assms(2)]]
  have none: "first_empty 0 ?es = None" using def by (cases "first_empty 0 ?es") simp_all
  note def1 = def [unfolded none option.case]
  obtain rs where rs: "match_edits nfkc content path (length ?es) 0 ?es = Inr rs"
    using def1 by (cases "match_edits nfkc content path (length ?es) 0 ?es") simp_all
  note def2 = def1 [unfolded rs sum.case]
  have "first_overlap (sort_key matchIndex rs) = None"
    using def2 by (cases "first_overlap (sort_key matchIndex rs)") (simp_all add: case_prod_beta)
  with def2 rs show ?thesis by (auto split: if_splits)
qed

lemma applyEdits_exact:
  assumes "applyEditsToNormalizedContent nfkc content edit_list path = Inr (base, new)"
    and "\<And>e. e \<in> set edit_list \<Longrightarrow> indexOf content (normalizeToLF (oldText e)) \<noteq> None"
  shows "base = content \<and> base \<noteq> new \<and>
    (\<exists>gaps es. mset es = mset (map normalized_edit edit_list) \<and> length gaps = Suc (length es) \<and>
       content = weave gaps (map oldText es) \<and> new = weave gaps (map newText es))"
proof -
  let ?es = "map normalized_edit edit_list"
  have occ: "\<And>e. e \<in> set ?es \<Longrightarrow> indexOf content (oldText e) \<noteq> None" using assms(2) by (auto simp: normalized_edit_def)
  then have fz: "\<not> list_ex (\<lambda>e. usedFuzzyMatch (fuzzyFindText nfkc content (oldText e))) ?es"
    using exact_not_fuzzy by (auto simp: list_ex_iff)
  obtain rs where rs: "match_edits nfkc content path (length ?es) 0 ?es = Inr rs" "first_overlap (sort_key matchIndex rs) = None"
      "new = applyReplacements content (sort_key matchIndex rs) 0" "base = content" "content \<noteq> new"
    using applyEdits_plain [OF assms(1) fz] by blast
  let ?rs = "sort_key matchIndex rs"
  note m = match_exact [OF rs(1) occ]
  have dis: "disjoint_from 0 (length content) ?rs"
    using m rs(2) by (intro first_overlap_disjoint) auto
  have "mset (map (edit_of content) ?rs) = mset ?es"
    using m by (metis mset_map mset_sort)
  moreover have "content = weave (gaps_of 0 content ?rs) (map oldText (map (edit_of content) ?rs))"
    using weave_regions [OF dis] by (simp add: edit_of_def o_def)
  moreover have "new = weave (gaps_of 0 content ?rs) (map newText (map (edit_of content) ?rs))"
    using apply_disjoint [OF dis] rs(3) by (simp add: edit_of_def o_def)
  ultimately show ?thesis using rs(4,5) length_gaps [of 0 content ?rs] by (metis length_map)
qed

subsection \<open>Fuzzy edits keep the other lines\<close>

text \<open>The lines that a replacement touches.\<close>

definition touches :: "span list \<Rightarrow> replacement \<Rightarrow> nat \<Rightarrow> bool" where
  "touches spans r i \<longleftrightarrow> (\<exists>a b. getReplacementLineRange spans r = Inr (a, b) \<and> a \<le> i \<and> i < b)"

definition touched :: "span list \<Rightarrow> replacement list \<Rightarrow> nat \<Rightarrow> bool" where
  "touched spans rs i \<longleftrightarrow> (\<exists>r \<in> set rs. touches spans r i)"

fun groups_from :: "(nat \<Rightarrow> bool) \<Rightarrow> nat \<Rightarrow> nat \<Rightarrow> line_group list \<Rightarrow> bool" where
  "groups_from T n pos [] = (pos \<le> n)"
| "groups_from T n pos (g # gs) \<longleftrightarrow>
     pos \<le> startLine g \<and> startLine g < endLine g \<and> (\<forall>i. startLine g \<le> i \<and> i < endLine g \<longrightarrow> T i) \<and>
     groups_from T n (endLine g) gs"

lemma groups_from_le: "groups_from T n pos gs \<Longrightarrow> pos \<le> n"
  by (induction gs arbitrary: pos) fastforce+

lemma groups_from_snoc:
  "groups_from T n pos (gs @ [g]) \<longleftrightarrow>
     groups_from T (startLine g) pos gs \<and> startLine g < endLine g \<and>
     (\<forall>i. startLine g \<le> i \<and> i < endLine g \<longrightarrow> T i) \<and> endLine g \<le> n"
  by (induction gs arbitrary: pos) auto

lemma groups_from_mono: "groups_from T m pos gs \<Longrightarrow> m \<le> n \<Longrightarrow> (\<And>i. T i \<Longrightarrow> S i) \<Longrightarrow> groups_from S n pos gs"
  by (induction gs arbitrary: pos) auto

lemma find_end_ge: "i \<le> find_end i spans p \<and> find_end i spans p \<le> i + length spans"
  by (induction i spans p rule: find_end.induct) auto

lemma find_start_lt: "find_start i spans p = Some j \<Longrightarrow> i \<le> j \<and> j < i + length spans"
  by (induction i spans p rule: find_start.induct) (auto split: if_splits)

lemma range_bounds:
  "getReplacementLineRange spans r = Inr (a, b) \<Longrightarrow> a < b \<and> b \<le> length spans"
  using find_end_ge [of "the (find_start 0 spans (matchIndex r))" "drop (the (find_start 0 spans (matchIndex r))) spans"
      "matchIndex r + matchLength r"]
  by (auto simp: getReplacementLineRange_def Let_def split: option.splits if_splits)

lemma add_to_groups_ok:
  assumes "groups_from T n 0 gs" "a < b" "b \<le> n" "\<And>i. a \<le> i \<Longrightarrow> i < b \<Longrightarrow> S i" "\<And>i. T i \<Longrightarrow> S i"
  shows "groups_from S n 0 (add_to_groups gs (a, b) r)"
proof (cases gs rule: rev_cases)
  case Nil
  with assms show ?thesis by (simp add: add_to_groups_def)
next
  case (snoc hs g)
  have gs: "groups_from T (startLine g) 0 hs" "startLine g < endLine g" "endLine g \<le> n"
      "\<And>i. startLine g \<le> i \<Longrightarrow> i < endLine g \<Longrightarrow> T i"
    using assms(1) by (auto simp: snoc groups_from_snoc)
  show ?thesis
  proof (cases "a < endLine g")
    case True
    have "S i" if "startLine g \<le> i" "i < max (endLine g) b" for i
      using that gs(4) [of i] assms(4) [of i] assms(5) [of i] True by (cases "i < endLine g") auto
    with True gs assms(3,5) groups_from_mono [OF gs(1), of "startLine g" S] show ?thesis
      by (auto simp: add_to_groups_def snoc groups_from_snoc)
  next
    case False
    then have "groups_from T a 0 gs" using gs by (simp add: snoc groups_from_snoc)
    then have "groups_from S a 0 gs" by (rule groups_from_mono) (simp_all add: assms(5))
    moreover have "add_to_groups gs (a, b) r = gs @ [\<lparr>startLine = a, endLine = b, group_replacements = [r]\<rparr>]"
      using False by (simp add: add_to_groups_def snoc)
    ultimately show ?thesis using assms(2,3,4) by (simp add: groups_from_snoc)
  qed
qed

lemma group_lines_ok:
  assumes "group_lines spans gs rs = Inr groups" "groups_from T (length spans) 0 gs" "\<And>i. T i \<Longrightarrow> S i"
    and "\<And>i. touched spans rs i \<Longrightarrow> S i"
  shows "groups_from S (length spans) 0 groups"
  using assms
proof (induction rs arbitrary: gs T)
  case Nil
  then show ?case using groups_from_mono by fastforce
next
  case (Cons r rs)
  obtain a b where ab: "getReplacementLineRange spans r = Inr (a, b)" "group_lines spans (add_to_groups gs (a, b) r) rs = Inr groups"
    using Cons.prems(1) by (auto split: sum.splits)
  have "groups_from S (length spans) 0 (add_to_groups gs (a, b) r)"
    using range_bounds [OF ab(1)] Cons.prems(2,3,4) ab(1)
    by (intro add_to_groups_ok [of T]) (auto simp: touched_def touches_def)
  from Cons.IH [OF ab(2) this] Cons.prems(4) show ?case by (auto simp: touched_def)
qed

lemma render_groups_lines:
  assumes "groups_from T (length os) pos groups"
  shows "\<exists>texts. length texts = length os - pos \<and> render_groups os spans base pos groups = concat texts \<and>
    (\<forall>i. i < length os - pos \<longrightarrow> \<not> T (pos + i) \<longrightarrow> texts ! i = os ! (pos + i))"
  using assms
proof (induction groups arbitrary: pos)
  case Nil
  then show ?case by (intro exI [of _ "drop pos os"]) simp
next
  case (Cons g gs)
  have g: "pos \<le> startLine g" "startLine g < endLine g" "endLine g \<le> length os"
      "\<And>i. startLine g \<le> i \<Longrightarrow> i < endLine g \<Longrightarrow> T i"
    using Cons.prems groups_from_le by auto
  from Cons.IH [of "endLine g"] Cons.prems obtain ts where
    ts: "length ts = length os - endLine g" "render_groups os spans base (endLine g) gs = concat ts"
      "\<And>i. i < length os - endLine g \<Longrightarrow> \<not> T (endLine g + i) \<Longrightarrow> ts ! i = os ! (endLine g + i)" by auto
  define k where "k = startLine g - pos"
  define m where "m = endLine g - startLine g"
  define new where "new = applyReplacements (slice (fst (spans ! startLine g)) (snd (spans ! (endLine g - 1))) base)
    (group_replacements g) (fst (spans ! startLine g))"
  let ?texts = "slice pos (startLine g) os @ (new # replicate (m - 1) []) @ ts"
  have km: "startLine g = pos + k" "endLine g = pos + k + m" "m > 0" "pos + k + m \<le> length os" using g by (auto simp: k_def m_def)
  have "length ?texts = length os - pos" using ts(1) km by (simp add: slice_def)
  moreover have "render_groups os spans base pos (g # gs) = concat ?texts" by (simp add: ts(2) Let_def new_def)
  moreover have "?texts ! i = os ! (pos + i)" if i: "i < length os - pos" "\<not> T (pos + i)" for i
  proof -
    consider "i < k" | "k \<le> i" "i < k + m" | "k + m \<le> i" by linarith
    then show ?thesis
    proof cases
      case 1
      then show ?thesis using km by (simp add: slice_def nth_append)
    next
      case 2
      with g(4) [of "pos + i"] i(2) km show ?thesis by simp
    next
      case 3
      then have "\<not> i - Suc k < m - Suc 0" using km(3) by arith
      with 3 ts(3) [of "i - (k + m)"] i km ts(1) show ?thesis by (simp add: slice_def nth_append)
    qed
  qed
  ultimately show ?case by (intro exI [of _ ?texts]) blast
qed

lemma length_spans: "length (line_spans off ls) = length ls"
  by (induction ls arbitrary: off) auto



subsection \<open>Line endings are kept\<close>

text \<open>Every line end is CRLF.\<close>

fun uniform_crlf :: "jstring \<Rightarrow> bool" where
  "uniform_crlf [] = True"
| "uniform_crlf (c # s) =
     (if c = 13 then s \<noteq> [] \<and> hd s = 10 \<and> uniform_crlf (tl s) else c \<noteq> 10 \<and> uniform_crlf s)"

definition uniform_endings :: "jstring \<Rightarrow> bool" where
  "uniform_endings s \<longleftrightarrow> 13 \<notin> set s \<or> uniform_crlf s"

lemma replace_crlf_id: "13 \<notin> set s \<Longrightarrow> replace_crlf s = s"
  by (induction s rule: replace_crlf.induct) auto

lemma uniform_induct [consumes 1, case_names empty crlf other]:
  assumes "uniform_crlf s" "P []" "\<And>t. uniform_crlf t \<Longrightarrow> P t \<Longrightarrow> P (13 # 10 # t)"
    and "\<And>c t. c \<noteq> 13 \<Longrightarrow> c \<noteq> 10 \<Longrightarrow> uniform_crlf t \<Longrightarrow> P t \<Longrightarrow> P (c # t)"
  shows "P s"
  using assms(1)
proof (induction s rule: uniform_crlf.induct)
  case (2 c s)
  show ?case
  proof (cases "c = 13")
    case True
    with "2.prems" obtain t where "s = 10 # t" "uniform_crlf t" by (cases s) auto
    with True "2.IH"(1) assms(3) [of t] show ?thesis by simp
  next
    case False
    with "2.prems" "2.IH"(2) assms(4) [of c s] show ?thesis by simp
  qed
qed (rule assms(2))

lemma restore_append: "restoreLineEndings (a @ b) e = restoreLineEndings a e @ restoreLineEndings b e"
  by (simp add: restoreLineEndings_def)

lemma restore_crlf:
  "uniform_crlf s \<Longrightarrow> concat (map (\<lambda>c. if c = 10 then [13, 10] else [c]) (normalizeToLF s)) = s"
proof (induction rule: uniform_induct)
  case (other c t)
  then show ?case by (auto simp: normalizeToLF_def)
qed (simp_all add: normalizeToLF_def)

lemma detect_crlf: "uniform_crlf s \<Longrightarrow> 10 \<in> set s \<Longrightarrow> detectLineEnding s = [13, 10]"
proof -
  assume s: "uniform_crlf s" "10 \<in> set s"
  have "\<exists>i. indexOf s [13, 10] = Some i \<and> indexOf s [10] = Some (Suc i)"
    using s
  proof (induction rule: uniform_induct)
    case (other c t)
    then show ?case by auto
  qed auto
  then show ?thesis by (auto simp: detectLineEnding_def)
qed

lemma detect_lf: "13 \<notin> set s \<Longrightarrow> detectLineEnding s = [10]"
proof -
  assume "13 \<notin> set s"
  then have "indexOf s [13, 10] = None"
    by (auto simp: indexOf_None_iff sublist_def)
  then show ?thesis by (simp add: detectLineEnding_def split: option.split)
qed

lemma uniform_no_lf: "uniform_crlf s \<Longrightarrow> 10 \<notin> set s \<Longrightarrow> 13 \<notin> set s"
  by (induction rule: uniform_induct) auto

text \<open>A text with one kind of line ending gets it back.\<close>

lemma endings_roundtrip:
  assumes "uniform_endings s"
  shows "restoreLineEndings (normalizeToLF s) (detectLineEnding s) = s"
proof (cases "13 \<in> set s")
  case True
  with assms have "uniform_crlf s" "10 \<in> set s" using uniform_no_lf by (auto simp: uniform_endings_def)
  with restore_crlf detect_crlf show ?thesis by (simp add: restoreLineEndings_def)
next
  case False
  then have "map (\<lambda>c. if c = 13 then 10 else c) s = s" by (induction s) auto
  with detect_lf [OF False] show ?thesis by (simp add: restoreLineEndings_def normalizeToLF_def replace_crlf_id False)
qed

lemma weave_restore:
  "length gs = Suc (length ts) \<Longrightarrow>
     restoreLineEndings (weave gs ts) e = weave (map (\<lambda>g. restoreLineEndings g e) gs) (map (\<lambda>t. restoreLineEndings t e) ts)"
proof (induction ts arbitrary: gs)
  case Nil
  then show ?case by (cases gs) simp_all
next
  case (Cons t ts)
  then show ?case by (cases gs) (simp_all add: restore_append)
qed

subsection \<open>Texts of white space\<close>

text \<open>The fuzzy form of a text of blanks is empty, and the empty text splits a content into its units. A
  blank that occurs once is reported as a duplicate, and one that does not occur is
  inserted at the start of a file of two units.\<close>

lemma blank_edits:
  "applyEditsToNormalizedContent (\<lambda>s. s) [97, 32, 98] [\<lparr>oldText = [32], newText = [95]\<rparr>] path =
     Inl (getDuplicateError path 0 1 2)"
  "applyEditsToNormalizedContent (\<lambda>s. s) [97, 98] [\<lparr>oldText = [32], newText = [95]\<rparr>] path =
     Inr ([97, 98], [95, 97, 98])"
  by (simp_all add: applyEditsToNormalizedContent_def normalized_edit_def normalizeToLF_def fuzzyFindText_def
      countOccurrences_def normalizeForFuzzyMatch_def trimEnd_def js_space_def fuzzy_char_def split_by.simps
      applyReplacementsPreservingUnchangedLines_def splitLinesWithEndings_def getLineSpans_def getReplacementLineRange_def
      add_to_groups_def applyReplacements_def replace_at_def slice_def Let_def)

end
