(* ===== verification/Unified_Patch.thy ===== *)
theory Unified_Patch
  imports Line_Diff
begin

text \<open>
  The unified patch of an edit (\<open>structuredPatch\<close>, \<open>formatPatch\<close>, \<open>createTwoFilesPatch\<close> and
  \<open>generateUnifiedPatch\<close> in \<open>bridge.mjs\<close>): the hunks with their context, their line numbers and
  the mark after a last line without a newline, and the text of the patch. Applying the hunks
  to the old text gives the new text.
\<close>

subsection \<open>Hunks\<close>

definition splitLines :: "jstring \<Rightarrow> jstring list" where
  "splitLines s =
     (let result = map (\<lambda>line. line @ [10]) (split_on 10 s)
      in if endsWith s [10] then butlast result else butlast result @ [butlast (last result)])"

record hunk =
  h_oldStart :: int
  h_oldLines :: int
  h_newStart :: int
  h_newLines :: int
  h_lines :: "jstring list"

record patch_state =
  hunks :: "hunk list"
  oldRangeStart :: int
  newRangeStart :: int
  curRange :: "jstring list"
  oldLine :: int
  newLine :: int

definition patch_init :: patch_state where
  "patch_init = \<lparr>hunks = [], oldRangeStart = 0, newRangeStart = 0, curRange = [], oldLine = 1, newLine = 1\<rparr>"

text \<open>A part of the difference with its lines.\<close>

type_synonym diff_part = "nat change \<times> jstring list"

definition contextLines :: "jstring list \<Rightarrow> jstring list" where
  "contextLines ls = map (\<lambda>entry. 32 # entry) ls"

text \<open>\<open>lines.slice(-n)\<close> for \<open>n > 0\<close>.\<close>

definition last_lines :: "nat \<Rightarrow> jstring list \<Rightarrow> jstring list" where
  "last_lines n ls = drop (length ls - n) ls"

definition open_range :: "nat \<Rightarrow> diff_part option \<Rightarrow> patch_state \<Rightarrow> patch_state" where
  "open_range ctx prev st =
     (if oldRangeStart st \<noteq> 0 then st
      else
        (let st1 = st\<lparr>oldRangeStart := oldLine st, newRangeStart := newLine st\<rparr> in
         case prev of
           None \<Rightarrow> st1
         | Some (c, ls) \<Rightarrow>
             (let range = (if ctx > 0 then contextLines (last_lines ctx ls) else [])
              in st1\<lparr>curRange := range, oldRangeStart := oldLine st - int (length range),
                  newRangeStart := newLine st - int (length range)\<rparr>)))"

text \<open>One turn of the loop of \<open>diffLinesResultToPatch\<close>. The flag tells whether at least two parts follow.\<close>

definition patch_step :: "nat \<Rightarrow> diff_part option \<Rightarrow> bool \<Rightarrow> diff_part \<Rightarrow> patch_state \<Rightarrow> patch_state" where
  "patch_step ctx prev moreParts part st =
     (let (c, ls) = part in
      if ch_added c \<or> ch_removed c then
        (let st1 = open_range ctx prev st;
             st2 = st1\<lparr>curRange := curRange st1 @ map (\<lambda>line. (if ch_added c then 43 else 45) # line) ls\<rparr>
         in if ch_added c then st2\<lparr>newLine := newLine st2 + int (length ls)\<rparr>
            else st2\<lparr>oldLine := oldLine st2 + int (length ls)\<rparr>)
      else
        (let st1 =
               (if oldRangeStart st \<noteq> 0 then
                  (if length ls \<le> ctx * 2 \<and> moreParts then st\<lparr>curRange := curRange st @ contextLines ls\<rparr>
                   else
                     (let contextSize = min (length ls) ctx;
                          h = \<lparr>h_oldStart = oldRangeStart st,
                               h_oldLines = oldLine st - oldRangeStart st + int contextSize,
                               h_newStart = newRangeStart st,
                               h_newLines = newLine st - newRangeStart st + int contextSize,
                               h_lines = curRange st @ contextLines (take contextSize ls)\<rparr>
                      in st\<lparr>hunks := hunks st @ [h], oldRangeStart := 0, newRangeStart := 0, curRange := []\<rparr>))
                else st)
         in st1\<lparr>oldLine := oldLine st1 + int (length ls), newLine := newLine st1 + int (length ls)\<rparr>))"

fun patch_loop :: "nat \<Rightarrow> diff_part option \<Rightarrow> diff_part list \<Rightarrow> patch_state \<Rightarrow> patch_state" where
  "patch_loop ctx prev [] st = st"
| "patch_loop ctx prev (part # parts) st =
     patch_loop ctx (Some part) parts (patch_step ctx prev (2 \<le> length parts) part st)"

definition NO_NEWLINE :: jstring where
  "NO_NEWLINE = 92 # js_text '' No newline at end of file''"

fun mark_missing_newline :: "jstring list \<Rightarrow> jstring list" where
  "mark_missing_newline [] = []"
| "mark_missing_newline (l # ls) =
     (if endsWith l [10] then butlast l # mark_missing_newline ls
      else l # NO_NEWLINE # mark_missing_newline ls)"

definition diffLinesResultToPatch :: "nat \<Rightarrow> nat change list \<Rightarrow> hunk list" where
  "diffLinesResultToPatch ctx diff =
     (let parts = map (\<lambda>c. (c, splitLines (ch_value c))) diff @
            [(\<lparr>ch_value = [], ch_count = 0, ch_added = False, ch_removed = False\<rparr>, [])]
      in map (\<lambda>h. h\<lparr>h_lines := mark_missing_newline (h_lines h)\<rparr>) (hunks (patch_loop ctx None parts patch_init)))"

definition structuredPatch :: "nat \<Rightarrow> jstring \<Rightarrow> jstring \<Rightarrow> hunk list option" where
  "structuredPatch ctx oldStr newStr = map_option (diffLinesResultToPatch ctx) (diffLines oldStr newStr)"

subsection \<open>The text of a patch\<close>

record header_options =
  includeIndex :: bool
  includeUnderline :: bool
  includeFileHeaders :: bool

definition FILE_HEADERS_ONLY :: header_options where
  "FILE_HEADERS_ONLY = \<lparr>includeIndex = False, includeUnderline = False, includeFileHeaders = True\<rparr>"

definition format_hunk :: "hunk \<Rightarrow> jstring list" where
  "format_hunk h =
     (let oldStart = (if h_oldLines h = 0 then h_oldStart h - 1 else h_oldStart h);
          newStart = (if h_newLines h = 0 then h_newStart h - 1 else h_newStart h)
      in (js_text ''@@ -'' @ js_int oldStart @ js_text '','' @ js_int (h_oldLines h) @ js_text '' +'' @
          js_int newStart @ js_text '','' @ js_int (h_newLines h) @ js_text '' @@'') # h_lines h)"

text \<open>No header is passed for either file.\<close>

definition formatPatch :: "jstring \<Rightarrow> jstring \<Rightarrow> hunk list \<Rightarrow> header_options \<Rightarrow> jstring" where
  "formatPatch oldFileName newFileName hs opts =
     (let index = (if includeIndex opts \<and> oldFileName = newFileName then [js_text ''Index: '' @ oldFileName] else []);
          underline = (if includeUnderline opts
            then [js_text ''===================================================================''] else []);
          files = (if includeFileHeaders opts
            then [js_text ''--- '' @ oldFileName, js_text ''+++ '' @ newFileName] else [])
      in join_with [10] (index @ underline @ files @ concat (map format_hunk hs)) @ [10])"

definition createTwoFilesPatch ::
  "jstring \<Rightarrow> jstring \<Rightarrow> jstring \<Rightarrow> jstring \<Rightarrow> nat \<Rightarrow> header_options \<Rightarrow> jstring option" where
  "createTwoFilesPatch oldFileName newFileName oldStr newStr ctx opts =
     map_option (\<lambda>hs. formatPatch oldFileName newFileName hs opts) (structuredPatch ctx oldStr newStr)"

definition generateUnifiedPatch :: "jstring \<Rightarrow> jstring \<Rightarrow> jstring \<Rightarrow> nat \<Rightarrow> jstring option" where
  "generateUnifiedPatch path oldContent newContent contextLns =
     createTwoFilesPatch path path oldContent newContent contextLns FILE_HEADERS_ONLY"

subsection \<open>Applying hunks\<close>

text \<open>The lines of a hunk as a patch tool reads them: the sign and the line with its newline, or
  without one when the mark follows.\<close>

fun read_lines :: "jstring list \<Rightarrow> (nat \<times> jstring) list" where
  "read_lines [] = []"
| "read_lines [l] = [(hd l, tl l @ [10])]"
| "read_lines (l # m # ls) =
     (if m = NO_NEWLINE then (hd l, tl l) # read_lines ls else (hd l, tl l @ [10]) # read_lines (m # ls))"

fun apply_lines :: "(nat \<times> jstring) list \<Rightarrow> jstring list \<Rightarrow> (jstring list \<times> jstring list) option" where
  "apply_lines [] rest = Some ([], rest)"
| "apply_lines ((sign, l) # ls) rest =
     (if sign = 43 then map_option (\<lambda>(out, r). (l # out, r)) (apply_lines ls rest)
      else
        (case rest of
           [] \<Rightarrow> None
         | x # xs \<Rightarrow>
             (if x \<noteq> l then None
              else if sign = 45 then apply_lines ls xs
              else map_option (\<lambda>(out, r). (l # out, r)) (apply_lines ls xs))))"

text \<open>Hunks are applied in order; a hunk must start where it says in both texts, match the lines it
  keeps and removes, and have the lengths it says.\<close>

fun applyHunks :: "hunk list \<Rightarrow> nat \<Rightarrow> nat \<Rightarrow> jstring list \<Rightarrow> jstring list option" where
  "applyHunks [] i j rest = Some rest"
| "applyHunks (h # hs) i j rest =
     (let gap = nat (h_oldStart h - 1 - int i) in
      if h_oldStart h - 1 < int i \<or> length rest < gap \<or> h_newStart h \<noteq> int (j + gap) + 1 then None
      else
        (case apply_lines (read_lines (h_lines h)) (drop gap rest) of
           None \<Rightarrow> None
         | Some (out, r) \<Rightarrow>
             (if h_oldLines h \<noteq> int (length rest - gap) - int (length r) \<or> h_newLines h \<noteq> int (length out) then None
              else map_option (\<lambda>t. take gap rest @ out @ t)
                (applyHunks hs (length rest - length r + i) (j + gap + length out) r))))"

subsection \<open>Lines of parts\<close>

definition line_ok :: "jstring \<Rightarrow> bool" where
  "line_ok l \<longleftrightarrow> l \<noteq> [] \<and> 10 \<notin> set (butlast l)"

definition lines_ok :: "jstring list \<Rightarrow> bool" where
  "lines_ok ls \<longleftrightarrow> list_all line_ok ls \<and> list_all (\<lambda>l. last l = 10) (butlast ls)"

lemma lines_ok_Nil [simp]: "lines_ok []"
  by (simp add: lines_ok_def)

lemma lines_ok_Cons: "lines_ok (l # ls) \<longleftrightarrow> line_ok l \<and> (ls \<noteq> [] \<longrightarrow> last l = 10) \<and> lines_ok ls"
  by (cases ls) (auto simp: lines_ok_def)

lemma lines_ok_append: "lines_ok (as @ bs) \<Longrightarrow> lines_ok as \<and> lines_ok bs"
  by (induction as) (auto simp: lines_ok_Cons)

lemma line_tokens_ok: "10 \<notin> set line \<Longrightarrow> lines_ok (line_tokens line s)"
proof (induction line s rule: line_tokens.induct)
  case (1 line)
  then show ?case by (auto simp: lines_ok_Cons line_ok_def dest: in_set_butlastD)
next
  case (2 line c s)
  then show ?case by (auto simp: lines_ok_Cons line_ok_def)
qed

lemma split_lines_ok: "lines_ok (splitLinesWithEndings s)"
  by (simp add: splitLinesWithEndings_def line_tokens_ok)

lemma line_tokens_line: "10 \<notin> set l \<Longrightarrow> line_tokens line (l @ 10 # s) = (line @ l @ [10]) # line_tokens [] s"
  by (induction l arbitrary: line) auto

lemma line_tokens_last: "10 \<notin> set l \<Longrightarrow> line_tokens line l = (if line @ l = [] then [] else [line @ l])"
  by (induction l arbitrary: line) auto

lemma split_concat_lines: "lines_ok ls \<Longrightarrow> splitLinesWithEndings (concat ls) = ls"
proof (induction ls)
  case Nil
  then show ?case by (simp add: splitLinesWithEndings_def)
next
  case (Cons l ls)
  then have l: "line_ok l" "ls \<noteq> [] \<longrightarrow> last l = 10" "lines_ok ls" by (auto simp: lines_ok_Cons)
  show ?case
  proof (cases "last l = 10")
    case True
    with l(1) obtain b where "l = b @ [10]" "10 \<notin> set b" by (metis append_butlast_last_id line_ok_def)
    with Cons.IH [OF l(3)] show ?thesis by (simp add: splitLinesWithEndings_def line_tokens_line)
  next
    case False
    with l have "ls = []" "10 \<notin> set l"
      by (auto simp: line_ok_def) (metis UnE append_butlast_last_id empty_iff insert_iff list.set(1,2) set_append)
    with l(1) show ?thesis by (simp add: splitLinesWithEndings_def line_tokens_last line_ok_def)
  qed
qed

lemma endsWith_single: "endsWith s [c] \<longleftrightarrow> s \<noteq> [] \<and> last s = c"
  by (cases s rule: rev_cases) (auto simp: endsWith_def)

lemma splitLines_eq:
  assumes "s \<noteq> []"
  shows "splitLines s = splitLinesWithEndings s"
proof -
  have gen: "line @ t \<noteq> [] \<Longrightarrow> 10 \<notin> set line \<Longrightarrow> splitLines (line @ t) = line_tokens line t" for line t
  proof (induction t arbitrary: line)
    case Nil
    moreover from this have "last line \<noteq> 10" by (metis append_Nil2 last_in_set)
    ultimately show ?case by (auto simp: splitLines_def split_on_single endsWith_single Let_def)
  next
    case (Cons c t)
    show ?case
    proof (cases "c = 10")
      case True
      have sp: "split_on 10 (line @ 10 # t) = line # split_on 10 t" using Cons.prems(2) by (rule split_on_append_part)
      show ?thesis
      proof (cases "t = []")
        case True
        with sp \<open>c = 10\<close> show ?thesis by (simp add: splitLines_def endsWith_single Let_def)
      next
        case False
        then have "endsWith (line @ 10 # t) [10] = endsWith t [10]"
          by (simp add: endsWith_single)
        with Cons.IH [of "[]"] False sp \<open>c = 10\<close> show ?thesis
          by (auto simp: splitLines_def Let_def split: if_splits)
      qed
    next
      case False
      with Cons.IH [of "line @ [c]"] Cons.prems show ?thesis by simp
    qed
  qed
  from gen [of "[]" s] assms show ?thesis by (simp add: splitLinesWithEndings_def)
qed

text \<open>The lines of the parts of a difference are the lines of the two texts.\<close>

definition part_lines :: "nat change \<Rightarrow> jstring list" where
  "part_lines c = splitLines (ch_value c)"

definition old_lines :: "nat change list \<Rightarrow> jstring list" where
  "old_lines parts = concat (map part_lines (filter (\<lambda>c. \<not> ch_added c) parts))"

definition new_lines :: "nat change list \<Rightarrow> jstring list" where
  "new_lines parts = concat (map part_lines (filter (\<lambda>c. \<not> ch_removed c) parts))"

lemma old_new_append [simp]:
  "old_lines (a @ b) = old_lines a @ old_lines b" "new_lines (a @ b) = new_lines a @ new_lines b"
  by (simp_all add: old_lines_def new_lines_def)

lemma concat_nonempty: "lines_ok ls \<Longrightarrow> ls \<noteq> [] \<Longrightarrow> concat ls \<noteq> []"
  by (cases ls) (auto simp: lines_ok_Cons line_ok_def)

lemma splitLines_concat: "lines_ok ls \<Longrightarrow> ls \<noteq> [] \<Longrightarrow> splitLines (concat ls) = ls"
  using concat_nonempty [of ls] by (simp add: splitLines_eq split_concat_lines)

definition proper_parts :: "nat change list \<Rightarrow> bool" where
  "proper_parts parts \<longleftrightarrow> list_all (\<lambda>c. \<not> (ch_added c \<and> ch_removed c)) parts"

lemma edits_lines:
  assumes "edits cs os ns" "lines_ok os" "lines_ok ns"
  shows "old_lines (component_values (rev cs) (ns @ ns') (os @ os') 0 0) = os \<and>
    new_lines (component_values (rev cs) (ns @ ns') (os @ os') 0 0) = ns \<and>
    proper_parts (component_values (rev cs) (ns @ ns') (os @ os') 0 0) \<and>
    list_all (\<lambda>c. ch_value c \<noteq> []) (component_values (rev cs) (ns @ ns') (os @ os') 0 0)"
  using assms
proof (induction arbitrary: ns' os' rule: edits.induct)
  case start
  then show ?case by (simp add: old_lines_def new_lines_def proper_parts_def)
next
  case (add cs os ns t)
  with lines_ok_append [of ns t] have "lines_ok ns" "lines_ok t" by auto
  with add.IH [of "t @ ns'" os'] edits_lengths [OF add.hyps(1)] add.prems splitLines_concat [of t] concat_nonempty [of t] add.hyps(2) show ?case
    by (simp add: component_values_append old_lines_def new_lines_def proper_parts_def part_lines_def Let_def slice_def)
next
  case (remove cs os ns t)
  with lines_ok_append [of os t] have "lines_ok os" "lines_ok t" by auto
  with remove.IH [of ns' "t @ os'"] edits_lengths [OF remove.hyps(1)] remove.prems splitLines_concat [of t] concat_nonempty [of t] remove.hyps(2) show ?case
    by (simp add: component_values_append old_lines_def new_lines_def proper_parts_def part_lines_def Let_def slice_def)
next
  case (keep cs os ns t)
  with lines_ok_append [of os t] lines_ok_append [of ns t] have "lines_ok os" "lines_ok ns" "lines_ok t" by auto
  with keep.IH [of "t @ ns'" "t @ os'"] edits_lengths [OF keep.hyps(1)] splitLines_concat [of t] concat_nonempty [of t] keep.hyps(2) show ?case
    by (simp add: component_values_append old_lines_def new_lines_def proper_parts_def part_lines_def Let_def slice_def)
qed

lemma diff_lines_parts:
  "\<exists>parts. diffLines oldStr newStr = Some parts \<and> old_lines parts = splitLinesWithEndings oldStr \<and>
     new_lines parts = splitLinesWithEndings newStr \<and> proper_parts parts \<and> list_all (\<lambda>c. ch_value c \<noteq> []) parts"
proof -
  let ?os = "splitLinesWithEndings oldStr" and ?ns = "splitLinesWithEndings newStr"
  obtain cs where cs: "diffLines oldStr newStr = Some (buildValues cs ?ns ?os)" "edits cs ?os ?ns"
    using diff_script [of ?os ?ns] by (auto simp: diffLines_def tokens_eq)
  from edits_lines [OF cs(2) split_lines_ok split_lines_ok, of "[]" "[]"] cs(1) show ?thesis
    by (simp add: buildValues_def)
qed

subsection \<open>What a list of hunks says\<close>

definition has_sign :: "jstring \<Rightarrow> bool" where
  "has_sign l \<longleftrightarrow> l \<noteq> [] \<and> hd l \<in> {32, 43, 45}"

definition old_of :: "jstring list \<Rightarrow> jstring list" where
  "old_of ls = map tl (filter (\<lambda>l. hd l \<noteq> 43) ls)"

definition new_of :: "jstring list \<Rightarrow> jstring list" where
  "new_of ls = map tl (filter (\<lambda>l. hd l \<noteq> 45) ls)"

lemma of_append [simp]: "old_of (a @ b) = old_of a @ old_of b" "new_of (a @ b) = new_of a @ new_of b"
  by (simp_all add: old_of_def new_of_def)

lemma of_context [simp]: "old_of (contextLines ls) = ls" "new_of (contextLines ls) = ls" "list_all has_sign (contextLines ls)"
  by (induction ls) (simp_all add: old_of_def new_of_def contextLines_def has_sign_def)

lemma of_added [simp]: "old_of (map ((#) 43) ls) = []" "new_of (map ((#) 43) ls) = ls" "list_all has_sign (map ((#) 43) ls)"
  by (induction ls) (simp_all add: old_of_def new_of_def has_sign_def)

lemma of_removed [simp]: "old_of (map ((#) 45) ls) = ls" "new_of (map ((#) 45) ls) = []" "list_all has_sign (map ((#) 45) ls)"
  by (induction ls) (simp_all add: old_of_def new_of_def has_sign_def)

text \<open>The hunks (before the marks) lead from the first list of lines to the second.\<close>

inductive described :: "hunk list \<Rightarrow> jstring list \<Rightarrow> jstring list \<Rightarrow> bool" where
  nothing: "described [] [] []"
| gap: "described hs os ns \<Longrightarrow> described hs (os @ g) (ns @ g)"
| hunk: "described hs os ns \<Longrightarrow> list_all has_sign ls \<Longrightarrow>
    described (hs @ [\<lparr>h_oldStart = int (length os) + 1, h_oldLines = int (length (old_of ls)),
      h_newStart = int (length ns) + 1, h_newLines = int (length (new_of ls)), h_lines = ls\<rparr>])
      (os @ old_of ls) (ns @ new_of ls)"

lemma sign_no_mark: "has_sign a \<Longrightarrow> a \<noteq> NO_NEWLINE \<and> butlast a \<noteq> NO_NEWLINE"
  by (cases a) (auto simp: has_sign_def NO_NEWLINE_def split: if_splits)

lemma read_marked: "list_all has_sign ls \<Longrightarrow> read_lines (mark_missing_newline ls) = map (\<lambda>l. (hd l, tl l)) ls"
proof (induction ls)
  case (Cons l ls)
  then have l: "has_sign l" "list_all has_sign ls" by simp_all
  show ?case
  proof (cases "endsWith l [10]")
    case True
    then obtain b where b: "l = b @ [10]" by (auto simp: endsWith_def suffix_def)
    with l(1) have ne: "b \<noteq> []" by (auto simp: has_sign_def)
    have hdm: "m \<noteq> NO_NEWLINE" if "mark_missing_newline ls = m # ms" for m ms
      using l(2) that sign_no_mark by (cases ls) (auto split: if_splits)
    from b ne have "hd l = hd b" "tl l = tl b @ [10]" by simp_all
    with Cons.IH [OF l(2)] hdm True b show ?thesis by (cases "mark_missing_newline ls") auto
  next
    case False
    with Cons.IH [OF l(2)] show ?thesis by simp
  qed
qed simp

lemma apply_signed:
  "list_all has_sign ls \<Longrightarrow> apply_lines (map (\<lambda>l. (hd l, tl l)) ls) (old_of ls @ rest) = Some (new_of ls, rest)"
  by (induction ls) (auto simp: old_of_def new_of_def has_sign_def)

definition marked :: "hunk \<Rightarrow> hunk" where
  "marked h = h\<lparr>h_lines := mark_missing_newline (h_lines h)\<rparr>"

lemma apply_lines_rest: "apply_lines ls rest = Some (out, r) \<Longrightarrow> length r \<le> length rest"
proof (induction ls rest arbitrary: out rule: apply_lines.induct)
  case (2 sign l ls rest)
  then show ?case by (cases rest) (fastforce split: if_splits)+
qed simp

lemma applyHunks_gap:
  assumes "applyHunks hs (i + length g) (j + length g) rest = Some out"
  shows "applyHunks hs i j (g @ rest) = Some (g @ out)"
proof (cases hs)
  case (Cons h hs')
  let ?n = "nat (h_oldStart h - 1 - int (i + length g))"
  have start: "int (i + length g) \<le> h_oldStart h - 1" "?n \<le> length rest" "h_newStart h = int (j + length g + ?n) + 1"
    using assms Cons by (auto simp: Let_def split: if_splits)
  have n: "nat (h_oldStart h - 1 - int i) = length g + ?n" using start(1) by simp
  obtain o1 r where al: "apply_lines (read_lines (h_lines h)) (drop ?n rest) = Some (o1, r)"
    using assms Cons start by (auto simp: Let_def split: if_splits option.splits prod.splits)
  obtain t where len: "h_oldLines h = int (length rest - ?n) - int (length r)" "h_newLines h = int (length o1)"
      and rec: "applyHunks hs' (length rest - length r + (i + length g)) (j + length g + ?n + length o1) r = Some t"
      and out: "out = take ?n rest @ o1 @ t"
    using assms Cons start al by (auto simp: Let_def split: if_splits)
  have le: "length r \<le> length rest" using apply_lines_rest [OF al] by simp
  have "drop (length g + ?n) (g @ rest) = drop ?n rest" "take (length g + ?n) (g @ rest) = g @ take ?n rest"
      "length (g @ rest) - (length g + ?n) = length rest - ?n"
      "length (g @ rest) - length r + i = length rest - length r + (i + length g)"
    using le by simp_all
  with start al len rec out show ?thesis
    by (simp add: Cons n Let_def add_ac)
qed (use assms in simp)

lemma described_applies:
  assumes "described hs os ns" "applyHunks hs2 (length os) (length ns) rest = Some out"
  shows "applyHunks (map marked hs @ hs2) 0 0 (os @ rest) = Some (ns @ out)"
  using assms
proof (induction arbitrary: hs2 rest out rule: described.induct)
  case (gap hs os ns g)
  from gap.prems applyHunks_gap [of hs2 "length os" g "length ns" rest out]
  have "applyHunks hs2 (length os) (length ns) (g @ rest) = Some (g @ out)" by simp
  from gap.IH [OF this] show ?case by simp
next
  case (hunk hs os ns ls)
  let ?h = "\<lparr>h_oldStart = int (length os) + 1, h_oldLines = int (length (old_of ls)),
      h_newStart = int (length ns) + 1, h_newLines = int (length (new_of ls)), h_lines = ls\<rparr>"
  have "applyHunks (marked ?h # hs2) (length os) (length ns) (old_of ls @ rest) = Some (new_of ls @ out)"
    using hunk.prems read_marked [OF hunk.hyps(2)] apply_signed [OF hunk.hyps(2), of rest]
    by (simp add: marked_def add.commute)
  from hunk.IH [OF this] show ?case by simp
qed simp

subsection \<open>The loop describes the difference\<close>

definition changed :: "diff_part \<Rightarrow> bool" where
  "changed part \<longleftrightarrow> ch_added (fst part) \<or> ch_removed (fst part)"

definition old_part :: "diff_part \<Rightarrow> jstring list" where
  "old_part part = (if ch_added (fst part) then [] else snd part)"

definition new_part :: "diff_part \<Rightarrow> jstring list" where
  "new_part part = (if ch_removed (fst part) then [] else snd part)"

text \<open>No range is open; the context that a coming change takes from the part before it lies after the
  last hunk.\<close>

definition range_closed :: "nat \<Rightarrow> diff_part option \<Rightarrow> diff_part list \<Rightarrow> jstring list \<Rightarrow> jstring list \<Rightarrow> patch_state \<Rightarrow> bool" where
  "range_closed ctx prev rest os ns st \<longleftrightarrow>
     oldRangeStart st = 0 \<and> curRange st = [] \<and>
     (\<exists>os0 ns0 g. os = os0 @ g \<and> ns = ns0 @ g \<and> described (hunks st) os0 ns0 \<and>
        (list_ex changed rest \<longrightarrow> (\<forall>p. prev = Some p \<longrightarrow> suffix (last_lines ctx (snd p)) g)))"

definition range_open :: "jstring list \<Rightarrow> jstring list \<Rightarrow> patch_state \<Rightarrow> bool" where
  "range_open os ns st \<longleftrightarrow>
     (\<exists>os0 ns0. os = os0 @ old_of (curRange st) \<and> ns = ns0 @ new_of (curRange st) \<and> described (hunks st) os0 ns0 \<and>
        oldRangeStart st = int (length os0) + 1 \<and> newRangeStart st = int (length ns0) + 1 \<and> list_all has_sign (curRange st))"

definition patch_ok :: "nat \<Rightarrow> diff_part option \<Rightarrow> diff_part list \<Rightarrow> jstring list \<Rightarrow> jstring list \<Rightarrow> patch_state \<Rightarrow> bool" where
  "patch_ok ctx prev rest os ns st \<longleftrightarrow>
     oldLine st = int (length os) + 1 \<and> newLine st = int (length ns) + 1 \<and>
     (range_closed ctx prev rest os ns st \<or> range_open os ns st)"

lemma open_range_ok:
  assumes "patch_ok ctx prev rest os ns st" "list_ex changed rest"
  shows "range_open os ns (open_range ctx prev st) \<and>
    oldLine (open_range ctx prev st) = oldLine st \<and> newLine (open_range ctx prev st) = newLine st"
proof (cases "range_open os ns st")
  case True
  then have "oldRangeStart st \<noteq> 0" by (auto simp: range_open_def)
  with True show ?thesis by (simp add: open_range_def)
next
  case False
  then obtain os0 ns0 g where st: "oldRangeStart st = 0" "curRange st = []" "os = os0 @ g" "ns = ns0 @ g"
      "described (hunks st) os0 ns0" "\<And>p. prev = Some p \<Longrightarrow> suffix (last_lines ctx (snd p)) g"
      "oldLine st = int (length os) + 1" "newLine st = int (length ns) + 1"
    using assms by (auto simp: patch_ok_def range_closed_def)
  show ?thesis
  proof (cases prev)
    case None
    from described.gap [OF st(5), of g] st None show ?thesis
      by (auto simp: open_range_def range_open_def old_of_def new_of_def)
  next
    case (Some p)
    obtain c ls where p: "p = (c, ls)" by (cases p)
    let ?range = "if ctx > 0 then contextLines (last_lines ctx ls) else []"
    have range: "?range = contextLines (last_lines ctx ls)" by (simp add: last_lines_def contextLines_def)
    obtain g1 where g: "g = g1 @ last_lines ctx ls" using st(6) [OF Some] by (auto simp: p suffix_def)
    have len: "length (contextLines xs) = length xs" for xs by (simp add: contextLines_def)
    from described.gap [OF st(5), of g1] st g range len [of "last_lines ctx ls"] show ?thesis
      unfolding range_open_def
      by (intro conjI exI [of _ "os0 @ g1"] exI [of _ "ns0 @ g1"]) (simp_all add: open_range_def Some p Let_def)
  qed
qed

lemma suffix_last_lines: "2 * n < length ls \<Longrightarrow> suffix (last_lines n ls) (drop n ls)"
proof -
  assume "2 * n < length ls"
  then have "last_lines n ls = drop (length ls - n - n) (drop n ls)" by (simp add: last_lines_def)
  then show ?thesis by (simp only: suffix_drop)
qed

lemma patch_step_ok:
  assumes ok: "patch_ok ctx prev (part # parts) os ns st"
    and proper: "\<not> (ch_added (fst part) \<and> ch_removed (fst part))" "\<not> changed (last (part # parts))"
  shows "patch_ok ctx (Some part) parts (os @ old_part part) (ns @ new_part part) (patch_step ctx prev (2 \<le> length parts) part st)"
    and "parts = [] \<Longrightarrow> oldRangeStart (patch_step ctx prev (2 \<le> length parts) part st) = 0"
proof -
  obtain c ls where part: "part = (c, ls)" by (cases part)
  let ?st = "patch_step ctx prev (2 \<le> length parts) part st"
  have lines: "oldLine st = int (length os) + 1" "newLine st = int (length ns) + 1" using ok by (simp_all add: patch_ok_def)
  show "patch_ok ctx (Some part) parts (os @ old_part part) (ns @ new_part part) ?st"
  proof (cases "changed part")
    case True
    with open_range_ok [OF ok] obtain os0 ns0 where r: "os = os0 @ old_of (curRange (open_range ctx prev st))"
        "ns = ns0 @ new_of (curRange (open_range ctx prev st))" "described (hunks (open_range ctx prev st)) os0 ns0"
        "oldRangeStart (open_range ctx prev st) = int (length os0) + 1" "newRangeStart (open_range ctx prev st) = int (length ns0) + 1"
        "list_all has_sign (curRange (open_range ctx prev st))"
        "oldLine (open_range ctx prev st) = oldLine st" "newLine (open_range ctx prev st) = newLine st"
      by (auto simp: range_open_def)
    have "range_open (os @ old_part part) (ns @ new_part part) ?st"
      unfolding range_open_def
      using True proper(1) r
      by (intro exI [of _ os0] exI [of _ ns0]) (auto simp: patch_step_def part changed_def old_part_def new_part_def Let_def)
    moreover have "oldLine ?st = int (length (os @ old_part part)) + 1" "newLine ?st = int (length (ns @ new_part part)) + 1"
      using True proper(1) r(7,8) lines
      by (auto simp: patch_step_def part changed_def old_part_def new_part_def Let_def)
    ultimately show ?thesis by (simp add: patch_ok_def)
  next
    case False
    then have parts: "old_part part = ls" "new_part part = ls" and c: "\<not> ch_added c" "\<not> ch_removed c"
      by (simp_all add: part changed_def old_part_def new_part_def)
    have "oldLine ?st = int (length (os @ ls)) + 1" "newLine ?st = int (length (ns @ ls)) + 1"
      using lines c by (simp_all add: patch_step_def part Let_def)
    moreover have "range_closed ctx (Some part) parts (os @ ls) (ns @ ls) ?st \<or> range_open (os @ ls) (ns @ ls) ?st"
    proof (cases "range_open os ns st")
      case closed: False
      then obtain os0 ns0 g where st: "oldRangeStart st = 0" "curRange st = []" "os = os0 @ g" "ns = ns0 @ g" "described (hunks st) os0 ns0"
        using ok by (auto simp: patch_ok_def range_closed_def)
      have "suffix (last_lines ctx ls) (g @ ls)" by (simp add: last_lines_def suffix_appendI suffix_drop)
      with st c have "range_closed ctx (Some part) parts (os @ ls) (ns @ ls) ?st"
        unfolding range_closed_def
        by (intro conjI exI [of _ os0] exI [of _ ns0] exI [of _ "g @ ls"]) (simp_all add: patch_step_def part Let_def)
      then show ?thesis ..
    next
      case True
      then obtain os0 ns0 where r: "os = os0 @ old_of (curRange st)" "ns = ns0 @ new_of (curRange st)" "described (hunks st) os0 ns0"
          "oldRangeStart st = int (length os0) + 1" "newRangeStart st = int (length ns0) + 1" "list_all has_sign (curRange st)"
        by (auto simp: range_open_def)
      show ?thesis
      proof (cases "length ls \<le> ctx * 2 \<and> 2 \<le> length parts")
        case True
        with r c have "range_open (os @ ls) (ns @ ls) ?st"
          unfolding range_open_def by (intro exI [of _ os0] exI [of _ ns0]) (simp add: patch_step_def part Let_def)
        then show ?thesis ..
      next
        case close: False
        let ?k = "min (length ls) ctx" and ?ls = "curRange st @ contextLines (take (min (length ls) ctx) ls)"
        have hs: "hunks ?st = hunks st @ [\<lparr>h_oldStart = int (length os0) + 1, h_oldLines = int (length (old_of ?ls)),
            h_newStart = int (length ns0) + 1, h_newLines = int (length (new_of ?ls)), h_lines = ?ls\<rparr>]"
          using r c close lines by (simp add: patch_step_def part Let_def)
        from described.hunk [OF r(3), of ?ls] r(6)
        have d: "described (hunks ?st) (os0 @ old_of ?ls) (ns0 @ new_of ?ls)" by (simp add: hs)
        have g: "os @ ls = (os0 @ old_of ?ls) @ drop ?k ls" "ns @ ls = (ns0 @ new_of ?ls) @ drop ?k ls"
          by (simp_all add: r)
        have "suffix (last_lines ctx ls) (drop ?k ls)" if "list_ex changed parts"
        proof -
          have "2 \<le> length parts"
            using that proper(2) by (cases parts; cases "tl parts") auto
          with close have "ctx * 2 < length ls" by simp
          with suffix_last_lines [of ctx ls] show ?thesis by (simp add: min_def mult.commute)
        qed
        moreover have "oldRangeStart ?st = 0" "curRange ?st = []" using r c close by (auto simp: patch_step_def part Let_def)
        ultimately have "range_closed ctx (Some part) parts (os @ ls) (ns @ ls) ?st"
          unfolding range_closed_def using d g
          by (intro conjI exI [of _ "os0 @ old_of ?ls"] exI [of _ "ns0 @ new_of ?ls"] exI [of _ "drop ?k ls"]) (simp_all add: part)
        then show ?thesis ..
      qed
    qed
    ultimately show ?thesis by (simp add: patch_ok_def parts)
  qed
  show "oldRangeStart ?st = 0" if "parts = []"
    using that proper(2) by (simp add: patch_step_def part changed_def Let_def)
qed

lemma patch_loop_ok:
  assumes "patch_ok ctx prev parts os ns st" "list_all (\<lambda>p. \<not> (ch_added (fst p) \<and> ch_removed (fst p))) parts"
    and "parts \<noteq> []" "\<not> changed (last parts)"
  shows "described (hunks (patch_loop ctx prev parts st)) (os @ concat (map old_part parts)) (ns @ concat (map new_part parts))"
  using assms
proof (induction parts arbitrary: prev os ns st)
  case (Cons part parts)
  let ?st = "patch_step ctx prev (2 \<le> length parts) part st"
  note step = patch_step_ok [OF Cons.prems(1)]
  have ok: "patch_ok ctx (Some part) parts (os @ old_part part) (ns @ new_part part) ?st"
    using step(1) Cons.prems(2,4) by simp
  show ?case
  proof (cases "parts = []")
    case True
    then have "oldRangeStart ?st = 0" using step(2) Cons.prems(2,4) by simp
    then have "\<not> range_open (os @ old_part part) (ns @ new_part part) ?st" by (auto simp: range_open_def)
    with ok have "range_closed ctx (Some part) parts (os @ old_part part) (ns @ new_part part) ?st" by (auto simp: patch_ok_def)
    then obtain os0 ns0 g where "os @ old_part part = os0 @ g" "ns @ new_part part = ns0 @ g" "described (hunks ?st) os0 ns0"
      by (auto simp: range_closed_def)
    with True described.gap [of "hunks ?st" os0 ns0 g] show ?thesis by simp
  next
    case False
    from Cons.IH [OF ok] Cons.prems(2,4) False show ?thesis by simp
  qed
qed simp

lemma parts_sides:
  "proper_parts parts \<Longrightarrow>
     concat (map old_part (map (\<lambda>c. (c, splitLines (ch_value c))) parts)) = old_lines parts \<and>
     concat (map new_part (map (\<lambda>c. (c, splitLines (ch_value c))) parts)) = new_lines parts"
  by (induction parts) (auto simp: proper_parts_def old_lines_def new_lines_def old_part_def new_part_def part_lines_def)

text \<open>C8. The patch that an edit reports is correct: applying its hunks to the lines of the old text,
  with their positions, lengths, context and marks checked, gives the lines of the new text.\<close>

theorem patch_applies:
  "\<exists>hs. structuredPatch ctx oldStr newStr = Some hs \<and>
     applyHunks hs 0 0 (splitLinesWithEndings oldStr) = Some (splitLinesWithEndings newStr)"
proof -
  let ?os = "splitLinesWithEndings oldStr" and ?ns = "splitLinesWithEndings newStr"
  let ?stop = "(\<lparr>ch_value = [], ch_count = 0, ch_added = False, ch_removed = False\<rparr>, [])"
  obtain parts where diff: "diffLines oldStr newStr = Some parts"
      and sides: "old_lines parts = ?os" "new_lines parts = ?ns" and proper: "proper_parts parts"
    using diff_lines_parts by blast
  let ?parts = "map (\<lambda>c. (c, splitLines (ch_value c))) parts @ [?stop]"
  have "patch_ok ctx None ?parts [] [] patch_init"
    using described.nothing by (auto simp: patch_ok_def range_closed_def patch_init_def)
  from patch_loop_ok [OF this] proper parts_sides [OF proper] sides
  have "described (hunks (patch_loop ctx None ?parts patch_init)) ?os ?ns"
    by (simp add: proper_parts_def list_all_iff changed_def) (simp add: old_part_def new_part_def)
  from described_applies [OF this, of "[]" "[]"] diff show ?thesis
    by (simp add: structuredPatch_def diffLinesResultToPatch_def marked_def [abs_def] Let_def)
qed

end
