(* ===== verification/Diff_Display.thy ===== *)
theory Diff_Display
  imports Unified_Patch
begin

text \<open>
  The numbered difference shown to the user (\<open>generateDiffString\<close> in \<open>bridge.mjs\<close>): changed
  lines with up to a few lines of context around them, each with its line number, and dots for
  what is left out. Every line is shown with the number it has in its text.
\<close>

text \<open>An output line: the sign, the number and the line, or the dots. It is turned into text at the end.\<close>

datatype diff_entry = Shown nat nat jstring | Omitted

record display =
  shown :: "diff_entry list"
  oldLineNum :: nat
  newLineNum :: nat
  lastWasChange :: bool
  firstChangedLine :: "nat option"

definition display_init :: display where
  "display_init = \<lparr>shown = [], oldLineNum = 1, newLineNum = 1, lastWasChange = False, firstChangedLine = None\<rparr>"

definition raw_lines :: "jstring \<Rightarrow> jstring list" where
  "raw_lines v = (let raw = split_on 10 v in if last raw = [] then butlast raw else raw)"

fun numbered :: "nat \<Rightarrow> nat \<Rightarrow> jstring list \<Rightarrow> diff_entry list" where
  "numbered sign n [] = []"
| "numbered sign n (l # ls) = Shown sign n l # numbered sign (Suc n) ls"

definition show_change :: "bool \<Rightarrow> jstring list \<Rightarrow> display \<Rightarrow> display" where
  "show_change added raw st =
     (let st1 = (if firstChangedLine st = None then st\<lparr>firstChangedLine := Some (newLineNum st)\<rparr> else st) in
      if added
      then st1\<lparr>shown := shown st1 @ numbered 43 (newLineNum st1) raw, newLineNum := newLineNum st1 + length raw,
             lastWasChange := True\<rparr>
      else st1\<lparr>shown := shown st1 @ numbered 45 (oldLineNum st1) raw, oldLineNum := oldLineNum st1 + length raw,
             lastWasChange := True\<rparr>)"

definition show_context :: "jstring list \<Rightarrow> display \<Rightarrow> display" where
  "show_context ls st =
     st\<lparr>shown := shown st @ numbered 32 (oldLineNum st) ls, oldLineNum := oldLineNum st + length ls,
        newLineNum := newLineNum st + length ls\<rparr>"

definition skip_lines :: "nat \<Rightarrow> display \<Rightarrow> display" where
  "skip_lines n st = st\<lparr>oldLineNum := oldLineNum st + n, newLineNum := newLineNum st + n\<rparr>"

definition show_dots :: "nat \<Rightarrow> display \<Rightarrow> display" where
  "show_dots n st = skip_lines n (st\<lparr>shown := shown st @ [Omitted]\<rparr>)"

definition show_kept :: "nat \<Rightarrow> bool \<Rightarrow> jstring list \<Rightarrow> display \<Rightarrow> display" where
  "show_kept ctx nextPartIsChange raw st =
     (let st1 =
        (if lastWasChange st \<and> nextPartIsChange then
           (if length raw \<le> ctx * 2 then show_context raw st
            else
              (let leading = take ctx raw; trailing = last_lines ctx raw;
                   skipped = length raw - length leading - length trailing
               in show_context trailing (show_dots skipped (show_context leading st))))
         else if lastWasChange st then
           (let shownLines = take ctx raw; skipped = length raw - length shownLines; st2 = show_context shownLines st
            in if skipped > 0 then show_dots skipped st2 else st2)
         else if nextPartIsChange then
           (let skipped = length raw - ctx; st2 = (if skipped > 0 then show_dots skipped st else st)
            in show_context (drop skipped raw) st2)
         else skip_lines (length raw) st)
      in st1\<lparr>lastWasChange := False\<rparr>)"

definition is_change :: "nat change \<Rightarrow> bool" where
  "is_change c \<longleftrightarrow> ch_added c \<or> ch_removed c"

fun display_loop :: "nat \<Rightarrow> nat change list \<Rightarrow> display \<Rightarrow> display" where
  "display_loop ctx [] st = st"
| "display_loop ctx (part # parts) st =
     display_loop ctx parts
       (if is_change part then show_change (ch_added part) (raw_lines (ch_value part)) st
        else show_kept ctx (parts \<noteq> [] \<and> is_change (hd parts)) (raw_lines (ch_value part)) st)"

definition padStart :: "nat \<Rightarrow> jstring \<Rightarrow> jstring" where
  "padStart width s = replicate (width - length s) 32 @ s"

fun render_entry :: "nat \<Rightarrow> diff_entry \<Rightarrow> jstring" where
  "render_entry width (Shown sign n l) = sign # padStart width (js_nat n) @ 32 # l"
| "render_entry width Omitted = 32 # padStart width [] @ js_text '' ...''"

definition diff_display :: "nat \<Rightarrow> jstring \<Rightarrow> jstring \<Rightarrow> display option" where
  "diff_display ctx oldContent newContent =
     map_option (\<lambda>parts. display_loop ctx parts display_init) (diffLines oldContent newContent)"

definition generateDiffString :: "jstring \<Rightarrow> jstring \<Rightarrow> nat \<Rightarrow> (jstring \<times> nat option) option" where
  "generateDiffString oldContent newContent ctx =
     (let maxLineNum = max (length (split_on 10 oldContent)) (length (split_on 10 newContent));
          lineNumWidth = length (js_nat maxLineNum)
      in map_option
           (\<lambda>st. (join_with [10] (map (render_entry lineNumWidth) (shown st)), firstChangedLine st))
           (diff_display ctx oldContent newContent))"

subsection \<open>Numbers are right\<close>

fun entry_right :: "jstring list \<Rightarrow> jstring list \<Rightarrow> diff_entry \<Rightarrow> bool" where
  "entry_right os ns (Shown sign n l) =
     (let ls = (if sign = 43 then ns else os) in 0 < n \<and> n \<le> length ls \<and> ls ! (n - 1) = l)"
| "entry_right os ns Omitted = True"

lemma entry_right_extend: "entry_right os ns e \<Longrightarrow> entry_right (os @ os') (ns @ ns') e"
  by (cases e) (auto simp: Let_def nth_append)

lemma entries_extend: "list_all (entry_right os ns) es \<Longrightarrow> list_all (entry_right (os @ os') (ns @ ns')) es"
  by (auto simp: list_all_iff intro: entry_right_extend)

lemma numbered_new: "list_all (entry_right os (ns @ ls)) (numbered 43 (Suc (length ns)) ls)"
  by (induction ls arbitrary: ns) (auto simp: nth_append Let_def, metis append.assoc append_Cons append_Nil length_append_singleton)

lemma numbered_old: "sign \<noteq> 43 \<Longrightarrow> list_all (entry_right (os @ ls) ns) (numbered sign (Suc (length os)) ls)"
  by (induction ls arbitrary: os) (auto simp: nth_append Let_def, metis append.assoc append_Cons append_Nil length_append_singleton)

definition display_ok :: "jstring list \<Rightarrow> jstring list \<Rightarrow> display \<Rightarrow> bool" where
  "display_ok os ns st \<longleftrightarrow>
     oldLineNum st = Suc (length os) \<and> newLineNum st = Suc (length ns) \<and> list_all (entry_right os ns) (shown st) \<and>
     (case firstChangedLine st of
        None \<Rightarrow> os = ns
      | Some n \<Rightarrow> 0 < n \<and> n - 1 \<le> length os \<and> n - 1 \<le> length ns \<and> take (n - 1) os = take (n - 1) ns)"

lemma show_context_ok: "display_ok os ns st \<Longrightarrow> display_ok (os @ ls) (ns @ ls) (show_context ls st)"
  using numbered_old [of 32 os ls "ns @ ls"]
  by (auto simp: display_ok_def show_context_def entries_extend split: option.splits)

lemma skip_lines_ok: "display_ok os ns st \<Longrightarrow> display_ok (os @ ls) (ns @ ls) (skip_lines (length ls) st)"
  by (auto simp: display_ok_def skip_lines_def entries_extend split: option.splits)

lemma show_dots_ok:
  assumes "display_ok os ns st" "n = length ls"
  shows "display_ok (os @ ls) (ns @ ls) (show_dots n st)"
proof -
  have "display_ok os ns (st\<lparr>shown := shown st @ [Omitted]\<rparr>)" using assms(1) by (simp add: display_ok_def)
  then show ?thesis using skip_lines_ok assms(2) by (simp add: show_dots_def)
qed

lemma show_change_ok:
  assumes "display_ok os ns st"
  shows "display_ok (if added then os else os @ ls) (if added then ns @ ls else ns) (show_change added ls st)"
  using assms numbered_new [of os ns ls] numbered_old [of 45 os ls ns] entries_extend [of os ns "shown st" "[]" ls]
    entries_extend [of os ns "shown st" ls "[]"]
  by (cases added) (auto simp: display_ok_def show_change_def Let_def split: option.splits)

lemma display_flag [simp]: "display_ok os ns (st\<lparr>lastWasChange := b\<rparr>) = display_ok os ns st"
  by (simp add: display_ok_def)

lemma take_mid_last: "ctx * 2 < length raw \<Longrightarrow>
    raw = take ctx raw @ drop ctx (take (length raw - ctx) raw) @ last_lines ctx raw"
  by (simp add: last_lines_def) (metis append_assoc append_take_drop_id drop_take le_add_diff_inverse min.absorb2 mult_2_right nat_less_le take_add trans_le_add1 add_diff_cancel_right' less_diff_conv)

lemma show_kept_ok:
  assumes "display_ok os ns st"
  shows "display_ok (os @ raw) (ns @ raw) (show_kept ctx b raw st)"
proof -
  consider "lastWasChange st" b "length raw \<le> ctx * 2" | "lastWasChange st" b "ctx * 2 < length raw"
    | "lastWasChange st" "\<not> b" | "\<not> lastWasChange st" b | "\<not> lastWasChange st" "\<not> b" by linarith
  then show ?thesis
  proof cases
    case 1
    with show_context_ok [OF assms] show ?thesis by (simp add: show_kept_def)
  next
    case 2
    let ?mid = "drop ctx (take (length raw - ctx) raw)"
    have n: "length raw - length (take ctx raw) - length (last_lines ctx raw) = length ?mid"
      using 2(3) by (simp add: last_lines_def)
    have "display_ok ((os @ take ctx raw @ ?mid) @ last_lines ctx raw) ((ns @ take ctx raw @ ?mid) @ last_lines ctx raw)
        (show_context (last_lines ctx raw) (show_dots (length ?mid) (show_context (take ctx raw) st)))"
      using show_context_ok [OF show_dots_ok [OF show_context_ok [OF assms] refl, of "take ctx raw" ?mid], of "last_lines ctx raw"]
      by simp
    with 2 n take_mid_last [OF 2(3)] show ?thesis by (simp add: show_kept_def Let_def)
  next
    case 3
    have "display_ok (os @ take ctx raw @ drop ctx raw) (ns @ take ctx raw @ drop ctx raw)
        (show_dots (length (drop ctx raw)) (show_context (take ctx raw) st))"
      using show_dots_ok [OF show_context_ok [OF assms] refl, of "take ctx raw" "drop ctx raw"] by simp
    moreover have "length raw - length (take ctx raw) = length (drop ctx raw)" by simp
    ultimately show ?thesis using 3 show_context_ok [OF assms, of raw] by (simp add: show_kept_def Let_def)
  next
    case 4
    let ?n = "length raw - ctx"
    have "display_ok (os @ take ?n raw) (ns @ take ?n raw) (if ?n > 0 then show_dots ?n st else st)"
      using show_dots_ok [OF assms, of ?n "take ?n raw"] assms by simp
    from show_context_ok [OF this, of "drop ?n raw"] 4 show ?thesis by (simp add: show_kept_def Let_def)
  next
    case 5
    with skip_lines_ok [OF assms] show ?thesis by (simp add: show_kept_def)
  qed
qed

lemma display_loop_ok:
  assumes "display_ok os ns st" "proper_parts parts"
  shows "display_ok (os @ concat (map (raw_lines \<circ> ch_value) (filter (\<lambda>c. \<not> ch_added c) parts)))
    (ns @ concat (map (raw_lines \<circ> ch_value) (filter (\<lambda>c. \<not> ch_removed c) parts))) (display_loop ctx parts st)"
  using assms
proof (induction parts arbitrary: os ns st)
  case (Cons c parts)
  have p: "\<not> (ch_added c \<and> ch_removed c)" "proper_parts parts" using Cons.prems(2) by (simp_all add: proper_parts_def)
  let ?raw = "raw_lines (ch_value c)"
  show ?case
  proof (cases "is_change c")
    case True
    from Cons.IH [OF show_change_ok [OF Cons.prems(1), of "ch_added c" ?raw] p(2)] True p(1) show ?thesis
      by (auto simp: is_change_def)
  next
    case False
    from Cons.IH [OF show_kept_ok [OF Cons.prems(1), of ?raw ctx "parts \<noteq> [] \<and> is_change (hd parts)"] p(2)] False show ?thesis
      by (simp add: is_change_def)
  qed
qed simp

text \<open>The raw lines of a text are its lines without their ends.\<close>

definition bare :: "jstring \<Rightarrow> jstring" where
  "bare l = (if last l = 10 then butlast l else l)"

lemma raw_lines_eq: "raw_lines s = map bare (splitLinesWithEndings s)"
proof -
  have gen: "10 \<notin> set line \<Longrightarrow> raw_lines (line @ t) = map bare (line_tokens line t)" for line t
  proof (induction t arbitrary: line)
    case Nil
    then show ?case by (auto simp: raw_lines_def split_on_single bare_def dest: last_in_set)
  next
    case (Cons c t)
    show ?case
    proof (cases "c = 10")
      case True
      have "split_on 10 (line @ 10 # t) = line # split_on 10 t" using Cons.prems by (rule split_on_append_part)
      with Cons.IH [of "[]"] True show ?thesis by (auto simp: raw_lines_def bare_def Let_def split: if_splits)
    next
      case False
      with Cons.IH [of "line @ [c]"] Cons.prems show ?thesis by simp
    qed
  qed
  from gen [of "[]" s] show ?thesis by (simp add: splitLinesWithEndings_def)
qed

lemma raw_concat: "ls \<noteq> [] \<Longrightarrow> lines_ok ls \<Longrightarrow> raw_lines (concat ls) = map bare ls"
  by (simp add: raw_lines_eq split_concat_lines)

lemma raw_prefix: "prefix (raw_lines s) (split_on 10 s)"
  by (auto simp: raw_lines_def Let_def prefixeq_butlast)

text \<open>The parts of a difference have values; their raw lines are those of the two texts.\<close>

lemma raw_sides:
  assumes "list_all (\<lambda>c. ch_value c \<noteq> []) parts"
  shows "concat (map (raw_lines \<circ> ch_value) (filter P parts)) = map bare (concat (map part_lines (filter P parts)))"
  using assms by (induction parts) (auto simp: raw_lines_eq part_lines_def splitLines_eq)

text \<open>C32. The difference shown after an edit is numbered correctly: each added line is shown with its
  number in the new text and each removed or kept line with its number in the old one,
  whatever is left out in between; and before the first changed line the texts agree.\<close>

theorem diff_numbers:
  "\<exists>st. diff_display ctx oldContent newContent = Some st \<and>
     list_all (entry_right (split_on 10 oldContent) (split_on 10 newContent)) (shown st) \<and>
     (case firstChangedLine st of
        None \<Rightarrow> raw_lines oldContent = raw_lines newContent
      | Some n \<Rightarrow> take (n - 1) (split_on 10 oldContent) = take (n - 1) (split_on 10 newContent))"
proof -
  obtain parts where parts: "diffLines oldContent newContent = Some parts" "proper_parts parts"
      "old_lines parts = splitLinesWithEndings oldContent" "new_lines parts = splitLinesWithEndings newContent"
      "list_all (\<lambda>c. ch_value c \<noteq> []) parts"
    using diff_lines_parts by blast
  let ?st = "display_loop ctx parts display_init"
  have init: "display_ok [] [] display_init" by (simp add: display_ok_def display_init_def)
  from display_loop_ok [OF init parts(2), of ctx] raw_sides [OF parts(5)] parts(3,4)
  have ok: "display_ok (raw_lines oldContent) (raw_lines newContent) ?st"
    by (simp add: raw_lines_eq old_lines_def new_lines_def)
  obtain x y where xy: "split_on 10 oldContent = raw_lines oldContent @ x" "split_on 10 newContent = raw_lines newContent @ y"
    using raw_prefix by (metis prefix_def)
  from ok have "list_all (entry_right (split_on 10 oldContent) (split_on 10 newContent)) (shown ?st)"
    unfolding xy by (simp add: display_ok_def entries_extend)
  moreover from ok have "case firstChangedLine ?st of
      None \<Rightarrow> raw_lines oldContent = raw_lines newContent
    | Some n \<Rightarrow> take (n - 1) (split_on 10 oldContent) = take (n - 1) (split_on 10 newContent)"
    unfolding xy by (auto simp: display_ok_def split: option.split)
  ultimately show ?thesis using parts(1) by (simp add: diff_display_def)
qed

end
