(* ===== verification/Edit_Tool.thy ===== *)
theory Edit_Tool
  imports Edit_Match Diff_Display Json_Value
begin

text \<open>
  The edit and write tools (\<open>harness/tools/edit.js\<close>, \<open>write.js\<close>, \<open>path-utils.js\<close> in
  \<open>bridge.mjs\<close>): preparing the arguments of a call, resolving its path, and the body that
  runs alone for a file. The environment that holds the files is a parameter, a record of its
  operations on a state; Unicode normal forms are parameters too. The flag \<open>aborts n\<close> is the abort
  signal at the n-th check of a body.
\<close>

subsection \<open>The environment\<close>

record env_error =
  err_code :: jstring
  err_message :: jstring

datatype file_kind = RegularFile | Symlink | OtherKind

record 's tool_env =
  absolutePath :: "jstring \<Rightarrow> 's \<Rightarrow> (env_error, jstring) result"
  env_exists :: "jstring \<Rightarrow> 's \<Rightarrow> (env_error, bool) result"
  fileInfo :: "jstring \<Rightarrow> 's \<Rightarrow> (env_error, file_kind) result"
  readTextFile :: "jstring \<Rightarrow> 's \<Rightarrow> (env_error, jstring) result"
  readBinaryFile :: "jstring \<Rightarrow> 's \<Rightarrow> (env_error, nat list) result"
  writeFile :: "jstring \<Rightarrow> jstring \<Rightarrow> 's \<Rightarrow> 's \<times> (env_error, unit) result"

text \<open>What a tool throws: an error of its own, or the error object of the environment.\<close>

datatype tool_error = Thrown jstring | EnvError env_error

definition getOrThrow :: "(env_error, 'a) result \<Rightarrow> (tool_error, 'a) result" where
  "getOrThrow r = (case r of Inl e \<Rightarrow> Inl (EnvError e) | Inr v \<Rightarrow> Inr v)"

subsection \<open>Paths\<close>

definition unicode_space :: "nat \<Rightarrow> bool" where
  "unicode_space c \<longleftrightarrow> c \<in> {160, 8239, 8287, 12288} \<or> (8192 \<le> c \<and> c \<le> 8202)"

definition NARROW_NO_BREAK_SPACE :: nat where
  "NARROW_NO_BREAK_SPACE = 8239"

definition normalizeToolPath :: "jstring \<Rightarrow> jstring" where
  "normalizeToolPath path =
     (let normalized = map (\<lambda>c. if unicode_space c then 32 else c) path
      in if normalized \<noteq> [] \<and> hd normalized = 64 then tl normalized else normalized)"

definition resolveToolPath :: "'s tool_env \<Rightarrow> jstring \<Rightarrow> 's \<Rightarrow> (tool_error, jstring) result" where
  "resolveToolPath env path s = getOrThrow (absolutePath env (normalizeToolPath path) s)"

text \<open>\<open>resolved.replace(/ (AM|PM)\./gi, ...)\<close>.\<close>

fun narrow_am_pm :: "jstring \<Rightarrow> jstring" where
  "narrow_am_pm (a # b # c # d # s) =
     (if a = 32 \<and> b \<in> {65, 97, 80, 112} \<and> c \<in> {77, 109} \<and> d = 46
      then NARROW_NO_BREAK_SPACE # b # c # d # narrow_am_pm s else a # narrow_am_pm (b # c # d # s))"
| "narrow_am_pm s = s"

definition curly_quotes :: "jstring \<Rightarrow> jstring" where
  "curly_quotes s = map (\<lambda>c. if c = 39 then 8217 else c) s"

fun first_existing :: "'s tool_env \<Rightarrow> 's \<Rightarrow> jstring \<Rightarrow> jstring list \<Rightarrow> (tool_error, jstring) result" where
  "first_existing env s resolved [] = Inr resolved"
| "first_existing env s resolved (v # vs) =
     (case getOrThrow (env_exists env v s) of
        Inl e \<Rightarrow> Inl e
      | Inr b \<Rightarrow> (if b then Inr v else first_existing env s resolved vs))"

definition resolveReadToolPath ::
  "(jstring \<Rightarrow> jstring) \<Rightarrow> 's tool_env \<Rightarrow> jstring \<Rightarrow> 's \<Rightarrow> (tool_error, jstring) result" where
  "resolveReadToolPath nfd env path s =
     (case resolveToolPath env path s of
        Inl e \<Rightarrow> Inl e
      | Inr resolved \<Rightarrow>
          first_existing env s resolved
            (rev (remdups (rev [resolved, narrow_am_pm resolved, nfd resolved, curly_quotes resolved, curly_quotes (nfd resolved)]))))"

subsection \<open>Arguments of an edit\<close>

definition isSingleEditInput :: "jsval \<Rightarrow> bool" where
  "isSingleEditInput v =
     (case v of Some (JObj ps) \<Rightarrow> is_string (map_of ps ''oldText'') \<and> is_string (map_of ps ''newText'') | _ \<Rightarrow> False)"

definition prepared_edits :: "js_runtime \<Rightarrow> json \<Rightarrow> json" where
  "prepared_edits rt edits0 =
     (case edits0 of
        JStr s \<Rightarrow>
          (case JSON_parse rt s of
             None \<Rightarrow> edits0
           | Some parsed \<Rightarrow>
               (if is_array parsed then parsed
                else if isSingleEditInput (Some parsed) then JArr [parsed] else edits0))
      | _ \<Rightarrow> (if isSingleEditInput (Some edits0) then JArr [edits0] else edits0))"

definition prepareEditArguments :: "js_runtime \<Rightarrow> json \<Rightarrow> json" where
  "prepareEditArguments rt input =
     (case input of
        JObj ps \<Rightarrow>
          (let args = (case map_of ps ''edits'' of None \<Rightarrow> ps | Some e \<Rightarrow> AList.update ''edits'' (prepared_edits rt e) ps) in
           case (map_of args ''oldText'', map_of args ''newText'') of
             (Some (JStr old), Some (JStr new)) \<Rightarrow>
               (let before = (case map_of args ''edits'' of Some (JArr xs) \<Rightarrow> xs | _ \<Rightarrow> []);
                    edits1 = before @ [JObj [(''oldText'', JStr old), (''newText'', JStr new)]];
                    rest = AList.delete ''newText'' (AList.delete ''oldText'' args)
                in JObj (AList.update ''edits'' (JArr edits1) rest))
           | _ \<Rightarrow> JObj args)
      | _ \<Rightarrow> input)"

definition validateEditInput :: "edit list option \<Rightarrow> (tool_error, edit list) result" where
  "validateEditInput es =
     (case es of
        Some (e # es') \<Rightarrow> Inr (e # es')
      | _ \<Rightarrow> Inl (Thrown (js_text ''Edit tool input is invalid. edits must contain at least one replacement.'')))"

subsection \<open>The bodies\<close>

definition editAccessError :: "jstring \<Rightarrow> env_error \<Rightarrow> tool_error" where
  "editAccessError path e =
     Thrown (js_text ''Could not edit file: '' @ path @ js_text ''. Error code: '' @ err_code e @ js_text ''.'')"

definition aborted_error :: tool_error where
  "aborted_error = Thrown (js_text ''Operation aborted'')"

record edit_result =
  res_text :: jstring
  res_diff :: "(jstring \<times> nat option) option"
  res_patch :: "jstring option"

text \<open>What an edit makes of the text of a file.\<close>

definition edited_text ::
  "(jstring \<Rightarrow> jstring) \<Rightarrow> jstring \<Rightarrow> edit list \<Rightarrow> jstring \<Rightarrow> (jstring, jstring \<times> jstring \<times> jstring) result" where
  "edited_text nfkc raw edit_list path =
     (let (bom, content) = stripBom raw; originalEnding = detectLineEnding content in
      case applyEditsToNormalizedContent nfkc (normalizeToLF content) edit_list path of
        Inl e \<Rightarrow> Inl e
      | Inr (base, new) \<Rightarrow> Inr (base, new, bom @ restoreLineEndings new originalEnding))"

definition edit_body ::
  "(jstring \<Rightarrow> jstring) \<Rightarrow> 's tool_env \<Rightarrow> (nat \<Rightarrow> bool) \<Rightarrow> jstring \<Rightarrow> jstring \<Rightarrow> edit list \<Rightarrow> 's \<Rightarrow>
   's \<times> (tool_error, edit_result) result" where
  "edit_body nfkc env aborts path absPath edit_list s =
     (if aborts 0 then (s, Inl aborted_error)
      else
        case fileInfo env absPath s of
          Inl e \<Rightarrow> (s, Inl (editAccessError path e))
        | Inr kind \<Rightarrow>
            (if kind \<noteq> RegularFile \<and> kind \<noteq> Symlink
             then (s, Inl (Thrown (js_text ''Could not edit file: '' @ path @ js_text ''. Path is not a file.'')))
             else
               case readTextFile env absPath s of
                 Inl e \<Rightarrow> (s, Inl (editAccessError path e))
               | Inr raw \<Rightarrow>
                   (if aborts 1 then (s, Inl aborted_error)
                    else
                      case edited_text nfkc raw edit_list path of
                        Inl msg \<Rightarrow> (s, Inl (Thrown msg))
                      | Inr (base, new, final) \<Rightarrow>
                          (if aborts 2 then (s, Inl aborted_error)
                           else
                             (let (s1, written) = writeFile env absPath final s in
                              case written of
                                Inl e \<Rightarrow> (s1, Inl (editAccessError path e))
                              | Inr _ \<Rightarrow>
                                  (if aborts 3 then (s1, Inl aborted_error)
                                   else (s1, Inr \<lparr>
                                     res_text = js_text ''Successfully replaced '' @ js_nat (length edit_list) @
                                       js_text '' block(s) in '' @ path @ js_text ''.'',
                                     res_diff = generateDiffString base new 4,
                                     res_patch = generateUnifiedPatch path base new 4\<rparr>))))))) "

definition write_body ::
  "'s tool_env \<Rightarrow> (nat \<Rightarrow> bool) \<Rightarrow> jstring \<Rightarrow> jstring \<Rightarrow> jstring \<Rightarrow> 's \<Rightarrow> 's \<times> (tool_error, jstring) result" where
  "write_body env aborts path absPath content s =
     (if aborts 0 then (s, Inl aborted_error)
      else
        (let (s1, written) = writeFile env absPath content s in
         case written of
           Inl e \<Rightarrow> (s1, Inl (EnvError e))
         | Inr _ \<Rightarrow>
             (if aborts 1 then (s1, Inl aborted_error)
              else (s1, Inr (js_text ''Successfully wrote to '' @ path)))))"

text \<open>The tools resolve the path, then run their body alone for that file.\<close>

definition edit_tool ::
  "(jstring \<Rightarrow> jstring) \<Rightarrow> 's tool_env \<Rightarrow> (nat \<Rightarrow> bool) \<Rightarrow> jstring \<Rightarrow> edit list option \<Rightarrow> 's \<Rightarrow>
   's \<times> (tool_error, edit_result) result" where
  "edit_tool nfkc env aborts path es s =
     (case validateEditInput es of
        Inl e \<Rightarrow> (s, Inl e)
      | Inr edit_list \<Rightarrow>
          (case resolveToolPath env path s of
             Inl e \<Rightarrow> (s, Inl e)
           | Inr absPath \<Rightarrow> edit_body nfkc env aborts path absPath edit_list s))"

definition write_tool ::
  "'s tool_env \<Rightarrow> (nat \<Rightarrow> bool) \<Rightarrow> jstring \<Rightarrow> jstring \<Rightarrow> 's \<Rightarrow> 's \<times> (tool_error, jstring) result" where
  "write_tool env aborts path content s =
     (case resolveToolPath env path s of
        Inl e \<Rightarrow> (s, Inl e)
      | Inr absPath \<Rightarrow> write_body env aborts path absPath content s)"

subsection \<open>Prepared arguments\<close>

lemma is_string_cases: "is_string v \<longleftrightarrow> (\<exists>s. v = Some (JStr s))"
  by (cases v rule: is_string.cases) auto

lemma is_array_cases: "is_array j \<longleftrightarrow> (\<exists>xs. j = JArr xs)"
  by (cases j) auto

text \<open>An argument object offers edits as a list, as one edit, as JSON text of either, or as the old pair of texts.\<close>

definition edits_offered :: "js_runtime \<Rightarrow> json \<Rightarrow> bool" where
  "edits_offered rt e \<longleftrightarrow>
     is_array e \<or> isSingleEditInput (Some e) \<or>
     (\<exists>s p. e = JStr s \<and> JSON_parse rt s = Some p \<and> (is_array p \<or> isSingleEditInput (Some p)))"

lemma prepared_array: "is_array (prepared_edits rt e) \<longleftrightarrow> edits_offered rt e"
  by (cases e) (auto simp: prepared_edits_def edits_offered_def isSingleEditInput_def split: option.split)

lemma prepared_idem: "prepared_edits rt (prepared_edits rt e) = prepared_edits rt e"
  by (cases e) (auto simp: prepared_edits_def isSingleEditInput_def is_array_cases split: option.split json.split)

lemma update_same: "map_of ps k = Some v \<Longrightarrow> AList.update k v ps = ps"
  by (induction ps) auto

text \<open>The object with its \<open>edits\<close> prepared.\<close>

definition with_prepared :: "js_runtime \<Rightarrow> (string \<times> json) list \<Rightarrow> (string \<times> json) list" where
  "with_prepared rt ps = (case map_of ps ''edits'' of None \<Rightarrow> ps | Some e \<Rightarrow> AList.update ''edits'' (prepared_edits rt e) ps)"

lemma map_of_prepared:
  "map_of (with_prepared rt ps) k =
     (if k = ''edits'' then map_option (prepared_edits rt) (map_of ps k) else map_of ps k)"
  by (simp add: with_prepared_def update_conv' split: option.split)

lemma prepare_stable:
  assumes "map_option (prepared_edits rt) (map_of qs ''edits'') = map_of qs ''edits''" "\<not> isSingleEditInput (Some (JObj qs))"
  shows "prepareEditArguments rt (JObj qs) = JObj qs"
proof -
  have "with_prepared rt qs = qs"
    using assms(1) by (cases "map_of qs ''edits''") (auto simp: with_prepared_def update_same)
  with assms(2) show ?thesis
    by (auto simp: prepareEditArguments_def with_prepared_def [symmetric] isSingleEditInput_def is_string_cases Let_def
        split: option.split json.split)
qed

lemma prepare_plain:
  "\<not> isSingleEditInput (Some (JObj ps)) \<Longrightarrow> prepareEditArguments rt (JObj ps) = JObj (with_prepared rt ps)"
  by (auto simp: prepareEditArguments_def with_prepared_def [symmetric] map_of_prepared isSingleEditInput_def is_string_cases Let_def
      split: option.split json.split)

lemma prepare_pair:
  assumes "map_of ps ''oldText'' = Some (JStr old)" "map_of ps ''newText'' = Some (JStr new)"
  obtains xs where "prepareEditArguments rt (JObj ps) =
    JObj (AList.update ''edits'' (JArr xs) (AList.delete ''newText'' (AList.delete ''oldText'' (with_prepared rt ps))))"
  using assms by (auto simp: prepareEditArguments_def with_prepared_def [symmetric] map_of_prepared Let_def)

text \<open>C33. Preparing the arguments of an edit gives every caller's form the same type: an object stays an object, its
  \<open>edits\<close> is a list exactly when edits were offered in one of the accepted forms, the old
  pair of texts is gone, and preparing again changes nothing.\<close>

theorem prepared_type:
  "\<exists>qs. prepareEditArguments rt (JObj ps) = JObj qs \<and>
     (case map_of qs ''edits'' of None \<Rightarrow> False | Some e \<Rightarrow> is_array e) =
       (isSingleEditInput (Some (JObj ps)) \<or> (case map_of ps ''edits'' of None \<Rightarrow> False | Some e \<Rightarrow> edits_offered rt e)) \<and>
     \<not> isSingleEditInput (Some (JObj qs)) \<and>
     prepareEditArguments rt (JObj qs) = JObj qs"
proof (cases "isSingleEditInput (Some (JObj ps))")
  case True
  then obtain old new where pair: "map_of ps ''oldText'' = Some (JStr old)" "map_of ps ''newText'' = Some (JStr new)"
    by (auto simp: isSingleEditInput_def is_string_cases)
  obtain xs where prep: "prepareEditArguments rt (JObj ps) =
      JObj (AList.update ''edits'' (JArr xs) (AList.delete ''newText'' (AList.delete ''oldText'' (with_prepared rt ps))))"
    using prepare_pair [OF pair] .
  let ?qs = "AList.update ''edits'' (JArr xs) (AList.delete ''newText'' (AList.delete ''oldText'' (with_prepared rt ps)))"
  have e: "map_of ?qs ''edits'' = Some (JArr xs)" and o: "map_of ?qs ''oldText'' = None"
    by (simp_all add: update_conv' delete_conv')
  have single: "\<not> isSingleEditInput (Some (JObj ?qs))" using o by (simp add: isSingleEditInput_def)
  have "map_option (prepared_edits rt) (map_of ?qs ''edits'') = map_of ?qs ''edits''"
    by (simp add: e prepared_edits_def isSingleEditInput_def)
  from prepare_stable [OF this single] e single True prep show ?thesis
    by (intro exI [of _ ?qs] conjI) simp_all
next
  case False
  let ?qs = "with_prepared rt ps"
  have single: "\<not> isSingleEditInput (Some (JObj ?qs))" using False by (simp add: isSingleEditInput_def map_of_prepared)
  have "map_option (prepared_edits rt) (map_of ?qs ''edits'') = map_of ?qs ''edits''"
    by (simp add: map_of_prepared option.map_comp o_def prepared_idem)
  from prepare_stable [OF this single] single prepare_plain [OF False] False show ?thesis
    by (intro exI [of _ ?qs] conjI) (simp_all add: map_of_prepared prepared_array split: option.split)
qed

subsection \<open>An edit changes what it says\<close>

text \<open>A body writes the file at most once, with the complete new text.\<close>

lemma edit_body_writes:
  assumes "edit_body nfkc env aborts path absPath edit_list s = (s', r)"
  shows "s' = s \<and> (\<exists>e. r = Inl e) \<or>
    (\<exists>raw base new final. readTextFile env absPath s = Inr raw \<and>
       edited_text nfkc raw edit_list path = Inr (base, new, final) \<and> s' = fst (writeFile env absPath final s) \<and>
       (\<forall>v. r = Inr v \<longrightarrow> (\<exists>u. snd (writeFile env absPath final s) = Inr u)))"
  using assms
  by (auto simp: edit_body_def case_prod_beta Let_def split: if_splits sum.splits)

lemma edit_text_exact:
  assumes "edited_text nfkc raw edit_list path = Inr (base, new, final)" "stripBom raw = (bom, content)"
    and "uniform_endings content"
    and "\<And>e. e \<in> set edit_list \<Longrightarrow> indexOf (normalizeToLF content) (normalizeToLF (oldText e)) \<noteq> None"
  shows "\<exists>gaps es. mset es = mset (map normalized_edit edit_list) \<and> length gaps = Suc (length es) \<and>
    raw = bom @ weave gaps (map (\<lambda>e. restoreLineEndings (oldText e) (detectLineEnding content)) es) \<and>
    final = bom @ weave gaps (map (\<lambda>e. restoreLineEndings (newText e) (detectLineEnding content)) es)"
proof -
  let ?r = "\<lambda>t. restoreLineEndings t (detectLineEnding content)"
  have app: "applyEditsToNormalizedContent nfkc (normalizeToLF content) edit_list path = Inr (base, new)"
      and final: "final = bom @ ?r new"
    using assms(1,2) by (auto simp: edited_text_def split: sum.splits)
  from applyEdits_exact [OF app assms(4)] obtain gaps es where
    w: "mset es = mset (map normalized_edit edit_list)" "length gaps = Suc (length es)"
      "normalizeToLF content = weave gaps (map oldText es)" "new = weave gaps (map newText es)" by blast
  have "content = ?r (normalizeToLF content)" using endings_roundtrip [OF assms(3)] by simp
  also have "\<dots> = weave (map ?r gaps) (map (\<lambda>e. ?r (oldText e)) es)"
    using weave_restore [of gaps "map oldText es"] w(2,3) by (simp add: o_def)
  finally have old: "content = weave (map ?r gaps) (map (\<lambda>e. ?r (oldText e)) es)" .
  have new: "?r new = weave (map ?r gaps) (map (\<lambda>e. ?r (newText e)) es)"
    using weave_restore [of gaps "map newText es"] w(2,4) by (simp add: o_def)
  have "raw = bom @ content" using assms(2) by (cases raw) (auto simp: stripBom_def split: if_splits)
  with old new final w(1,2) show ?thesis by (intro exI [of _ "map ?r gaps"] exI [of _ es]) simp
qed


text \<open>A file system with one file.\<close>

definition one_file :: "jstring tool_env" where
  "one_file = \<lparr>absolutePath = (\<lambda>p s. Inr p), env_exists = (\<lambda>p s. Inr True), fileInfo = (\<lambda>p s. Inr RegularFile),
     readTextFile = (\<lambda>p s. Inr s), readBinaryFile = (\<lambda>p s. Inr s), writeFile = (\<lambda>p c s. (c, Inr ()))\<rparr>"


end
