(* ===== verification/Mutation_Queue.thy ===== *)
theory Mutation_Queue
  imports Promise_Chain Edit_Tool
begin

text \<open>
  The queue that lets one mutation of a file run at a time (\<open>file-mutation-queue.js\<close> in
  \<open>bridge.mjs\<close>). A call first takes its turn in the chain of registrations, where the key of
  its file is looked up; it then waits for the promise it found under that key and leaves its own
  promise there. The model keeps each registered job with the promise it waits for and whether it has released
  its own; the map \<open>queues\<close> holds the last job of each key. It refines the chain of \<open>Promise_Chain\<close>.
\<close>

subsection \<open>The queue\<close>

text \<open>\<open>getMutationQueueKey\<close>: the canonical path, or the absolute one when there is none.\<close>

definition getMutationQueueKey ::
  "(env_error, jstring) result \<Rightarrow> (env_error, jstring) result \<Rightarrow> (tool_error, jstring) result" where
  "getMutationQueueKey absolute canonical =
     (case absolute of
        Inl e \<Rightarrow> Inl (EnvError e)
      | Inr absPath \<Rightarrow>
          (case canonical of
             Inr p \<Rightarrow> Inr p
           | Inl e \<Rightarrow>
               (if err_code e = js_text ''not_found'' \<or> err_code e = js_text ''not_supported'' then Inr absPath
                else Inl (EnvError e))))"

record 'k mutation =
  mut_call :: nat
  mut_key :: 'k
  waitsFor :: "nat option"
  released :: bool

record 'k mutation_state =
  registration :: "nat list"
  mutations :: "'k mutation list"
  queues :: "('k \<times> nat) list"
  failed :: "(nat \<times> tool_error) list"

definition mutation_init :: "'k mutation_state" where
  "mutation_init = \<lparr>registration = [], mutations = [], queues = [], failed = []\<rparr>"

text \<open>The promise \<open>chainedQueue\<close> of a job is resolved when the one it waited for is and the job has released its own.\<close>

function chained_resolved :: "'k mutation list \<Rightarrow> nat \<Rightarrow> bool" where
  "chained_resolved js j =
     (j < length js \<and> released (js ! j) \<and>
      (case waitsFor (js ! j) of None \<Rightarrow> True | Some p \<Rightarrow> (if p < j then chained_resolved js p else False)))"
  by auto
termination by (relation "measure snd") auto

declare chained_resolved.simps [simp del]

definition running :: "'k mutation_state \<Rightarrow> nat \<Rightarrow> bool" where
  "running st j \<longleftrightarrow>
     j < length (mutations st) \<and> \<not> released (mutations st ! j) \<and>
     (case waitsFor (mutations st ! j) of None \<Rightarrow> True | Some p \<Rightarrow> chained_resolved (mutations st) p)"

datatype 'k mutation_event =
    CallE nat
  | RegisteredE "(tool_error, 'k) result"
  | FinishedE nat

text \<open>The first registration of the chain ends with its key or an error.\<close>

definition register_mutation :: "(tool_error, 'k) result \<Rightarrow> 'k mutation_state \<Rightarrow> 'k mutation_state" where
  "register_mutation r st =
     (case registration st of
        [] \<Rightarrow> st
      | c # cs \<Rightarrow>
          (case r of
             Inl e \<Rightarrow> st\<lparr>registration := cs, failed := failed st @ [(c, e)]\<rparr>
           | Inr k \<Rightarrow>
               st\<lparr>registration := cs,
                  mutations := mutations st @ [\<lparr>mut_call = c, mut_key = k, waitsFor = map_of (queues st) k, released = False\<rparr>],
                  queues := AList.update k (length (mutations st)) (queues st)\<rparr>))"

text \<open>A running job settles.\<close>

definition finish_mutation :: "nat \<Rightarrow> 'k mutation_state \<Rightarrow> 'k mutation_state" where
  "finish_mutation j st =
     (if running st j then
        (let k = mut_key (mutations st ! j) in
         st\<lparr>mutations := (mutations st)[j := (mutations st ! j)\<lparr>released := True\<rparr>],
            queues := (if map_of (queues st) k = Some j then AList.delete k (queues st) else queues st)\<rparr>)
      else st)"

definition mutation_step :: "'k mutation_event \<Rightarrow> 'k mutation_state \<Rightarrow> 'k mutation_state" where
  "mutation_step ev st =
     (case ev of
        CallE c \<Rightarrow> st\<lparr>registration := registration st @ [c]\<rparr>
      | RegisteredE r \<Rightarrow> register_mutation r st
      | FinishedE j \<Rightarrow> finish_mutation j st)"

definition mutation_run :: "'k mutation_event list \<Rightarrow> 'k mutation_state" where
  "mutation_run evs = fold mutation_step evs mutation_init"

subsection \<open>Refinement of the chain\<close>

text \<open>The jobs of a key that have not finished, in the order they registered.\<close>

definition pending_jobs :: "'k mutation list \<Rightarrow> 'k \<Rightarrow> nat list" where
  "pending_jobs js k = filter (\<lambda>j. \<not> released (js ! j) \<and> mut_key (js ! j) = k) [0..<length js]"

text \<open>Each pending job waits for the one before it, the first one for nothing that is not resolved.\<close>

fun linked :: "'k mutation list \<Rightarrow> nat list \<Rightarrow> bool" where
  "linked js (a # b # bs) \<longleftrightarrow> waitsFor (js ! b) = Some a \<and> linked js (b # bs)"
| "linked js _ = True"

definition ready :: "'k mutation list \<Rightarrow> nat \<Rightarrow> bool" where
  "ready js j \<longleftrightarrow> (case waitsFor (js ! j) of None \<Rightarrow> True | Some p \<Rightarrow> p < j \<and> chained_resolved js p)"

definition queue_inv :: "'k mutation_state \<Rightarrow> bool" where
  "queue_inv st \<longleftrightarrow>
     (\<forall>j < length (mutations st). \<forall>p. waitsFor (mutations st ! j) = Some p \<longrightarrow> p < j) \<and>
     (\<forall>k. map_of (queues st) k =
        (if pending_jobs (mutations st) k = [] then None else Some (last (pending_jobs (mutations st) k)))) \<and>
     (\<forall>k. linked (mutations st) (pending_jobs (mutations st) k)) \<and>
     (\<forall>k. pending_jobs (mutations st) k \<noteq> [] \<longrightarrow> ready (mutations st) (hd (pending_jobs (mutations st) k)))"

lemma resolved_released: "chained_resolved js j \<Longrightarrow> released (js ! j) \<and> j < length js"
  by (subst (asm) chained_resolved.simps) simp

lemma resolved_append: "j < length js \<Longrightarrow> chained_resolved (js @ ys) j = chained_resolved js j"
proof (induction j rule: less_induct)
  case (less j)
  then show ?case by (subst (1 2) chained_resolved.simps) (auto simp: nth_append split: option.split)
qed

lemma release_nth [simp]:
  assumes "j < length js"
  shows "waitsFor (js[i := (js ! i)\<lparr>released := True\<rparr>] ! j) = waitsFor (js ! j)"
    and "mut_key (js[i := (js ! i)\<lparr>released := True\<rparr>] ! j) = mut_key (js ! j)"
    and "released (js[i := (js ! i)\<lparr>released := True\<rparr>] ! j) = (released (js ! j) \<or> i = j)"
  using assms by (cases "i = j"; simp)+

lemma resolved_release:
  "chained_resolved js j \<Longrightarrow> chained_resolved (js[i := (js ! i)\<lparr>released := True\<rparr>]) j"
proof (induction j rule: less_induct)
  case (less j)
  from less.prems have j: "j < length js" "released (js ! j)"
      "case waitsFor (js ! j) of None \<Rightarrow> True | Some p \<Rightarrow> p < j \<and> chained_resolved js p"
    by (subst (asm) chained_resolved.simps, simp split: option.splits if_splits)+
  show ?case
    using j less.IH by (subst chained_resolved.simps) (simp split: option.splits)
qed

lemma pending_props:
  "j \<in> set (pending_jobs js k) \<longleftrightarrow> j < length js \<and> \<not> released (js ! j) \<and> mut_key (js ! j) = k"
  by (auto simp: pending_jobs_def)

lemma pending_sorted: "sorted_wrt (<) (pending_jobs js k)"
  unfolding pending_jobs_def by (intro sorted_wrt_filter) simp

lemma pending_append:
  "pending_jobs (js @ [x]) k = pending_jobs js k @ (if \<not> released x \<and> mut_key x = k then [length js] else [])"
proof -
  have "filter (\<lambda>j. \<not> released ((js @ [x]) ! j) \<and> mut_key ((js @ [x]) ! j) = k) [0..<length js] = pending_jobs js k"
    unfolding pending_jobs_def by (intro filter_cong) (auto simp: nth_append)
  then show ?thesis by (simp add: pending_jobs_def)
qed

lemma linked_append: "linked js as \<Longrightarrow> (\<And>a. a \<in> set as \<Longrightarrow> a < length js) \<Longrightarrow> linked (js @ ys) as"
  by (induction js as rule: linked.induct) (auto simp: nth_append)

lemma linked_snoc: "linked js as \<Longrightarrow> as = [] \<or> waitsFor (js ! b) = Some (last as) \<Longrightarrow> linked js (as @ [b])"
proof (induction as)
  case (Cons a as)
  then show ?case by (cases as) auto
qed simp

text \<open>Only the first pending job of a key runs.\<close>

lemma running_first:
  assumes "queue_inv st"
  shows "running st j \<longleftrightarrow> (\<exists>k js. pending_jobs (mutations st) k = j # js)"
proof
  assume r: "running st j"
  let ?js = "mutations st" and ?k = "mut_key (mutations st ! j)"
  have j: "j < length ?js" "\<not> released (?js ! j)" using r by (simp_all add: running_def)
  then have "j \<in> set (pending_jobs ?js ?k)" by (simp add: pending_props)
  then obtain as bs where split: "pending_jobs ?js ?k = as @ j # bs" by (meson split_list)
  show "\<exists>k js. pending_jobs ?js k = j # js"
  proof (cases as rule: rev_cases)
    case Nil
    with split show ?thesis by auto
  next
    case (snoc cs a)
    have lk: "linked ?js (as @ j # bs)" using assms split by (metis queue_inv_def)
    have "linked ?js (cs @ a # j # bs) \<Longrightarrow> waitsFor (?js ! j) = Some a"
      by (induction cs) (auto, metis append_Cons append_Nil linked.simps(1) list.exhaust)
    with lk snoc have "waitsFor (?js ! j) = Some a" by simp
    moreover have "\<not> released (?js ! a)" using split snoc pending_props [of a ?js ?k] by auto
    ultimately show ?thesis using r resolved_released by (fastforce simp: running_def)
  qed
next
  assume "\<exists>k js. pending_jobs (mutations st) k = j # js"
  then obtain k js where "pending_jobs (mutations st) k = j # js" by blast
  with assms pending_props [of j "mutations st" k] show "running st j"
    by (auto simp: queue_inv_def running_def ready_def split: option.splits) (metis list.distinct(1) list.sel(1) option.simps(5))+
qed

lemma pending_release:
  assumes "pending_jobs js k = j # rest"
  shows "pending_jobs (js[j := (js ! j)\<lparr>released := True\<rparr>]) k' = (if k' = k then rest else pending_jobs js k')"
proof -
  let ?js = "js[j := (js ! j)\<lparr>released := True\<rparr>]"
  have j: "j < length js" "mut_key (js ! j) = k" using assms pending_props [of j js k] by auto
  have "pending_jobs ?js k' = filter (\<lambda>i. i \<noteq> j) (pending_jobs js k')"
    unfolding pending_jobs_def by (auto simp: filter_filter intro!: filter_cong)
  moreover have "filter (\<lambda>i. i \<noteq> j) (pending_jobs js k) = rest"
    using pending_sorted [of js k] by (auto simp: assms filter_id_conv)
  moreover have "filter (\<lambda>i. i \<noteq> j) (pending_jobs js k') = pending_jobs js k'" if "k' \<noteq> k"
    using that j by (auto simp: filter_id_conv pending_props)
  ultimately show ?thesis by simp
qed

lemma linked_release:
  "linked js as \<Longrightarrow> (\<And>a. a \<in> set as \<Longrightarrow> a < length js) \<Longrightarrow> linked (js[j := (js ! j)\<lparr>released := True\<rparr>]) as"
  by (induction js as rule: linked.induct) auto

lemma ready_release: "ready js i \<Longrightarrow> i < length js \<Longrightarrow> ready (js[j := (js ! j)\<lparr>released := True\<rparr>]) i"
  using resolved_release by (auto simp: ready_def split: option.splits)

lemma queue_inv_init: "queue_inv mutation_init"
  by (simp add: queue_inv_def mutation_init_def pending_jobs_def)

lemma register_inv:
  assumes "queue_inv st"
  shows "queue_inv (register_mutation r st)"
proof (cases "registration st = [] \<or> (\<exists>e. r = Inl e)")
  case True
  with assms show ?thesis by (cases "registration st"; cases r) (auto simp: register_mutation_def queue_inv_def)
next
  case False
  then obtain c cs k where rk: "registration st = c # cs" "r = Inr k" by (cases "registration st"; cases r) auto
  let ?js = "mutations st"
  define x where "x = \<lparr>mut_call = c, mut_key = k, waitsFor = map_of (queues st) k, released = False\<rparr>"
  have st: "mutations (register_mutation r st) = ?js @ [x]"
      "queues (register_mutation r st) = AList.update k (length ?js) (queues st)"
    by (simp_all add: register_mutation_def rk x_def)
  have x: "mut_key x = k" "\<not> released x" "waitsFor x = (if pending_jobs ?js k = [] then None else Some (last (pending_jobs ?js k)))"
    using assms by (simp_all add: x_def queue_inv_def)
  have lt: "a \<in> set (pending_jobs ?js k') \<Longrightarrow> a < length ?js" for a k' by (simp add: pending_props)
  have wait: "p < j" if "j < length (?js @ [x])" "waitsFor ((?js @ [x]) ! j) = Some p" for j p
    using that assms x lt [of p k] by (auto simp: queue_inv_def nth_append less_Suc_eq split: if_splits)
  have pend: "pending_jobs (?js @ [x]) k' = pending_jobs ?js k' @ (if k' = k then [length ?js] else [])" for k'
    using x by (auto simp: pending_append)
  have link: "linked (?js @ [x]) (pending_jobs (?js @ [x]) k')" for k'
  proof -
    have old: "linked (?js @ [x]) (pending_jobs ?js k')"
      using assms lt by (intro linked_append) (auto simp: queue_inv_def)
    show ?thesis
    proof (cases "k' = k")
      case True
      with old x(3) show ?thesis by (cases "pending_jobs ?js k = []") (auto simp: pend intro!: linked_snoc)
    qed (simp add: pend old)
  qed
  have first: "ready (?js @ [x]) (hd (pending_jobs (?js @ [x]) k'))" if "pending_jobs (?js @ [x]) k' \<noteq> []" for k'
  proof (cases "pending_jobs ?js k' = []")
    case True
    with that have "k' = k" by (simp add: pend split: if_splits)
    with True x(3) show ?thesis by (simp add: pend ready_def)
  next
    case False
    let ?h = "hd (pending_jobs ?js k')"
    have h: "?h < length ?js" "ready ?js ?h" using False assms lt [of ?h k'] by (auto simp: queue_inv_def)
    then have "ready (?js @ [x]) ?h" by (auto simp: ready_def nth_append resolved_append split: option.splits)
    with False show ?thesis by (simp add: pend)
  qed
  have "map_of (queues (register_mutation r st)) k' =
      (if pending_jobs (?js @ [x]) k' = [] then None else Some (last (pending_jobs (?js @ [x]) k')))" for k'
    using assms by (simp add: st update_conv' pend queue_inv_def)
  with wait link first show ?thesis by (simp add: queue_inv_def st)
qed

lemma finish_inv:
  assumes "queue_inv st"
  shows "queue_inv (finish_mutation j st)"
proof (cases "running st j")
  case True
  let ?js = "mutations st"
  let ?ns = "?js[j := (?js ! j)\<lparr>released := True\<rparr>]"
  obtain k rest where p: "pending_jobs ?js k = j # rest" using running_first [OF assms] True by blast
  have j: "j < length ?js" "mut_key (?js ! j) = k" using p pending_props [of j ?js k] by auto
  have st: "mutations (finish_mutation j st) = ?ns"
      "queues (finish_mutation j st) = (if map_of (queues st) k = Some j then AList.delete k (queues st) else queues st)"
    using True by (simp_all add: finish_mutation_def j(2) Let_def)
  note pend = pending_release [OF p]
  have lt: "a \<in> set (pending_jobs ?js k') \<Longrightarrow> a < length ?js" for a k' by (simp add: pending_props)
  have link0: "linked ?js (pending_jobs ?js k')" and ready0: "pending_jobs ?js k' \<noteq> [] \<Longrightarrow> ready ?js (hd (pending_jobs ?js k'))"
      and tail0: "map_of (queues st) k' = (if pending_jobs ?js k' = [] then None else Some (last (pending_jobs ?js k')))" for k'
    using assms by (simp_all add: queue_inv_def)
  have tail: "map_of (queues (finish_mutation j st)) k' = (if pending_jobs ?ns k' = [] then None else Some (last (pending_jobs ?ns k')))" for k'
  proof -
    have "last (j # rest) = j \<longleftrightarrow> rest = []"
      using pending_sorted [of ?js k] by (cases rest rule: rev_cases) (auto simp: p sorted_wrt_append)
    then show ?thesis using tail0 [of k] tail0 [of k'] by (auto simp: st(2) pend delete_conv' p)
  qed
  have link: "linked ?ns (pending_jobs ?ns k')" for k'
  proof (cases "k' = k")
    case True
    have "linked ?js rest" using link0 [of k] by (cases rest) (auto simp: p)
    then show ?thesis using True lt [of _ k] by (auto simp: pend p intro!: linked_release)
  next
    case False
    with link0 [of k'] lt [of _ k'] show ?thesis by (auto simp: pend intro!: linked_release)
  qed
  have first: "ready ?ns (hd (pending_jobs ?ns k'))" if "pending_jobs ?ns k' \<noteq> []" for k'
  proof (cases "k' = k")
    case True
    with that obtain b bs where rest: "rest = b # bs" by (cases rest) (auto simp: pend)
    then have b: "waitsFor (?js ! b) = Some j" "b < length ?js" "j < b"
      using link0 [of k] lt [of b k] pending_sorted [of ?js k] by (auto simp: p)
    have "ready ?js j" using ready0 [of k] by (simp add: p)
    then have "chained_resolved ?ns j"
      using j(1) ready_release [of ?js j j] by (subst chained_resolved.simps) (auto simp: ready_def split: option.splits)
    with b show ?thesis by (simp add: pend True rest ready_def)
  next
    case False
    with that have ne: "pending_jobs ?js k' \<noteq> []" by (simp add: pend)
    from ready0 [OF ne] lt [of "hd (pending_jobs ?js k')" k'] ne False show ?thesis by (simp add: pend ready_release)
  qed
  have "p < i" if "i < length ?ns" "waitsFor (?ns ! i) = Some p" for i p
    using that assms by (simp add: queue_inv_def)
  with tail link first show ?thesis by (simp add: queue_inv_def st(1))
next
  case False
  with assms show ?thesis by (simp add: finish_mutation_def)
qed

lemma call_inv: "queue_inv (st\<lparr>registration := c\<rparr>) = queue_inv st"
  by (simp add: queue_inv_def)

lemma run_inv: "queue_inv (mutation_run evs)"
proof -
  have "queue_inv st \<Longrightarrow> queue_inv (fold mutation_step evs st)" for st
  proof (induction evs arbitrary: st)
    case (Cons ev evs)
    have "queue_inv (mutation_step ev st)"
      using Cons.prems register_inv finish_inv by (cases ev) (simp_all add: mutation_step_def call_inv)
    from Cons.IH [OF this] show ?case by simp
  qed simp
  then show ?thesis unfolding mutation_run_def using queue_inv_init .
qed

text \<open>The abstract chain that the queue implements: a registered job is chained under its key and a
  finished one leaves it.\<close>

definition chain_step :: "'k mutation_event \<Rightarrow> 'k mutation_state \<Rightarrow> ('k, nat) chains \<Rightarrow> ('k, nat) chains" where
  "chain_step ev st cs =
     (case ev of
        RegisteredE (Inr k) \<Rightarrow> (if registration st = [] then cs else chain_enqueue k (length (mutations st)) cs)
      | FinishedE j \<Rightarrow> (if running st j then chain_settle (mut_key (mutations st ! j)) cs else cs)
      | _ \<Rightarrow> cs)"

lemma step_refines:
  assumes "queue_inv st" "\<And>k. chain_jobs cs k = pending_jobs (mutations st) k"
  shows "chain_jobs (chain_step ev st cs) k = pending_jobs (mutations (mutation_step ev st)) k"
proof (cases ev)
  case (CallE c)
  with assms(2) show ?thesis by (simp add: chain_step_def mutation_step_def)
next
  case (RegisteredE r)
  with assms(2) show ?thesis
    by (cases r; cases "registration st")
      (simp_all add: chain_step_def mutation_step_def register_mutation_def pchain.jobs_enqueue pending_append)
next
  case (FinishedE j)
  show ?thesis
  proof (cases "running st j")
    case True
    obtain key rest where p: "pending_jobs (mutations st) key = j # rest" using running_first [OF assms(1)] True by blast
    then have "mut_key (mutations st ! j) = key" using pending_props [of j "mutations st" key] by auto
    with FinishedE True assms(2) p pending_release [OF p] show ?thesis
      by (simp add: chain_step_def mutation_step_def finish_mutation_def pchain.jobs_settle Let_def)
  next
    case False
    with FinishedE assms(2) show ?thesis by (simp add: chain_step_def mutation_step_def finish_mutation_def)
  qed
qed

text \<open>C11. Mutations of one file run one at a time and in the order they registered: of the jobs of a
  key at most one runs, every job that registered before it has finished, one is running
  whenever a job of the key has not finished, and the map keeps a key only while it has such a job.\<close>

theorem one_mutation_at_a_time:
  assumes "st = mutation_run evs"
  shows "(running st j \<and> i < j \<and> mut_key (mutations st ! i) = mut_key (mutations st ! j) \<longrightarrow> released (mutations st ! i)) \<and>
    (j < length (mutations st) \<and> \<not> released (mutations st ! j) \<longrightarrow>
       (\<exists>i \<le> j. running st i \<and> mut_key (mutations st ! i) = mut_key (mutations st ! j))) \<and>
    (map_of (queues st) k = None \<longleftrightarrow>
       \<not> (\<exists>i < length (mutations st). \<not> released (mutations st ! i) \<and> mut_key (mutations st ! i) = k))"
proof (intro conjI impI)
  let ?js = "mutations st"
  have inv: "queue_inv st" using run_inv assms by simp
  note first = running_first [OF inv]
  show "released (?js ! i)" if a: "running st j \<and> i < j \<and> mut_key (?js ! i) = mut_key (?js ! j)"
  proof (rule ccontr)
    assume "\<not> released (?js ! i)"
    moreover obtain key rest where p: "pending_jobs ?js key = j # rest" using first a by blast
    then have "mut_key (?js ! j) = key" "j < length ?js" using pending_props [of j ?js key] by auto
    ultimately have "i \<in> set (j # rest)" using a by (simp add: p [symmetric] pending_props)
    with pending_sorted [of ?js key] a show False by (auto simp: p)
  qed
  show "\<exists>i \<le> j. running st i \<and> mut_key (?js ! i) = mut_key (?js ! j)" if "j < length ?js \<and> \<not> released (?js ! j)"
  proof -
    have mem: "j \<in> set (pending_jobs ?js (mut_key (?js ! j)))" using that by (simp add: pending_props)
    then obtain i rest where p: "pending_jobs ?js (mut_key (?js ! j)) = i # rest" by (cases "pending_jobs ?js (mut_key (?js ! j))") auto
    with first have "running st i" by blast
    moreover have "mut_key (?js ! i) = mut_key (?js ! j)" using p pending_props [of i ?js] by (metis list.set_intros(1))
    moreover have "i \<le> j" using mem pending_sorted [of ?js "mut_key (?js ! j)"] by (auto simp: p)
    ultimately show ?thesis by blast
  qed
  have "map_of (queues st) k = None \<longleftrightarrow> pending_jobs ?js k = []" using inv by (simp add: queue_inv_def)
  moreover have "pending_jobs ?js k = [] \<longleftrightarrow> \<not> (\<exists>i. i \<in> set (pending_jobs ?js k))" by (cases "pending_jobs ?js k") auto
  ultimately show "map_of (queues st) k = None \<longleftrightarrow>
      \<not> (\<exists>i < length ?js. \<not> released (?js ! i) \<and> mut_key (?js ! i) = k)"
    by (auto simp: pending_props)
qed

theorem one_mutation_at_a_time_witness:
  "(let st = mutation_run [CallE 7, CallE 8, RegisteredE (Inr ''f''), RegisteredE (Inr ''f''), FinishedE 0] in
    running st 1 \<and> released (mutations st ! 0) \<and> map_of (queues st) ''f'' \<noteq> None)"
proof -
  define st where "st = mutation_run [CallE 7, CallE 8, RegisteredE (Inr ''f''), RegisteredE (Inr ''f''), FinishedE 0]"
  have "running st 1" "mut_key (mutations st ! 0) = ''f''" "mut_key (mutations st ! 1) = ''f''" "length (mutations st) = 2"
      "\<not> released (mutations st ! 1)"
    by (simp_all add: st_def mutation_run_def mutation_step_def mutation_init_def register_mutation_def finish_mutation_def
        running_def chained_resolved.simps Let_def)
  with one_mutation_at_a_time [OF st_def, of 1 0 "''f''"] show ?thesis
    unfolding st_def [symmetric] Let_def by (metis less_2_cases_iff One_nat_def zero_less_one)
qed

end
