(* ===== verification/Js_Utf8.thy ===== *)
theory Js_Utf8
  imports Js_Utf16
begin

text \<open>
  The streaming UTF-8 decoder of the runtime (\<open>TextDecoder\<close>), byte by byte: invalid input
  becomes the replacement character, a byte order mark at the start of a stream is dropped.
\<close>

record decoder =
  d_needed :: nat
  d_code :: nat
  d_lower :: nat
  d_upper :: nat
  d_start :: bool

definition decoder_init :: decoder where
  "decoder_init = \<lparr>d_needed = 0, d_code = 0, d_lower = 128, d_upper = 191, d_start = True\<rparr>"

definition units :: "nat \<Rightarrow> jstring" where
  "units c = (if c < 65536 then [c] else [55296 + (c - 65536) div 1024, 56320 + (c - 65536) mod 1024])"

text \<open>A decoded code point; the mark \<open>U+FEFF\<close> at the start is dropped.\<close>

definition emit_code :: "nat \<Rightarrow> decoder \<Rightarrow> decoder \<times> jstring" where
  "emit_code c d =
     (d\<lparr>d_needed := 0, d_code := 0, d_lower := 128, d_upper := 191, d_start := False\<rparr>,
      if d_start d \<and> c = 65279 then [] else units c)"

definition decode_lead :: "nat \<Rightarrow> decoder \<Rightarrow> decoder \<times> jstring" where
  "decode_lead b d =
     (if b \<le> 127 then emit_code b d
      else if 194 \<le> b \<and> b \<le> 223 then (d\<lparr>d_needed := 1, d_code := b - 192\<rparr>, [])
      else if 224 \<le> b \<and> b \<le> 239 then
        (d\<lparr>d_needed := 2, d_code := b - 224, d_lower := (if b = 224 then 160 else 128),
           d_upper := (if b = 237 then 159 else 191)\<rparr>, [])
      else if 240 \<le> b \<and> b \<le> 244 then
        (d\<lparr>d_needed := 3, d_code := b - 240, d_lower := (if b = 240 then 144 else 128),
           d_upper := (if b = 244 then 143 else 191)\<rparr>, [])
      else emit_code REPLACEMENT d)"

definition decode_byte :: "nat \<Rightarrow> decoder \<Rightarrow> decoder \<times> jstring" where
  "decode_byte b d =
     (if d_needed d = 0 then decode_lead b d
      else if b < d_lower d \<or> d_upper d < b then
        (let (d1, out) = emit_code REPLACEMENT d; (d2, out2) = decode_lead b d1 in (d2, out @ out2))
      else
        (let c = d_code d * 64 + (b - 128) in
         if d_needed d = 1 then emit_code c d
         else (d\<lparr>d_needed := d_needed d - 1, d_code := c, d_lower := 128, d_upper := 191\<rparr>, [])))"

fun decode_stream :: "nat list \<Rightarrow> decoder \<Rightarrow> decoder \<times> jstring" where
  "decode_stream [] d = (d, [])"
| "decode_stream (b # bs) d =
     (let (d1, out) = decode_byte b d; (d2, out2) = decode_stream bs d1 in (d2, out @ out2))"

text \<open>\<open>decode()\<close> without \<open>stream\<close>: the rest of the stream; an unfinished character is
  replaced and the decoder starts afresh.\<close>

definition decode_flush :: "decoder \<Rightarrow> decoder \<times> jstring" where
  "decode_flush d = (decoder_init, if d_needed d = 0 then [] else [REPLACEMENT])"

definition utf8_decode :: "nat list \<Rightarrow> jstring" where
  "utf8_decode bs = (let (d, out) = decode_stream bs decoder_init in out @ snd (decode_flush d))"

lemma decode_stream_append:
  "decode_stream (as @ bs) d =
     (let (d1, out) = decode_stream as d; (d2, out2) = decode_stream bs d1 in (d2, out @ out2))"
  by (induction as arbitrary: d) (simp_all add: case_prod_beta Let_def)

text \<open>A decoder between two characters.\<close>

definition decoder_ready :: "bool \<Rightarrow> decoder" where
  "decoder_ready start = \<lparr>d_needed = 0, d_code = 0, d_lower = 128, d_upper = 191, d_start = start\<rparr>"

lemma decoder_init_ready: "decoder_init = decoder_ready True"
  by (simp add: decoder_init_def decoder_ready_def)

definition scalar :: "nat \<Rightarrow> bool" where
  "scalar c = (c < 1114112 \<and> \<not> surrogate c)"

lemma emit_ready [simp]:
  "emit_code c d = (decoder_ready False, if d_start d \<and> c = 65279 then [] else units c)"
  by (simp add: emit_code_def decoder_ready_def)

lemma div_64_64: "c div 4096 = c div 64 div (64::nat)" "c div 262144 = c div 64 div 64 div (64::nat)"
  by (simp_all flip: div_mult2_eq)

lemma recombine3: "(c div 4096 * 64 + c div 64 mod 64) * 64 + c mod 64 = (c::nat)"
  by (simp only: div_64_64 div_mult_mod_eq)

lemma recombine4: "((c div 262144 * 64 + c div 4096 mod 64) * 64 + c div 64 mod 64) * 64 + c mod 64 = (c::nat)"
  by (simp only: div_64_64 div_mult_mod_eq)

lemma decode_ascii:
  "c < 128 \<Longrightarrow> decode_stream [c] (decoder_ready b) = (decoder_ready False, units c)"
  by (simp add: decode_byte_def decode_lead_def decoder_ready_def)

text \<open>A continuation byte in range.\<close>

lemma decode_more:
  "d_needed d = Suc (Suc n) \<Longrightarrow> d_lower d \<le> 128 + m \<Longrightarrow> 128 + m \<le> d_upper d \<Longrightarrow>
   decode_byte (128 + m) d = (d\<lparr>d_needed := Suc n, d_code := d_code d * 64 + m, d_lower := 128, d_upper := 191\<rparr>, [])"
  by (simp add: decode_byte_def)

lemma decode_last:
  "d_needed d = Suc 0 \<Longrightarrow> d_lower d \<le> 128 + m \<Longrightarrow> 128 + m \<le> d_upper d \<Longrightarrow>
   decode_byte (128 + m) d =
     (decoder_ready False, if d_start d \<and> d_code d * 64 + m = 65279 then [] else units (d_code d * 64 + m))"
  by (simp add: decode_byte_def Let_def)

lemma decode_two:
  assumes "128 \<le> c" "c < 2048"
  shows "decode_stream [192 + c div 64, 128 + c mod 64] (decoder_ready b) = (decoder_ready False, units c)"
proof -
  define h l where hl: "h = c div 64" "l = c mod 64"
  have h: "2 \<le> h" "h < 32" "l < 64" and c: "h * 64 + l = c"
    using assms by (simp_all add: hl div_less_iff_less_mult less_eq_div_iff_mult_less_eq)
  let ?d = "(decoder_ready b)\<lparr>d_needed := 1, d_code := h\<rparr>"
  have "decode_byte (192 + h) (decoder_ready b) = (?d, [])"
    using h by (simp add: decode_byte_def decode_lead_def decoder_ready_def)
  then show ?thesis
    using decode_last [of ?d l] h c assms unfolding hl [symmetric] by (simp add: decoder_ready_def)
qed

lemma decode_three:
  assumes "2048 \<le> c" "c < 65536" "\<not> surrogate c"
  shows "decode_stream [224 + c div 4096, 128 + c div 64 mod 64, 128 + c mod 64] (decoder_ready b) =
    (decoder_ready False, if b \<and> c = 65279 then [] else units c)"
proof -
  define h m l where hml: "h = c div 4096" "m = c div 64 mod 64" "l = c mod 64"
  have h: "h < 16" "m < 64" "l < 64"
    using assms by (simp_all add: hml div_less_iff_less_mult)
  have c: "(h * 64 + m) * 64 + l = c"
    unfolding hml by (rule recombine3)
  then have sum: "h * 4096 + m * 64 + l = c" by simp
  have lo: "32 \<le> m" if "h = 0" using sum that assms(1) h by linarith
  have hi: "m < 32" if "h = 13"
  proof (rule ccontr)
    assume "\<not> m < 32"
    then have "55296 \<le> c" "c \<le> 57343" using sum that h by linarith+
    with assms(3) show False by (auto simp: surrogate_def hi_surrogate_def lo_surrogate_def)
  qed
  define d where "d = (decoder_ready b)\<lparr>d_needed := 2, d_code := h, d_lower := (if h = 0 then 160 else 128),
       d_upper := (if h = 13 then 159 else 191)\<rparr>"
  have d: "d_needed d = Suc (Suc 0)" "d_code d = h" "d_start d = b" "d_lower d \<le> 128 + m" "128 + m \<le> d_upper d"
    using lo hi h by (auto simp: d_def decoder_ready_def)
  have "decode_byte (224 + h) (decoder_ready b) = (d, [])"
    using h by (simp add: d_def decode_byte_def decode_lead_def decoder_ready_def)
  then show ?thesis
    using decode_more [OF d(1,4,5)] decode_last [of "d\<lparr>d_needed := 1, d_code := h * 64 + m, d_lower := 128, d_upper := 191\<rparr>" l]
      h c d(2,3)
    unfolding hml(1-3) [symmetric] by simp
qed

lemma decode_four:
  assumes "65536 \<le> c" "c < 1114112"
  shows "decode_stream [240 + c div 262144, 128 + c div 4096 mod 64, 128 + c div 64 mod 64, 128 + c mod 64] (decoder_ready b) =
    (decoder_ready False, units c)"
proof -
  define h k m l where hkml: "h = c div 262144" "k = c div 4096 mod 64" "m = c div 64 mod 64" "l = c mod 64"
  have h: "h < 5" "k < 64" "m < 64" "l < 64"
    using assms by (simp_all add: hkml div_less_iff_less_mult)
  have c: "((h * 64 + k) * 64 + m) * 64 + l = c"
    unfolding hkml by (rule recombine4)
  then have sum: "h * 262144 + k * 4096 + m * 64 + l = c" by simp
  have lo: "16 \<le> k" if "h = 0" using sum that assms(1) h by linarith
  have hi: "k < 16" if "h = 4" using sum that assms(2) h by linarith
  define d where "d = (decoder_ready b)\<lparr>d_needed := 3, d_code := h, d_lower := (if h = 0 then 144 else 128),
       d_upper := (if h = 4 then 143 else 191)\<rparr>"
  have d: "d_needed d = Suc 2" "d_code d = h" "d_start d = b" "d_lower d \<le> 128 + k" "128 + k \<le> d_upper d"
    using lo hi h by (auto simp: d_def decoder_ready_def)
  let ?e = "d\<lparr>d_needed := 2, d_code := h * 64 + k, d_lower := 128, d_upper := 191\<rparr>"
  let ?f = "?e\<lparr>d_needed := 1, d_code := (h * 64 + k) * 64 + m, d_lower := 128, d_upper := 191\<rparr>"
  have "decode_byte (240 + h) (decoder_ready b) = (d, [])"
    using h by (simp add: d_def decode_byte_def decode_lead_def decoder_ready_def)
  moreover have "decode_byte (128 + k) d = (?e, [])"
    using decode_more [of d 1 k] d by simp
  moreover have "decode_byte (128 + m) ?e = (?f, [])"
    using decode_more [of ?e 0 m] h by simp
  ultimately show ?thesis
    using decode_last [of ?f l] h c assms(1)
    unfolding hkml(1-4) [symmetric] by simp
qed

lemma decode_code:
  assumes "scalar c"
  shows "decode_stream (encode_code c) (decoder_ready b) = (decoder_ready False, if b \<and> c = 65279 then [] else units c)"
  using assms decode_ascii [of c b] decode_two [of c b] decode_three [of c b] decode_four [of c b]
  by (auto simp: encode_code_def scalar_def not_less)

text \<open>Every unpaired surrogate replaced.\<close>

definition replace_char :: "jstring \<Rightarrow> jstring" where
  "replace_char c = (if unpaired c then [REPLACEMENT] else c)"

definition repaired :: "jstring \<Rightarrow> jstring" where
  "repaired s = concat (map replace_char (chars s))"

lemma scalar_char_code:
  assumes "c \<in> set (chars s)" "list_all (\<lambda>u. u < 65536) s"
  shows "scalar (char_code c) \<and> units (char_code c) = replace_char c"
proof -
  have "set c \<subseteq> set s"
    using assms(1) by (metis concat_chars set_concat UN_upper)
  then have "\<forall>u \<in> set c. u < 65536"
    using assms(2) by (auto simp: list_all_iff)
  moreover have "56320 + ((a - 55296) * 1024 + b - 56320) mod 1024 = b"
    if "56320 \<le> b" "b \<le> 57343" for a b :: nat
  proof -
    have "((a - 55296) * 1024 + b - 56320) mod 1024 = (b - 56320) mod 1024"
      using that(1) mod_mult_self3 [of "a - 55296" 1024 "b - 56320"] by simp
    with that show ?thesis by simp
  qed
  ultimately show ?thesis
    using chars_single [OF assms(1)]
    by (auto simp: scalar_def units_def replace_char_def unpaired_def surrogate_def hi_surrogate_def
        lo_surrogate_def REPLACEMENT_def)
qed

lemma decode_chars:
  assumes "list_all (\<lambda>c. scalar (char_code c) \<and> units (char_code c) = replace_char c) cs"
  shows "decode_stream (concat (map (\<lambda>c. encode_code (char_code c)) cs)) (decoder_ready False) =
    (decoder_ready False, concat (map replace_char cs))"
  using assms
proof (induction cs)
  case (Cons c cs)
  then show ?case
    using decode_code [of "char_code c" False] by (simp add: decode_stream_append)
qed simp

text \<open>Encoding and decoding a string gives it back with its unpaired surrogates replaced, when it
  does not start with a byte order mark.\<close>

lemma decode_encode:
  assumes "list_all (\<lambda>u. u < 65536) s" "s = [] \<or> hd s \<noteq> 65279"
  shows "utf8_decode (utf8_encode s) = repaired s"
proof (cases "chars s")
  case Nil
  then show ?thesis by (simp add: utf8_decode_def repaired_def decode_flush_def decoder_init_def)
next
  case (Cons c cs)
  have all: "list_all (\<lambda>c. scalar (char_code c) \<and> units (char_code c) = replace_char c) (chars s)"
    using scalar_char_code [OF _ assms(1)] by (simp add: list_all_iff)
  have "char_code c \<noteq> 65279"
  proof
    assume bom: "char_code c = 65279"
    then have "replace_char c = [65279]" using all Cons by (auto simp: units_def)
    then have "c = [65279]" by (auto simp: replace_char_def REPLACEMENT_def split: if_splits)
    then have "hd s = 65279" by (metis Cons concat_chars concat.simps(2) append_Cons list.sel(1))
    with assms(2) \<open>c = [65279]\<close> Cons show False by auto
  qed
  then have first: "decode_stream (encode_code (char_code c)) (decoder_ready True) = (decoder_ready False, replace_char c)"
    using decode_code [of "char_code c" True] all Cons by simp
  show ?thesis
    using all Cons first decode_chars [of cs]
    by (simp add: utf8_decode_def utf8_encode_def repaired_def decoder_init_ready decode_stream_append decode_flush_def)
      (simp add: decoder_ready_def)
qed

lemma repaired_well_formed: "well_formed s \<Longrightarrow> repaired s = s"
  by (simp add: repaired_def well_formed_def replace_char_def list_ex_iff cong: map_cong)

end
