(* ===== verification/Truncate.thy ===== *)
theory Truncate
  imports Js_Utf8
begin

text \<open>
  Truncation of tool output in the bundled agent (\<open>harness/utils/truncate.js\<close> of
  \<open>drivers/tools/pibridge/bridge.mjs\<close>): UTF-8 sizes of UTF-16 strings, line counting, and the
  two routines that keep the head or the tail of a text within a limit of lines and bytes.
  What their clients rely on is the interface \<open>truncator\<close>.
\<close>

definition DEFAULT_MAX_LINES :: nat where "DEFAULT_MAX_LINES = 2000"
definition DEFAULT_MAX_BYTES :: nat where "DEFAULT_MAX_BYTES = 50 * 1024"

subsection \<open>Sizes\<close>

text \<open>With \<open>Buffer\<close> at hand, the size is that of the encoding.\<close>

definition utf8ByteLength :: "jstring \<Rightarrow> nat" where
  "utf8ByteLength content = length (utf8_encode content)"

text \<open>Without it, the units are counted from the first one that is not ASCII.\<close>

fun utf8_count :: "jstring \<Rightarrow> nat \<Rightarrow> nat" where
  "utf8_count [] bytes = bytes"
| "utf8_count (c # s) bytes =
     (if c \<le> 127 then utf8_count s (bytes + 1)
      else if c \<le> 2047 then utf8_count s (bytes + 2)
      else if hi_surrogate c then
        (case s of
           n # s' \<Rightarrow> if lo_surrogate n then utf8_count s' (bytes + 4) else utf8_count s (bytes + 3)
         | [] \<Rightarrow> bytes + 3)
      else utf8_count s (bytes + 3))"

definition utf8ByteLength_fallback :: "jstring \<Rightarrow> nat" where
  "utf8ByteLength_fallback content =
     (let ascii = takeWhile (\<lambda>c. c \<le> 127) content in
      if ascii = content then length content
      else utf8_count (drop (length ascii) content) (length ascii))"

definition splitLinesForCounting :: "jstring \<Rightarrow> jstring list" where
  "splitLinesForCounting content =
     (if content = [] then []
      else
        (let lines = split_on newline_unit content in
         if last content = newline_unit then butlast lines else lines))"

fun replaceUnpairedSurrogates :: "jstring \<Rightarrow> jstring" where
  "replaceUnpairedSurrogates [] = []"
| "replaceUnpairedSurrogates [c] = [if hi_surrogate c \<or> lo_surrogate c then REPLACEMENT else c]"
| "replaceUnpairedSurrogates (c # n # s) =
     (if hi_surrogate c then
        (if lo_surrogate n then c # n # replaceUnpairedSurrogates s
         else REPLACEMENT # replaceUnpairedSurrogates (n # s))
      else if lo_surrogate c then REPLACEMENT # replaceUnpairedSurrogates (n # s)
      else c # replaceUnpairedSurrogates (n # s))"

subsection \<open>The two routines\<close>

record limits =
  maxLines :: nat
  maxBytes :: nat

datatype truncated_by = ByLines | ByBytes

record truncation =
  out_content :: jstring
  truncated :: bool
  truncatedBy :: "truncated_by option"
  totalLines :: nat
  totalBytes :: nat
  outputLines :: nat
  outputBytes :: nat
  lastLinePartial :: bool
  firstLineExceedsLimit :: bool
  trunc_limits :: limits

definition untruncated :: "limits \<Rightarrow> jstring \<Rightarrow> truncation" where
  "untruncated lm content =
     (let n = length (splitLinesForCounting content); b = utf8ByteLength content in
      \<lparr>out_content = content, truncated = False, truncatedBy = None, totalLines = n, totalBytes = b,
       outputLines = n, outputBytes = b, lastLinePartial = False, firstLineExceedsLimit = False, trunc_limits = lm\<rparr>)"

definition within_limits :: "limits \<Rightarrow> jstring \<Rightarrow> bool" where
  "within_limits lm content =
     (length (splitLinesForCounting content) \<le> maxLines lm \<and> utf8ByteLength content \<le> maxBytes lm)"

text \<open>The loop of \<open>truncateHead\<close>: the lines kept, their bytes, and what stopped it.\<close>

fun head_lines :: "limits \<Rightarrow> jstring list \<Rightarrow> jstring list \<Rightarrow> nat \<Rightarrow> jstring list \<times> nat \<times> truncated_by" where
  "head_lines lm [] out bytes = (out, bytes, ByLines)"
| "head_lines lm (line # lines) out bytes =
     (if length out \<ge> maxLines lm then (out, bytes, ByLines)
      else
        (let lineBytes = utf8ByteLength line + (if out \<noteq> [] then 1 else 0) in
         if bytes + lineBytes > maxBytes lm then (out, bytes, ByBytes)
         else head_lines lm lines (out @ [line]) (bytes + lineBytes)))"

definition truncateHead :: "limits \<Rightarrow> jstring \<Rightarrow> truncation" where
  "truncateHead lm content =
     (let total = utf8ByteLength content; lines = splitLinesForCounting content in
      if within_limits lm content then untruncated lm content
      else if utf8ByteLength (hd lines) > maxBytes lm then
        \<lparr>out_content = [], truncated = True, truncatedBy = Some ByBytes, totalLines = length lines,
         totalBytes = total, outputLines = 0, outputBytes = 0, lastLinePartial = False,
         firstLineExceedsLimit = True, trunc_limits = lm\<rparr>
      else
        (let (out, bytes, by_loop) = head_lines lm lines [] 0;
             stop = (if length out \<ge> maxLines lm \<and> bytes \<le> maxBytes lm then ByLines else by_loop);
             text = join_with [newline_unit] out in
         \<lparr>out_content = text, truncated = True, truncatedBy = Some stop, totalLines = length lines,
          totalBytes = total, outputLines = length out, outputBytes = utf8ByteLength text,
          lastLinePartial = False, firstLineExceedsLimit = False, trunc_limits = lm\<rparr>))"

text \<open>The loop of \<open>truncateStringToBytesFromEnd\<close> at index \<open>i\<close>: the start of what is kept and
  whether it has an unpaired surrogate.\<close>

definition char_before :: "jstring \<Rightarrow> nat \<Rightarrow> nat \<times> nat \<times> bool" where
  "char_before s i =
     (let c = s ! (i - 1) in
      if lo_surrogate c \<and> i - 1 > 0 then
        (if hi_surrogate (s ! (i - 2)) then (i - 2, 4, False) else (i - 1, 3, True))
      else if hi_surrogate c \<or> lo_surrogate c then (i - 1, 3, True)
      else (i - 1, if c \<le> 127 then 1 else if c \<le> 2047 then 2 else 3, False))"

function bytes_from_end :: "jstring \<Rightarrow> nat \<Rightarrow> nat \<Rightarrow> nat \<Rightarrow> nat \<Rightarrow> bool \<Rightarrow> nat \<times> bool" where
  "bytes_from_end s maxB i outB start needs =
     (if i = 0 then (start, needs)
      else
        (let (characterStart, characterBytes, unp) = char_before s i in
         if outB + characterBytes > maxB then (start, needs)
         else bytes_from_end s maxB characterStart (outB + characterBytes) characterStart (needs \<or> unp)))"
  by pat_completeness auto
termination
  by (relation "measure (\<lambda>(s, maxB, i, outB, start, needs). i)")
    (auto simp: char_before_def Let_def split: if_splits)

declare bytes_from_end.simps [simp del]

definition truncateStringToBytesFromEnd :: "jstring \<Rightarrow> nat \<Rightarrow> jstring" where
  "truncateStringToBytesFromEnd str maxB =
     (if maxB = 0 then []
      else
        (let (start, needs) = bytes_from_end str maxB (length str) 0 (length str) False;
             output = drop start str
         in if needs then replaceUnpairedSurrogates output else output))"

text \<open>The loop of \<open>truncateTail\<close> over the lines from the last one.\<close>

fun tail_lines ::
  "limits \<Rightarrow> jstring list \<Rightarrow> jstring list \<Rightarrow> nat \<Rightarrow> jstring list \<times> nat \<times> truncated_by \<times> bool" where
  "tail_lines lm [] out bytes = (out, bytes, ByLines, False)"
| "tail_lines lm (line # lines) out bytes =
     (if length out \<ge> maxLines lm then (out, bytes, ByLines, False)
      else
        (let lineBytes = utf8ByteLength line + (if out \<noteq> [] then 1 else 0) in
         if bytes + lineBytes > maxBytes lm then
           (if out = [] then
              (let part = truncateStringToBytesFromEnd line (maxBytes lm)
               in ([part], utf8ByteLength part, ByBytes, True))
            else (out, bytes, ByBytes, False))
         else tail_lines lm lines (line # out) (bytes + lineBytes)))"

definition truncateTail :: "limits \<Rightarrow> jstring \<Rightarrow> truncation" where
  "truncateTail lm content =
     (let total = utf8ByteLength content; lines = splitLinesForCounting content in
      if within_limits lm content then untruncated lm content
      else
        (let (out, bytes, by_loop, partial) = tail_lines lm (rev lines) [] 0;
             stop = (if length out \<ge> maxLines lm \<and> bytes \<le> maxBytes lm then ByLines else by_loop);
             text = join_with [newline_unit] out in
         \<lparr>out_content = text, truncated = True, truncatedBy = Some stop, totalLines = length lines,
          totalBytes = total, outputLines = length out, outputBytes = utf8ByteLength text,
          lastLinePartial = partial, firstLineExceedsLimit = False, trunc_limits = lm\<rparr>))"

text \<open>\<open>(bytes / unit).toFixed(1)\<close>: the nearest tenth, upwards when two are equally near.\<close>

definition fixed_tenths :: "nat \<Rightarrow> nat \<Rightarrow> jstring" where
  "fixed_tenths bytes unit_size =
     (let n = (20 * bytes + unit_size) div (2 * unit_size) in js_nat (n div 10) @ 46 # js_nat (n mod 10))"

definition formatSize :: "nat \<Rightarrow> jstring" where
  "formatSize bytes =
     (if bytes < 1024 then js_nat bytes @ js_text ''B''
      else if bytes < 1024 * 1024 then fixed_tenths bytes 1024 @ js_text ''KB''
      else fixed_tenths bytes (1024 * 1024) @ js_text ''MB'')"

subsection \<open>Sizes agree\<close>

lemma utf8_count_chars:
  "list_all (\<lambda>u. u < 65536) s \<Longrightarrow> utf8_count s b = b + sum_list (map char_bytes (chars s))"
proof (induction s b rule: utf8_count.induct)
  case (2 c s bytes)
  show ?case
  proof (cases "hi_surrogate c")
    case True
    then have big: "\<not> c \<le> 2047" "\<not> c \<le> 127" by (auto simp: hi_surrogate_def)
    show ?thesis
    proof (cases s)
      case Nil
      then show ?thesis using True big 2 by (simp add: hi_surrogate_def)
    next
      case (Cons n s')
      then show ?thesis using True big 2 by (auto simp: hi_surrogate_def)
    qed
  next
    case False
    then have "chars (c # s) = [c] # chars s" by (cases s) auto
    with False 2 show ?thesis by auto
  qed
qed simp

lemma ascii_bytes: "list_all (\<lambda>u. u \<le> 127) s \<Longrightarrow> sum_list (map char_bytes (chars s)) = length s"
proof (induction s rule: chars.induct)
  case (3 a b s)
  then have "\<not> hi_surrogate a" by (auto simp: hi_surrogate_def)
  with 3 show ?case by simp
qed auto

text \<open>Counting units gives the size of the encoding: the fallback agrees with \<open>Buffer\<close>.\<close>

lemma utf8ByteLength_fallback_ok:
  assumes "list_all (\<lambda>u. u < 65536) s"
  shows "utf8ByteLength_fallback s = utf8ByteLength s"
proof -
  let ?a = "takeWhile (\<lambda>c. c \<le> 127) s"
  have split: "s = ?a @ drop (length ?a) s"
    by (metis append_take_drop_id takeWhile_eq_take length_takeWhile_le take_all_iff)
  have a: "list_all (\<lambda>u. u \<le> 127) ?a"
    by (auto simp: list_all_iff dest: set_takeWhileD)
  have "\<not> joins ?a t" for t
  proof
    assume j: "joins ?a t"
    then have "last ?a \<in> set ?a" by (simp add: joins_def)
    with a have "last ?a \<le> 127" by (simp add: list_all_iff)
    with j show False by (simp add: joins_def hi_surrogate_def)
  qed
  then have "utf8ByteLength s = length ?a + utf8ByteLength (drop (length ?a) s)"
    using utf8_encode_append [of ?a "drop (length ?a) s"] split ascii_bytes [OF a]
    by (metis length_append length_utf8_encode utf8ByteLength_def)
  moreover have "list_all (\<lambda>u. u < 65536) (drop (length ?a) s)"
    using assms by (auto simp: list_all_iff dest: in_set_dropD)
  ultimately show ?thesis
    using utf8_count_chars [of "drop (length ?a) s" "length ?a"] ascii_bytes [OF a]
    by (cases "?a = s")
      (simp_all add: utf8ByteLength_fallback_def Let_def utf8ByteLength_def length_utf8_encode del: takeWhile_eq_all_conv)
qed

lemma replaceUnpaired_repaired: "replaceUnpairedSurrogates s = repaired s"
  by (induction s rule: replaceUnpairedSurrogates.induct)
    (auto simp: repaired_def replace_char_def unpaired_def surrogate_def)

subsection \<open>Bytes from the end\<close>

abbreviation units_ok :: "jstring \<Rightarrow> bool" where
  "units_ok s \<equiv> list_all (\<lambda>u. u < 65536) s"

text \<open>How many characters of a list fit in a number of bytes.\<close>

fun fit_count :: "jstring list \<Rightarrow> nat \<Rightarrow> nat" where
  "fit_count [] b = 0"
| "fit_count (c # cs) b = (if char_bytes c > b then 0 else Suc (fit_count cs (b - char_bytes c)))"

lemma fit_count_le: "fit_count cs b \<le> length cs"
  by (induction cs arbitrary: b) auto

lemma fit_count_bytes: "sum_list (map char_bytes (take (fit_count cs b) cs)) \<le> b"
proof (induction cs arbitrary: b)
  case (Cons c cs)
  from Cons [of "b - char_bytes c"] show ?case by (cases "char_bytes c > b") simp_all
qed simp

lemma char_before_last:
  assumes "chars s = cs @ c # ds" "units_ok s"
  shows "char_before s (length (concat cs) + length c) = (length (concat cs), char_bytes c, unpaired c)"
proof -
  have split: "chars s = (cs @ [c]) @ ds" using assms(1) by simp
  have sc: "s = concat cs @ c @ concat ds"
    by (metis assms(1) concat_append concat_chars concat.simps(2))
  have nj: "\<not> joins (concat cs) (c @ concat ds)"
    using chars_split [of s cs "c # ds"] assms(1) by simp
  have c: "(\<exists>a. c = [a]) \<or> (\<exists>a b. c = [a, b] \<and> hi_surrogate a \<and> lo_surrogate b)"
    using chars_single [of c s] assms(1) by simp
  show ?thesis
  proof (cases "\<exists>a. c = [a]")
    case True
    then obtain a where a: "c = [a]" by blast
    have at_a: "s ! length (concat cs) = a"
      unfolding sc a by (simp add: nth_append)
    have before: "\<not> hi_surrogate (s ! (length (concat cs) - 1))" if "lo_surrogate a" "concat cs \<noteq> []"
      using nj that a last_conv_nth [OF that(2)] unfolding sc by (auto simp: joins_def nth_append)
    have "a < 65536" using assms(2) unfolding sc a by simp
    with at_a before show ?thesis
      by (auto simp: a char_before_def Let_def unpaired_def surrogate_def lo_surrogate_def hi_surrogate_def)
  next
    case False
    with c obtain a b where ab: "c = [a, b]" "hi_surrogate a" "lo_surrogate b" by blast
    have "s ! Suc (length (concat cs)) = b" "s ! length (concat cs) = a"
      unfolding sc ab by (simp_all add: nth_append)
    with ab show ?thesis
      by (simp add: char_before_def Let_def unpaired_def)
  qed
qed

lemma bytes_from_end_chars:
  assumes "chars s = cs @ ds" "units_ok s" "outB \<le> maxB"
  shows "bytes_from_end s maxB (length (concat cs)) outB (length (concat cs)) needs =
    (let kept = take (fit_count (rev cs) (maxB - outB)) (rev cs)
     in (length (concat cs) - length (concat kept), needs \<or> list_ex unpaired kept))"
  using assms
proof (induction cs arbitrary: ds outB needs rule: rev_induct)
  case (snoc c cs)
  have split: "chars s = cs @ c # ds" using snoc.prems(1) by simp
  have before: "char_before s (length (concat cs) + length c) = (length (concat cs), char_bytes c, unpaired c)"
    by (rule char_before_last [OF split snoc.prems(2)])
  have "length c > 0" using chars_single [of c s] split by auto
  show ?case
  proof (cases "outB + char_bytes c > maxB")
    case True
    then have "maxB - outB < char_bytes c" using snoc.prems(3) by simp
    with True before \<open>length c > 0\<close> show ?thesis by (subst bytes_from_end.simps) simp
  next
    case False
    then have "bytes_from_end s maxB (length (concat (cs @ [c]))) outB (length (concat (cs @ [c]))) needs =
        bytes_from_end s maxB (length (concat cs)) (outB + char_bytes c) (length (concat cs)) (needs \<or> unpaired c)"
      using before \<open>length c > 0\<close> by (subst bytes_from_end.simps) simp
    moreover have "\<not> maxB - outB < char_bytes c" using False by simp
    ultimately show ?thesis
      using False snoc.IH [OF split snoc.prems(2), of "outB + char_bytes c" "needs \<or> unpaired c"]
      by (simp add: Let_def add.commute)
  qed
qed (simp add: bytes_from_end.simps)

lemma chars_repaired: "chars (repaired s) = map replace_char (chars s)"
proof (induction s rule: chars.induct)
  case (2 a)
  then show ?case by (simp add: repaired_def replace_char_def)
next
  case (3 a b s)
  have r: "\<not> surrogate REPLACEMENT" by (simp add: REPLACEMENT_def surrogate_def hi_surrogate_def lo_surrogate_def)
  show ?case
  proof (cases "hi_surrogate a \<and> lo_surrogate b")
    case True
    with 3 show ?thesis by (simp add: repaired_def replace_char_def unpaired_def)
  next
    case False
    let ?t = "repaired (b # s)"
    have "\<not> joins (replace_char [a]) ?t"
    proof
      assume j: "joins (replace_char [a]) ?t"
      then have "hi_surrogate a" "\<not> unpaired [a]"
        using r by (auto simp: joins_def replace_char_def surrogate_def split: if_splits)
      then show False by (simp add: unpaired_def surrogate_def)
    qed
    moreover have "repaired (a # b # s) = replace_char [a] @ ?t"
      using False by (auto simp: repaired_def)
    moreover have "chars (replace_char [a]) = [replace_char [a]]"
      by (simp add: replace_char_def)
    ultimately show ?thesis
      using 3(2) [OF False] False by (auto simp: chars_append)
  qed
qed (simp add: repaired_def)

lemma char_code_replaced [simp]: "char_code (replace_char c) = char_code c"
  by (cases c rule: char_code.cases)
    (auto simp: replace_char_def unpaired_def surrogate_def REPLACEMENT_def hi_surrogate_def lo_surrogate_def)

lemma encode_repaired [simp]: "utf8_encode (repaired s) = utf8_encode s"
  by (simp add: utf8_encode_def chars_repaired o_def)

lemma utf8ByteLength_chars: "chars (concat ds) = ds \<Longrightarrow> utf8ByteLength (concat ds) = sum_list (map char_bytes ds)"
  by (simp add: utf8ByteLength_def length_utf8_encode)

text \<open>What is kept is the longest run of characters at the end that fits, with its unpaired
  surrogates replaced.\<close>

lemma truncate_from_end_eq:
  assumes "units_ok s"
  shows "truncateStringToBytesFromEnd s maxB =
    repaired (concat (rev (take (fit_count (rev (chars s)) maxB) (rev (chars s)))))"
proof -
  let ?k = "fit_count (rev (chars s)) maxB"
  let ?n = "length (chars s) - ?k"
  let ?cs = "take ?n (chars s)" and ?ds = "drop ?n (chars s)"
  have kept: "take ?k (rev (chars s)) = rev ?ds"
    by (simp add: take_rev)
  have split: "chars s = ?cs @ ?ds" by simp
  note parts = chars_split [OF split]
  show ?thesis
  proof (cases "maxB = 0")
    case True
    have "fit_count ds 0 = 0" for ds
      by (cases ds) (simp_all add: char_bytes_def encode_code_def)
    with True show ?thesis by (simp add: truncateStringToBytesFromEnd_def repaired_def)
  next
    case False
    have "bytes_from_end s maxB (length s) 0 (length s) False =
        (length s - length (concat ?ds), list_ex unpaired ?ds)"
      using bytes_from_end_chars [of s "chars s" "[]" 0 maxB False] assms kept
      by (simp add: Let_def length_concat sum_list_rev rev_map [symmetric] list_ex_iff)
    moreover have "drop (length s - length (concat ?ds)) s = concat ?ds"
    proof -
      have "s = concat ?cs @ concat ?ds" by (metis concat_append split concat_chars)
      then show ?thesis by (metis append_eq_conv_conj add_diff_cancel_right' length_append)
    qed
    moreover have "\<not> list_ex unpaired ?ds \<Longrightarrow> repaired (concat ?ds) = concat ?ds"
      using parts by (intro repaired_well_formed) (simp add: well_formed_def)
    ultimately show ?thesis
      using False by (simp add: truncateStringToBytesFromEnd_def replaceUnpaired_repaired Let_def kept)
  qed
qed

lemma truncate_from_end:
  assumes "units_ok s"
  obtains cs ds where "chars s = cs @ ds" "truncateStringToBytesFromEnd s maxB = repaired (concat ds)"
    "utf8ByteLength (concat ds) \<le> maxB"
proof -
  let ?k = "fit_count (rev (chars s)) maxB"
  let ?cs = "take (length (chars s) - ?k) (chars s)" and ?ds = "drop (length (chars s) - ?k) (chars s)"
  have kept: "rev (take ?k (rev (chars s))) = ?ds"
    by (simp add: take_rev)
  have split: "chars s = ?cs @ ?ds" by simp
  have "utf8ByteLength (concat ?ds) = sum_list (map char_bytes (take ?k (rev (chars s))))"
    using utf8ByteLength_chars [of ?ds] chars_split [OF split] unfolding kept [symmetric] by (simp flip: rev_map)
  then have "utf8ByteLength (concat ?ds) \<le> maxB"
    using fit_count_bytes by metis
  with truncate_from_end_eq [OF assms, of maxB] show thesis
    unfolding kept using that [OF split] by simp
qed

subsection \<open>Lines\<close>

lemma newline_no_join [simp]:
  "\<not> joins s (newline_unit # t)" "\<not> joins (s @ [newline_unit]) t" "\<not> joins [newline_unit] t"
  by (simp_all add: joins_def newline_unit_def lo_surrogate_def hi_surrogate_def)

lemma bytes_newline [simp]: "utf8ByteLength (a @ newline_unit # b) = utf8ByteLength a + 1 + utf8ByteLength b"
proof -
  have "utf8_encode (newline_unit # b) = utf8_encode [newline_unit] @ utf8_encode b"
    using utf8_encode_append [of "[newline_unit]" b] by simp
  moreover have "length (utf8_encode [newline_unit]) = 1"
    by (simp add: length_utf8_encode newline_unit_def)
  ultimately show ?thesis
    by (simp add: utf8ByteLength_def utf8_encode_append)
qed

lemma bytes_Nil [simp]: "utf8ByteLength [] = 0"
  by (simp add: utf8ByteLength_def)

lemma bytes_join:
  "ls \<noteq> [] \<Longrightarrow> utf8ByteLength (join_with [newline_unit] ls) = sum_list (map utf8ByteLength ls) + (length ls - 1)"
proof (induction ls)
  case (Cons l ls)
  show ?case
  proof (cases ls)
    case Nil
    then show ?thesis by simp
  next
    case (Cons m ms)
    with Cons.IH show ?thesis by simp
  qed
qed simp

lemma join_append:
  "as \<noteq> [] \<Longrightarrow> bs \<noteq> [] \<Longrightarrow> join_with sep (as @ bs) = join_with sep as @ sep @ join_with sep bs"
proof (induction as)
  case (Cons a as)
  then show ?case by (cases as) (simp_all add: join_with_Cons)
qed simp

text \<open>The text without a final line break is its lines joined.\<close>

definition body :: "jstring \<Rightarrow> jstring" where
  "body s = (if s \<noteq> [] \<and> last s = newline_unit then butlast s else s)"

lemma split_lines_join: "s \<noteq> [] \<Longrightarrow> join_with [newline_unit] (splitLinesForCounting s) = body s"
proof -
  assume s: "s \<noteq> []"
  show ?thesis
  proof (cases "last s = newline_unit")
    case True
    then obtain t where t: "s = t @ [newline_unit]"
      by (metis append_butlast_last_id s)
    have "split_on newline_unit s = split_on newline_unit t @ [[]]"
      unfolding t using split_on_append [of newline_unit t "[]"] by simp
    then show ?thesis
      using s t by (simp add: splitLinesForCounting_def body_def)
  next
    case False
    then show ?thesis using s by (simp add: splitLinesForCounting_def body_def Let_def)
  qed
qed

lemma split_lines_snoc: "splitLinesForCounting (t @ [newline_unit]) = split_on newline_unit t"
  using split_on_append [of newline_unit t "[]"] by (simp add: splitLinesForCounting_def)

lemma split_lines_nonempty: "s \<noteq> [] \<Longrightarrow> splitLinesForCounting s \<noteq> []"
proof (cases "last s = newline_unit")
  case True
  moreover assume "s \<noteq> []"
  ultimately obtain t where "s = t @ [newline_unit]" by (metis append_butlast_last_id)
  then show ?thesis by (simp add: split_lines_snoc)
qed (simp add: splitLinesForCounting_def)

lemma prefix_body: "prefix (body s) s"
  by (auto simp: body_def prefix_def intro: append_butlast_last_id [symmetric])

lemma head_lines_spec:
  assumes "head_lines lm ls out bytes = (out', bytes', stop)" "length out \<le> maxLines lm" "bytes \<le> maxBytes lm"
    and "bytes = sum_list (map utf8ByteLength out) + (length out - 1)"
  shows "prefix out' (out @ ls) \<and> length out' \<le> maxLines lm \<and> bytes' \<le> maxBytes lm \<and>
    bytes' = sum_list (map utf8ByteLength out') + (length out' - 1) \<and>
    (out' \<noteq> out @ ls \<longrightarrow> length out' = maxLines lm \<or>
       bytes' + utf8ByteLength ((out @ ls) ! length out') + (if out' \<noteq> [] then 1 else 0) > maxBytes lm)"
  using assms
proof (induction ls arbitrary: out bytes)
  case (Cons l ls)
  let ?b = "utf8ByteLength l + (if out \<noteq> [] then 1 else 0)"
  show ?case
  proof (cases "length out \<ge> maxLines lm \<or> bytes + ?b > maxBytes lm")
    case True
    then have "out' = out" "bytes' = bytes"
      using Cons.prems(1) by (auto simp: Let_def split: if_splits)
    with True Cons.prems show ?thesis by auto
  next
    case False
    then have step: "head_lines lm ls (out @ [l]) (bytes + ?b) = (out', bytes', stop)"
      using Cons.prems(1) by (auto simp: Let_def split: if_splits)
    have "bytes + ?b = sum_list (map utf8ByteLength (out @ [l])) + (length (out @ [l]) - 1)"
      using Cons.prems(4) by (cases out) auto
    from Cons.IH [OF step _ _ this] False show ?thesis by auto
  qed
qed auto

lemma join_prefix:
  "prefix out ls \<Longrightarrow> prefix (join_with [c] out) (join_with [c] ls)"
proof -
  assume "prefix out ls"
  then obtain rest where ls: "ls = out @ rest" by (rule prefixE)
  show ?thesis
    unfolding ls by (cases "out = []"; cases "rest = []") (simp_all add: join_append)
qed

lemma truncateHead_spec:
  assumes "r = truncateHead lm s"
  shows "outputBytes r = utf8ByteLength (out_content r) \<and> prefix (out_content r) s \<and>
    outputLines r \<le> maxLines lm \<and> outputBytes r \<le> maxBytes lm \<and>
    (if within_limits lm s then out_content r = s
     else out_content r = join_with [newline_unit] (take (outputLines r) (splitLinesForCounting s)) \<and>
       (outputLines r = maxLines lm \<or> outputLines r = length (splitLinesForCounting s) \<or>
        maxBytes lm < outputBytes r + utf8ByteLength (splitLinesForCounting s ! outputLines r) +
          (if outputLines r = 0 then 0 else 1)))"
proof (cases "within_limits lm s")
  case True
  then show ?thesis by (simp add: assms truncateHead_def untruncated_def within_limits_def Let_def)
next
  case False
  then have s: "s \<noteq> []" by (auto simp: within_limits_def splitLinesForCounting_def)
  let ?ls = "splitLinesForCounting s"
  show ?thesis
  proof (cases "utf8ByteLength (hd ?ls) > maxBytes lm")
    case True
    then show ?thesis
      using False split_lines_nonempty [OF s] by (simp add: assms truncateHead_def Let_def hd_conv_nth)
  next
    case le: False
    obtain out bytes stop where loop: "head_lines lm ?ls [] 0 = (out, bytes, stop)"
      by (cases "head_lines lm ?ls [] 0")
    from head_lines_spec [OF loop] have spec: "prefix out ?ls" "length out \<le> maxLines lm" "bytes \<le> maxBytes lm"
        "bytes = sum_list (map utf8ByteLength out) + (length out - 1)"
        "out = ?ls \<or> length out = maxLines lm \<or>
          bytes + utf8ByteLength (?ls ! length out) + (if out \<noteq> [] then 1 else 0) > maxBytes lm"
      by auto
    have bytes: "utf8ByteLength (join_with [newline_unit] out) = bytes"
      using spec(4) bytes_join [of out] by (cases "out = []") simp_all
    have r: "out_content r = join_with [newline_unit] out" "outputLines r = length out" "outputBytes r = bytes"
      using False le loop bytes by (simp_all add: assms truncateHead_def Let_def)
    have "prefix (join_with [newline_unit] out) s"
      using join_prefix [OF spec(1), of newline_unit] split_lines_join [OF s] prefix_body [of s]
      by (metis prefix_order.trans)
    moreover have "out = take (length out) ?ls"
      using spec(1) by (metis prefix_def append_eq_conv_conj)
    ultimately show ?thesis
      using False spec r bytes by auto
  qed
qed

subsection \<open>The tail\<close>

lemma tail_part_fits: "units_ok l \<Longrightarrow> utf8ByteLength (truncateStringToBytesFromEnd l n) \<le> n"
  by (rule truncate_from_end [of l n]) (simp_all add: utf8ByteLength_def)

lemma tail_part_suffix:
  assumes "units_ok l"
  obtains t where "suffix t l" "truncateStringToBytesFromEnd l n = replaceUnpairedSurrogates t"
proof -
  obtain cs ds where "chars l = cs @ ds" "truncateStringToBytesFromEnd l n = repaired (concat ds)"
    using truncate_from_end [OF assms, of n] by metis
  moreover have "suffix (concat ds) l"
    by (metis calculation(1) concat_append concat_chars suffixI)
  ultimately show thesis using that by (simp add: replaceUnpaired_repaired)
qed

lemma tail_lines_spec:
  assumes "tail_lines lm ls out bytes = (out', bytes', stop, part)" "length out \<le> maxLines lm" "bytes \<le> maxBytes lm"
    and "bytes = sum_list (map utf8ByteLength out) + (length out - 1)" "list_all units_ok ls"
  shows "length out' \<le> maxLines lm \<and> bytes' \<le> maxBytes lm \<and>
    bytes' = sum_list (map utf8ByteLength out') + (length out' - 1) \<and>
    (if part then out = [] \<and> ls \<noteq> [] \<and> maxBytes lm < utf8ByteLength (hd ls) \<and>
       out' = [truncateStringToBytesFromEnd (hd ls) (maxBytes lm)]
     else (\<exists>rest. rev ls @ out = rest @ out' \<and>
       (rest = [] \<or> length out' = maxLines lm \<or> bytes' + utf8ByteLength (last rest) + 1 > maxBytes lm)))"
  using assms
proof (induction ls arbitrary: out bytes)
  case (Cons l ls)
  let ?b = "utf8ByteLength l + (if out \<noteq> [] then 1 else 0)"
  consider "length out \<ge> maxLines lm" | "length out < maxLines lm" "bytes + ?b > maxBytes lm" "out = []"
    | "length out < maxLines lm" "bytes + ?b > maxBytes lm" "out \<noteq> []"
    | "length out < maxLines lm" "bytes + ?b \<le> maxBytes lm" by linarith
  then show ?case
  proof cases
    case 1
    then have "out' = out" "bytes' = bytes" "\<not> part" using Cons.prems(1) by simp_all
    with 1 Cons.prems show ?thesis by (auto intro!: exI [of _ "rev ls @ [l]"])
  next
    case 2
    then have "out' = [truncateStringToBytesFromEnd l (maxBytes lm)]" "part"
        "bytes' = utf8ByteLength (truncateStringToBytesFromEnd l (maxBytes lm))"
      using Cons.prems(1) by (simp_all add: Let_def)
    with 2 Cons.prems tail_part_fits [of l "maxBytes lm"] show ?thesis by simp
  next
    case 3
    then have "out' = out" "bytes' = bytes" "\<not> part" using Cons.prems(1) by (simp_all add: Let_def)
    with 3 Cons.prems show ?thesis by (auto intro!: exI [of _ "rev ls @ [l]"])
  next
    case 4
    then have step: "tail_lines lm ls (l # out) (bytes + ?b) = (out', bytes', stop, part)"
      using Cons.prems(1) by (simp add: Let_def)
    have "bytes + ?b = sum_list (map utf8ByteLength (l # out)) + (length (l # out) - 1)"
      using Cons.prems(4) by (cases out) auto
    from Cons.IH [OF step _ _ this] 4 Cons.prems(5) show ?thesis
      by (cases part) auto
  qed
qed auto

lemma join_suffix:
  "ls = rest @ out \<Longrightarrow> suffix (join_with [c] out) (join_with [c] ls)"
  by (cases "out = []"; cases "rest = []") (simp_all add: join_append suffix_def)

lemma split_lines_set: "l \<in> set (splitLinesForCounting s) \<Longrightarrow> set l \<subseteq> set s"
proof -
  have "l \<in> set (split_on c t) \<Longrightarrow> set l \<subseteq> set t" for c t
  proof (induction t arbitrary: l)
    case (Cons x xs)
    then show ?case by (cases "split_on c xs") (fastforce split: if_splits)+
  qed simp
  then show "l \<in> set (splitLinesForCounting s) \<Longrightarrow> set l \<subseteq> set s"
    by (auto simp: splitLinesForCounting_def Let_def split: if_splits dest!: in_set_butlastD)
qed

lemma lines_units_ok: "units_ok s \<Longrightarrow> list_all units_ok (splitLinesForCounting s)"
  using split_lines_set by (fastforce simp: list_all_iff)

lemma truncateTail_spec:
  assumes "units_ok s" "r = truncateTail lm s"
  shows "outputBytes r = utf8ByteLength (out_content r) \<and> outputLines r \<le> maxLines lm \<and> outputBytes r \<le> maxBytes lm \<and>
    (if within_limits lm s then out_content r = s
     else if lastLinePartial r then
       maxBytes lm < utf8ByteLength (last (splitLinesForCounting s)) \<and>
       out_content r = truncateStringToBytesFromEnd (last (splitLinesForCounting s)) (maxBytes lm)
     else (\<exists>rest out. splitLinesForCounting s = rest @ out \<and> out_content r = join_with [newline_unit] out \<and>
        outputLines r = length out \<and>
        (rest = [] \<or> length out = maxLines lm \<or> outputBytes r + utf8ByteLength (last rest) + 1 > maxBytes lm)))"
proof (cases "within_limits lm s")
  case True
  then show ?thesis by (simp add: assms truncateTail_def untruncated_def within_limits_def Let_def)
next
  case False
  then have s: "s \<noteq> []" by (auto simp: within_limits_def splitLinesForCounting_def)
  let ?ls = "splitLinesForCounting s"
  obtain out bytes stop part where loop: "tail_lines lm (rev ?ls) [] 0 = (out, bytes, stop, part)"
    by (cases "tail_lines lm (rev ?ls) [] 0")
  have ok: "list_all units_ok (rev ?ls)" using lines_units_ok [OF assms(1)] by simp
  note spec = tail_lines_spec [OF loop _ _ _ ok, simplified]
  have bytes: "utf8ByteLength (join_with [newline_unit] out) = bytes"
    using spec bytes_join [of out] by (cases "out = []") simp_all
  have r: "out_content r = join_with [newline_unit] out" "outputLines r = length out" "outputBytes r = bytes"
      "lastLinePartial r = part"
    using False loop bytes by (simp_all add: assms(2) truncateTail_def Let_def)
  show ?thesis
  proof (cases part)
    case True
    then have "out = [truncateStringToBytesFromEnd (last ?ls) (maxBytes lm)]" "maxBytes lm < utf8ByteLength (last ?ls)"
      using spec by (simp_all add: hd_rev)
    with True False r bytes spec show ?thesis by (simp add: hd_rev)
  next
    case nopart: False
    then obtain rest where "?ls = rest @ out"
        "rest = [] \<or> length out = maxLines lm \<or> bytes + utf8ByteLength (last rest) + 1 > maxBytes lm"
      using spec by auto
    with nopart False r bytes spec show ?thesis by auto
  qed
qed

subsection \<open>The interface\<close>

lemma split_lines_no_newline: "l \<in> set (splitLinesForCounting s) \<Longrightarrow> newline_unit \<notin> set l"
  using split_on_parts [of l newline_unit s]
  by (auto simp: splitLinesForCounting_def Let_def split: if_splits dest: in_set_butlastD)

lemma lines_of_join:
  assumes "\<And>l. l \<in> set ls \<Longrightarrow> newline_unit \<notin> set l"
  shows "length (splitLinesForCounting (join_with [newline_unit] ls)) \<le> length ls"
proof (cases "ls = []")
  case False
  then have "split_on newline_unit (join_with [newline_unit] ls) = ls"
    using split_on_join assms by metis
  then show ?thesis by (simp add: splitLinesForCounting_def Let_def)
qed (simp add: splitLinesForCounting_def)

lemma tail_part_no_newline:
  assumes "units_ok l" "newline_unit \<notin> set l"
  shows "newline_unit \<notin> set (truncateStringToBytesFromEnd l n)"
proof -
  obtain t where t: "suffix t l" "truncateStringToBytesFromEnd l n = replaceUnpairedSurrogates t"
    using tail_part_suffix [OF assms(1)] by metis
  have "set (replaceUnpairedSurrogates u) \<subseteq> insert REPLACEMENT (set u)" for u
    by (induction u rule: replaceUnpairedSurrogates.induct) auto
  moreover have "newline_unit \<noteq> REPLACEMENT" by (simp add: newline_unit_def REPLACEMENT_def)
  ultimately show ?thesis
    using assms(2) set_mono_suffix [OF t(1)] by (fastforce simp: t(2))
qed

lemma tail_part_lines:
  "\<not> within_limits lm s \<Longrightarrow> lastLinePartial (truncateTail lm s) \<Longrightarrow> maxLines lm > 0"
  by (cases "rev (splitLinesForCounting s)") (auto simp: truncateTail_def Let_def split: if_splits prod.splits)

text \<open>What the clients of a truncation rely on.\<close>

locale truncator =
  fixes trunc :: "limits \<Rightarrow> jstring \<Rightarrow> truncation"
  assumes whole: "within_limits lm s \<Longrightarrow> trunc lm s = untruncated lm s"
    and fits: "units_ok s \<Longrightarrow> within_limits lm (out_content (trunc lm s))"
    and marked: "truncated (trunc lm s) = (\<not> within_limits lm s)"
    and counted: "totalBytes (trunc lm s) = utf8ByteLength s" "totalLines (trunc lm s) = length (splitLinesForCounting s)"
begin

lemma content_untouched: "\<not> truncated (trunc lm s) \<Longrightarrow> out_content (trunc lm s) = s"
  using marked whole by (simp add: untruncated_def Let_def)

lemma idempotent: "units_ok s \<Longrightarrow> out_content (trunc lm (out_content (trunc lm s))) = out_content (trunc lm s)"
  using fits whole by (simp add: untruncated_def Let_def)

lemma bounded: "units_ok s \<Longrightarrow> utf8ByteLength (out_content (trunc lm s)) \<le> maxBytes lm"
  using fits by (simp add: within_limits_def)

end

interpretation head_trunc: truncator truncateHead
proof
  fix lm s
  show "within_limits lm s \<Longrightarrow> truncateHead lm s = untruncated lm s"
      "truncated (truncateHead lm s) = (\<not> within_limits lm s)"
      "totalBytes (truncateHead lm s) = utf8ByteLength s"
      "totalLines (truncateHead lm s) = length (splitLinesForCounting s)"
    by (auto simp: truncateHead_def untruncated_def Let_def split: prod.split)
  show "within_limits lm (out_content (truncateHead lm s))"
  proof (cases "within_limits lm s")
    case True
    then show ?thesis by (simp add: truncateHead_def untruncated_def Let_def)
  next
    case False
    note h = truncateHead_spec [OF refl, of lm s]
    let ?out = "take (outputLines (truncateHead lm s)) (splitLinesForCounting s)"
    have "length (splitLinesForCounting (join_with [newline_unit] ?out)) \<le> length ?out"
      by (intro lines_of_join split_lines_no_newline [of _ s]) (auto dest: in_set_takeD)
    with h False show ?thesis by (auto simp: within_limits_def)
  qed
qed

interpretation tail_trunc: truncator truncateTail
proof
  fix lm s
  show "within_limits lm s \<Longrightarrow> truncateTail lm s = untruncated lm s"
      "truncated (truncateTail lm s) = (\<not> within_limits lm s)"
      "totalBytes (truncateTail lm s) = utf8ByteLength s"
      "totalLines (truncateTail lm s) = length (splitLinesForCounting s)"
    by (auto simp: truncateTail_def untruncated_def Let_def split: prod.split)
  assume ok: "units_ok s"
  show "within_limits lm (out_content (truncateTail lm s))"
  proof (cases "within_limits lm s")
    case True
    then show ?thesis by (simp add: truncateTail_def untruncated_def Let_def)
  next
    case False
    note t = truncateTail_spec [OF ok refl, of lm]
    show ?thesis
    proof (cases "lastLinePartial (truncateTail lm s)")
      case True
      let ?l = "last (splitLinesForCounting s)"
      have "?l \<in> set (splitLinesForCounting s)"
        using False split_lines_nonempty [of s] by (cases "s = []") (simp_all add: within_limits_def splitLinesForCounting_def [of "[]"])
      then have "newline_unit \<notin> set (truncateStringToBytesFromEnd ?l (maxBytes lm))"
        using tail_part_no_newline lines_units_ok [OF ok] split_lines_no_newline by (auto simp: list_all_iff)
      then have "length (splitLinesForCounting (truncateStringToBytesFromEnd ?l (maxBytes lm))) \<le> 1"
        using lines_of_join [of "[truncateStringToBytesFromEnd ?l (maxBytes lm)]"] by simp
      with t True False tail_part_lines [OF False True] show ?thesis by (auto simp: within_limits_def)
    next
      case part: False
      with t False obtain rest out where o: "splitLinesForCounting s = rest @ out"
          "out_content (truncateTail lm s) = join_with [newline_unit] out" "outputLines (truncateTail lm s) = length out"
        by auto
      have "length (splitLinesForCounting (join_with [newline_unit] out)) \<le> length out"
        by (intro lines_of_join split_lines_no_newline [of _ s]) (simp add: o(1))
      with t o show ?thesis by (auto simp: within_limits_def)
    qed
  qed
qed

text \<open>\<open>truncateHead\<close> keeps the longest run of first lines that fits: the result is a prefix of
  the text within both limits, it is the text itself when that fits, and otherwise one more
  line would exceed a limit.\<close>

theorem truncateHead_longest:
  assumes "units_ok s" "r = truncateHead lm s"
  shows "prefix (out_content r) s \<and> within_limits lm (out_content r) \<and> outputBytes r = utf8ByteLength (out_content r) \<and>
    (if within_limits lm s then out_content r = s
     else out_content r = join_with [newline_unit] (take (outputLines r) (splitLinesForCounting s)) \<and>
       (outputLines r = maxLines lm \<or> outputLines r = length (splitLinesForCounting s) \<or>
        maxBytes lm < outputBytes r + utf8ByteLength (splitLinesForCounting s ! outputLines r) +
          (if outputLines r = 0 then 0 else 1)))"
proof -
  have "within_limits lm (out_content r)" unfolding assms(2) by (rule head_trunc.fits [OF assms(1)])
  with truncateHead_spec [OF assms(2)] show ?thesis by blast
qed

lemma rest_suffix:
  assumes "splitLinesForCounting s = rest @ out" "s \<noteq> []"
  shows "suffix (join_with [newline_unit] out) (body s)"
  using join_suffix [OF assms(1), of newline_unit] split_lines_join [OF assms(2)] by simp

text \<open>\<open>truncateTail\<close> keeps the longest run of last lines that fits, or, when the last line
  alone is too long, an end of it made of whole characters: the result is within
  both limits and is the end of the text up to its final line break, with any unpaired
  surrogate of a cut line replaced.\<close>

theorem truncateTail_longest:
  assumes "units_ok s" "r = truncateTail lm s"
  shows "within_limits lm (out_content r) \<and> outputBytes r = utf8ByteLength (out_content r) \<and>
    (if within_limits lm s then out_content r = s
     else if lastLinePartial r then (\<exists>t. suffix t (body s) \<and> out_content r = replaceUnpairedSurrogates t)
     else suffix (out_content r) (body s) \<and>
       (\<exists>rest. splitLinesForCounting s = rest @ drop (length rest) (splitLinesForCounting s) \<and>
          out_content r = join_with [newline_unit] (drop (length rest) (splitLinesForCounting s)) \<and>
          (rest = [] \<or> outputLines r = maxLines lm \<or> maxBytes lm < outputBytes r + utf8ByteLength (last rest) + 1)))"
proof -
  have fits: "within_limits lm (out_content r)"
    using tail_trunc.fits [OF assms(1)] by (simp add: assms(2))
  note spec = truncateTail_spec [OF assms]
  show ?thesis
  proof (cases "within_limits lm s")
    case True
    with spec fits show ?thesis by simp
  next
    case False
    then have s: "s \<noteq> []" by (auto simp: within_limits_def splitLinesForCounting_def)
    let ?ls = "splitLinesForCounting s"
    show ?thesis
    proof (cases "lastLinePartial r")
      case True
      have "last ?ls \<in> set ?ls" using split_lines_nonempty [OF s] by simp
      then have "units_ok (last ?ls)" using lines_units_ok [OF assms(1)] by (simp add: list_all_iff)
      then obtain t where t: "suffix t (last ?ls)" "out_content r = replaceUnpairedSurrogates t"
        using tail_part_suffix [of "last ?ls" "maxBytes lm"] spec True False by metis
      have "suffix (last ?ls) (body s)"
        using rest_suffix [of s "butlast ?ls" "[last ?ls]"] split_lines_nonempty [OF s] s by simp
      then have "suffix t (body s)" using t(1) by (metis suffix_order.trans)
      with True False fits spec t(2) show ?thesis by auto
    next
      case part: False
      with spec False obtain rest out where o: "?ls = rest @ out" "out_content r = join_with [newline_unit] out"
          "outputLines r = length out"
          "rest = [] \<or> length out = maxLines lm \<or> outputBytes r + utf8ByteLength (last rest) + 1 > maxBytes lm"
        by auto
      have "suffix (out_content r) (body s)" using rest_suffix [OF o(1) s] by (simp add: o(2))
      moreover have "drop (length rest) ?ls = out" by (simp add: o(1))
      ultimately show ?thesis
        using part False fits spec o by (auto intro!: exI [of _ rest])
    qed
  qed
qed

lemmas truncate_eval =
  within_limits_def untruncated_def splitLinesForCounting_def newline_unit_def utf8ByteLength_def utf8_encode_def
  encode_code_def surrogate_def hi_surrogate_def lo_surrogate_def Let_def

theorem truncateHead_longest_witness:
  "out_content (truncateHead \<lparr>maxLines = 1, maxBytes = 10\<rparr> [97, 10, 98]) = [97] \<and>
   within_limits \<lparr>maxLines = 1, maxBytes = 10\<rparr> [97]"
proof -
  have "out_content (truncateHead \<lparr>maxLines = 1, maxBytes = 10\<rparr> [97, 10, 98]) = [97]"
    by (simp add: truncateHead_def truncate_eval)
  moreover have "units_ok [97, 10, 98]" by simp
  ultimately show ?thesis
    using truncateHead_longest [OF _ refl, of "[97, 10, 98]" "\<lparr>maxLines = 1, maxBytes = 10\<rparr>"] by simp
qed

theorem truncateTail_longest_witness:
  "out_content (truncateTail \<lparr>maxLines = 1, maxBytes = 10\<rparr> [97, 10, 98]) = [98] \<and>
   within_limits \<lparr>maxLines = 1, maxBytes = 10\<rparr> [98]"
proof -
  have "out_content (truncateTail \<lparr>maxLines = 1, maxBytes = 10\<rparr> [97, 10, 98]) = [98]"
    by (simp add: truncateTail_def truncate_eval)
  moreover have "units_ok [97, 10, 98]" by simp
  ultimately show ?thesis
    using truncateTail_longest [OF _ refl, of "[97, 10, 98]" "\<lparr>maxLines = 1, maxBytes = 10\<rparr>"] by simp
qed

end
