(* ===== verification/Output_Capture.thy ===== *)
theory Output_Capture
  imports Truncate
begin

text \<open>
  Output of running commands in the bundled agent (\<open>harness/utils/adaptive-publisher.js\<close> and
  \<open>harness/utils/output-capture.js\<close> of \<open>drivers/tools/pibridge/bridge.mjs\<close>): a publisher that
  limits the rate of updates, a capture that decodes chunks, counts and keeps a bounded buffer,
  and the updates that carry its snapshots to the caller. Time is an argument of every step.
\<close>

subsection \<open>The publisher\<close>

record 'v publisher =
  published :: "'v option"
  dirty :: bool
  nextEmitAt :: rat
  timer :: bool
  pub_disposed :: bool

record ('v, 'u) pub_options =
  pub_update :: "'v option \<Rightarrow> 'v \<Rightarrow> 'u option"
  pub_measure :: "'u \<Rightarrow> nat"
  minIntervalMs :: rat
  targetBytesPerSecond :: rat

definition publisher_init :: "'v publisher" where
  "publisher_init = \<lparr>published = None, dirty = False, nextEmitAt = 0, timer = False, pub_disposed = False\<rparr>"

text \<open>\<open>flush\<close> at time \<open>now\<close> with the current snapshot \<open>cur\<close>: the new state and what is published.\<close>

definition pub_flush ::
  "('v, 'u) pub_options \<Rightarrow> bool \<Rightarrow> rat \<Rightarrow> 'v \<Rightarrow> 'v publisher \<Rightarrow> 'v publisher \<times> 'u list" where
  "pub_flush opt force now cur p =
     (if pub_disposed p \<or> \<not> dirty p then (p, [])
      else if \<not> force \<and> now < nextEmitAt p then (p\<lparr>timer := True\<rparr>, [])
      else
        (let p1 = p\<lparr>timer := False, published := Some cur, dirty := False\<rparr> in
         case pub_update opt (published p) cur of
           None \<Rightarrow> (p1, [])
         | Some u \<Rightarrow>
             (p1\<lparr>nextEmitAt := now + max (minIntervalMs opt)
                (of_nat (pub_measure opt u) * 1000 / targetBytesPerSecond opt)\<rparr>, [u])))"

definition markDirty ::
  "('v, 'u) pub_options \<Rightarrow> rat \<Rightarrow> 'v \<Rightarrow> 'v publisher \<Rightarrow> 'v publisher \<times> 'u list" where
  "markDirty opt now cur p =
     (if pub_disposed p then (p, [])
      else
        (let p1 = p\<lparr>dirty := True\<rparr> in
         if nextEmitAt p1 - now \<le> 0 then pub_flush opt False now cur p1
         else (p1\<lparr>timer := True\<rparr>, [])))"

text \<open>The timer fires.\<close>

definition pub_timer ::
  "('v, 'u) pub_options \<Rightarrow> rat \<Rightarrow> 'v \<Rightarrow> 'v publisher \<Rightarrow> 'v publisher \<times> 'u list" where
  "pub_timer opt now cur p =
     (if timer p then pub_flush opt False now cur (p\<lparr>timer := False\<rparr>) else (p, []))"

definition pub_dispose :: "'v publisher \<Rightarrow> 'v publisher" where
  "pub_dispose p = p\<lparr>timer := False, pub_disposed := True\<rparr>"

text \<open>A change that is not yet published always has a timer to publish it.\<close>

definition pub_inv :: "'v publisher \<Rightarrow> bool" where
  "pub_inv p \<longleftrightarrow> (dirty p \<and> \<not> pub_disposed p \<longrightarrow> timer p)"

lemma pub_init_inv: "pub_inv publisher_init"
  by (simp add: publisher_init_def pub_inv_def)

lemma pub_flush_inv: "\<not> pub_disposed p \<Longrightarrow> pub_inv (fst (pub_flush opt force now cur p))"
  by (simp add: pub_inv_def pub_flush_def Let_def split: option.split)

lemma markDirty_inv: "pub_inv p \<Longrightarrow> pub_inv (fst (markDirty opt now cur p))"
  using pub_flush_inv [of "p\<lparr>dirty := True\<rparr>" opt False now cur]
  by (simp add: markDirty_def Let_def) (simp add: pub_inv_def)

lemma pub_timer_inv: "pub_inv p \<Longrightarrow> pub_inv (fst (pub_timer opt now cur p))"
  using pub_flush_inv [of "p\<lparr>timer := False\<rparr>" opt False now cur]
  by (cases "pub_disposed p") (simp_all add: pub_timer_def, simp_all add: pub_inv_def pub_flush_def)

lemma pub_dispose_inv: "pub_inv (pub_dispose p)"
  by (simp add: pub_inv_def pub_dispose_def)

text \<open>A forced flush publishes what is pending.\<close>

lemma pub_flush_force:
  "\<not> pub_disposed p \<Longrightarrow> \<not> dirty (fst (pub_flush opt True now cur p))"
  by (simp add: pub_flush_def Let_def split: option.split)

subsection \<open>Snapshots and updates\<close>

definition INVALID_SHELL_OUTPUT :: "nat \<Rightarrow> bool" where
  "INVALID_SHELL_OUTPUT c = (c \<le> 8 \<or> 11 \<le> c \<and> c \<le> 31 \<or> 65529 \<le> c \<and> c \<le> 65531)"

definition sanitizeShellOutput :: "jstring \<Rightarrow> jstring" where
  "sanitizeShellOutput text = filter (\<lambda>c. \<not> INVALID_SHELL_OUTPUT c) text"

record output_meta =
  meta_truncation :: truncation
  spillPath :: "string option"
  lastLineBytes :: "nat option"

record shell_output =
  out_text :: jstring
  out_meta :: output_meta

datatype shell_update =
    ReplaceU shell_output
  | AppendU jstring output_meta
  | SlideU nat jstring output_meta
  | MetadataU output_meta

definition current_text :: "shell_output option \<Rightarrow> jstring" where
  "current_text current = (case current of None \<Rightarrow> [] | Some o1 \<Rightarrow> out_text o1)"

definition applyShellOutputUpdate :: "shell_output option \<Rightarrow> shell_update \<Rightarrow> shell_output" where
  "applyShellOutputUpdate current update =
     (case update of
        ReplaceU out \<Rightarrow> out
      | AppendU text m \<Rightarrow> \<lparr>out_text = current_text current @ text, out_meta = m\<rparr>
      | SlideU n text m \<Rightarrow> \<lparr>out_text = drop n (current_text current) @ text, out_meta = m\<rparr>
      | MetadataU m \<Rightarrow> \<lparr>out_text = current_text current, out_meta = m\<rparr>)"

definition indexOf_from :: "jstring \<Rightarrow> jstring \<Rightarrow> nat \<Rightarrow> nat option" where
  "indexOf_from s p k = map_option (\<lambda>i. k + i) (indexOf (drop k s) p)"

text \<open>At most eight places where the probe occurs are tried.\<close>

fun overlap_candidates :: "nat \<Rightarrow> jstring \<Rightarrow> jstring \<Rightarrow> jstring \<Rightarrow> nat \<Rightarrow> nat option" where
  "overlap_candidates 0 tail probe after k = None"
| "overlap_candidates (Suc n) tail probe after k =
     (case indexOf_from tail probe k of
        None \<Rightarrow> None
      | Some i \<Rightarrow>
          (let overlapLength = length tail - i in
           if overlapLength \<le> length after \<and> drop i tail = take overlapLength after then Some overlapLength
           else overlap_candidates n tail probe after (i + 1)))"

fun try_probes :: "nat list \<Rightarrow> jstring \<Rightarrow> jstring \<Rightarrow> nat" where
  "try_probes [] tail after = 0"
| "try_probes (probeLength # ps) tail after =
     (case overlap_candidates 8 tail (take probeLength after) after 0 of
        Some n \<Rightarrow> n
      | None \<Rightarrow> if probeLength = 1 then 0 else try_probes ps tail after)"

definition suffixPrefixOverlap :: "jstring \<Rightarrow> jstring \<Rightarrow> nat \<Rightarrow> nat" where
  "suffixPrefixOverlap before after scan =
     (if before = [] \<or> after = [] \<or> scan = 0 then 0
      else
        (let tail = (if length before > scan then drop (length before - scan) before else before)
         in try_probes [min 64 (length after), 1] tail after))"

definition updateFrom :: "shell_output option \<Rightarrow> shell_output \<Rightarrow> shell_update" where
  "updateFrom previous current =
     (case previous of
        None \<Rightarrow> ReplaceU current
      | Some prev \<Rightarrow>
          (let p = out_text prev; c = out_text current; m = out_meta current in
           if c = p then MetadataU m
           else if length c > length p \<and> take (length p) c = p then AppendU (drop (length p) c) m
           else
             (let shared = suffixPrefixOverlap p c
                (min (length p) (min (length c) (maxBytes (trunc_limits (meta_truncation m)) * 2))) in
              if shared > 0 then SlideU (length p - shared) (drop shared c) m
              else ReplaceU current)))"

lemma overlap_candidates_sound:
  "overlap_candidates n tail probe after k = Some m \<Longrightarrow>
   m \<le> length tail \<and> m \<le> length after \<and> drop (length tail - m) tail = take m after"
proof (induction n arbitrary: k)
  case (Suc n)
  then obtain i where i: "indexOf_from tail probe k = Some i"
    by (cases "indexOf_from tail probe k") auto
  with Suc show ?case
    by (cases "i \<le> length tail") (auto simp: Let_def split: if_splits)
qed simp

lemma try_probes_sound:
  "m = try_probes ps tail after \<Longrightarrow>
   m \<le> length tail \<and> m \<le> length after \<and> drop (length tail - m) tail = take m after"
  by (induction ps) (auto split: option.splits if_splits dest: overlap_candidates_sound)

lemma suffixPrefixOverlap_sound:
  assumes "m = suffixPrefixOverlap before after scan"
  shows "m \<le> length before \<and> m \<le> length after \<and> drop (length before - m) before = take m after"
proof (cases "before = [] \<or> after = [] \<or> scan = 0")
  case True
  then show ?thesis using assms by (auto simp: suffixPrefixOverlap_def)
next
  case False
  define tail where "tail = (if length before > scan then drop (length before - scan) before else before)"
  have "m = try_probes [min 64 (length after), 1] tail after"
    using assms False by (simp add: suffixPrefixOverlap_def tail_def Let_def)
  from try_probes_sound [OF this] show ?thesis
    by (auto simp: tail_def split: if_splits)
qed

text \<open>An update carries exactly the difference: applied to the snapshot it was computed from
  it gives the new snapshot, whether it replaces, appends, slides or only changes the
  metadata.\<close>

lemma update_applies: "applyShellOutputUpdate previous (updateFrom previous current) = current"
proof (cases previous)
  case None
  then show ?thesis by (simp add: updateFrom_def applyShellOutputUpdate_def)
next
  case (Some prev)
  let ?p = "out_text prev" and ?c = "out_text current"
  let ?m = "suffixPrefixOverlap ?p ?c (min (length ?p) (min (length ?c)
      (maxBytes (trunc_limits (meta_truncation (out_meta current))) * 2)))"
  from suffixPrefixOverlap_sound [OF refl, of ?p ?c]
  have "drop (length ?p - ?m) ?p = take ?m ?c" by blast
  moreover have "take (length ?p) ?c = ?p \<Longrightarrow> ?p @ drop (length ?p) ?c = ?c"
    by (metis append_take_drop_id)
  ultimately show ?thesis
    using Some by (auto simp: updateFrom_def applyShellOutputUpdate_def current_text_def Let_def)
qed

subsection \<open>The capture\<close>

datatype retain = RetainHead | RetainTail

record capture_options =
  cap_limits :: limits
  cap_retain :: retain

record capture =
  cap_decoder :: decoder
  cap_buffer :: jstring
  bufferBytes :: nat
  cap_totalBytes :: nat
  newlines :: nat
  endsWithNewline :: bool
  currentLineBytes :: nat
  cap_spillPath :: "string option"
  cap_disposed :: bool
  cap_publisher :: "shell_output publisher"

definition capture_init :: capture where
  "capture_init = \<lparr>cap_decoder = decoder_init, cap_buffer = [], bufferBytes = 0, cap_totalBytes = 0, newlines = 0,
     endsWithNewline = True, currentLineBytes = 0, cap_spillPath = None, cap_disposed = False,
     cap_publisher = publisher_init\<rparr>"

text \<open>The constructor rejects limits that are not positive.\<close>

definition newCapture :: "capture_options \<Rightarrow> (string, capture) result" where
  "newCapture opt =
     (if maxBytes (cap_limits opt) = 0 then Inl ''Output maxBytes must be a positive finite number''
      else if maxLines (cap_limits opt) = 0 then Inl ''Output maxLines must be a positive integer''
      else Inr capture_init)"

definition countNewlines :: "jstring \<Rightarrow> nat" where
  "countNewlines text = count_list text newline_unit"

definition cap_totalLines :: "capture \<Rightarrow> nat" where
  "cap_totalLines c = newlines c + (if endsWithNewline c \<or> cap_totalBytes c = 0 then 0 else 1)"

definition cap_truncated :: "limits \<Rightarrow> capture \<Rightarrow> bool" where
  "cap_truncated lm c = (cap_totalBytes c > maxBytes lm \<or> cap_totalLines c > maxLines lm)"

definition continuation :: "nat \<Rightarrow> bool" where
  "continuation b = (128 \<le> b \<and> b < 192)"

definition trimToLastUtf8Bytes :: "jstring \<Rightarrow> nat \<Rightarrow> jstring" where
  "trimToLastUtf8Bytes text maxB =
     (let bytes = utf8_encode text in
      if length bytes \<le> maxB then text
      else utf8_decode (dropWhile continuation (drop (length bytes - maxB) bytes)))"

fun back_to_start :: "nat list \<Rightarrow> nat \<Rightarrow> nat" where
  "back_to_start bytes 0 = 0"
| "back_to_start bytes (Suc e) =
     (if Suc e < length bytes \<and> continuation (bytes ! Suc e) then back_to_start bytes e else Suc e)"

definition trimToFirstUtf8Bytes :: "jstring \<Rightarrow> nat \<Rightarrow> jstring" where
  "trimToFirstUtf8Bytes text maxB =
     (let bytes = utf8_encode text in
      if length bytes \<le> maxB then text
      else utf8_decode (take (back_to_start bytes maxB) bytes))"

definition retained :: "capture_options \<Rightarrow> jstring \<Rightarrow> truncation" where
  "retained opt text =
     (case cap_retain opt of
        RetainHead \<Rightarrow> truncateHead (cap_limits opt) text
      | RetainTail \<Rightarrow> truncateTail (cap_limits opt) text)"

definition snapshot :: "capture_options \<Rightarrow> capture \<Rightarrow> shell_output" where
  "snapshot opt c =
     (let r = retained opt (cap_buffer c);
          total = cap_totalLines c;
          trunc = cap_truncated (cap_limits opt) c
      in \<lparr>out_text = sanitizeShellOutput (out_content r),
          out_meta = \<lparr>
            meta_truncation = r\<lparr>out_content := [], truncated := trunc,
              truncatedBy := (if trunc then Some (if total > maxLines (cap_limits opt) then ByLines else ByBytes) else None),
              totalBytes := cap_totalBytes c, totalLines := total\<rparr>,
            spillPath = cap_spillPath c,
            lastLineBytes = (if lastLinePartial r then Some (currentLineBytes c) else None)\<rparr>\<rparr>)"

definition publish_options :: "(shell_update \<Rightarrow> nat) \<Rightarrow> (shell_output, shell_update) pub_options" where
  "publish_options sz = \<lparr>pub_update = (\<lambda>prev cur. Some (updateFrom prev cur)), pub_measure = sz,
     minIntervalMs = 100, targetBytesPerSecond = 100 * 1024\<rparr>"

text \<open>Let the publisher act on the current snapshot.\<close>

definition with_publisher ::
  "(shell_output \<Rightarrow> shell_output publisher \<Rightarrow> shell_output publisher \<times> shell_update list) \<Rightarrow> capture_options \<Rightarrow>
   capture \<Rightarrow> capture \<times> shell_update list" where
  "with_publisher f opt c =
     (let (p, us) = f (snapshot opt c) (cap_publisher c) in (c\<lparr>cap_publisher := p\<rparr>, us))"

definition append_counts :: "capture_options \<Rightarrow> jstring \<Rightarrow> capture \<Rightarrow> capture" where
  "append_counts opt text c =
     (let textBytes = utf8ByteLength text;
          buf = cap_buffer c @ text;
          bytes = bufferBytes c + textBytes;
          guard = maxBytes (cap_limits opt) * 2;
          buf1 = (if bytes > guard * 2 then
              (case cap_retain opt of RetainTail \<Rightarrow> trimToLastUtf8Bytes buf guard | RetainHead \<Rightarrow> trimToFirstUtf8Bytes buf guard)
            else buf)
      in c\<lparr>cap_totalBytes := cap_totalBytes c + textBytes,
           newlines := newlines c + countNewlines text,
           endsWithNewline := (last text = newline_unit),
           currentLineBytes := (case lastIndexOf_char text newline_unit of
              None \<Rightarrow> currentLineBytes c + textBytes
            | Some i \<Rightarrow> utf8ByteLength (drop (Suc i) text)),
           cap_buffer := buf1,
           bufferBytes := (if bytes > guard * 2 then utf8ByteLength buf1 else bytes)\<rparr>)"

definition appendText ::
  "(shell_update \<Rightarrow> nat) \<Rightarrow> capture_options \<Rightarrow> rat \<Rightarrow> jstring \<Rightarrow> capture \<Rightarrow> capture \<times> shell_update list" where
  "appendText sz opt now text c =
     (if text = [] then (c, [])
      else with_publisher (markDirty (publish_options sz) now) opt (append_counts opt text c))"

datatype chunk = BytesChunk "nat list" | TextChunk jstring

definition push_chunk ::
  "(shell_update \<Rightarrow> nat) \<Rightarrow> capture_options \<Rightarrow> rat \<Rightarrow> chunk \<Rightarrow> capture \<Rightarrow> capture \<times> shell_update list" where
  "push_chunk sz opt now ch c =
     (if cap_disposed c then (c, [])
      else
        (case ch of
           TextChunk text \<Rightarrow>
             (let (d, rest) = decode_flush (cap_decoder c);
                  (c1, us) = appendText sz opt now rest (c\<lparr>cap_decoder := d\<rparr>);
                  (c2, vs) = appendText sz opt now text c1
              in (c2, us @ vs))
         | BytesChunk bs \<Rightarrow>
             (let (d, text) = decode_stream bs (cap_decoder c)
              in appendText sz opt now text (c\<lparr>cap_decoder := d\<rparr>))))"

definition finish_capture ::
  "(shell_update \<Rightarrow> nat) \<Rightarrow> capture_options \<Rightarrow> rat \<Rightarrow> capture \<Rightarrow> capture \<times> shell_update list" where
  "finish_capture sz opt now c =
     (if cap_disposed c then (c, [])
      else (let (d, rest) = decode_flush (cap_decoder c) in appendText sz opt now rest (c\<lparr>cap_decoder := d\<rparr>)))"

definition flush_capture ::
  "(shell_update \<Rightarrow> nat) \<Rightarrow> capture_options \<Rightarrow> rat \<Rightarrow> capture \<Rightarrow> capture \<times> shell_update list" where
  "flush_capture sz opt now c =
     (if cap_disposed c then (c, []) else with_publisher (pub_flush (publish_options sz) True now) opt c)"

definition setSpillPath ::
  "(shell_update \<Rightarrow> nat) \<Rightarrow> capture_options \<Rightarrow> rat \<Rightarrow> string \<Rightarrow> capture \<Rightarrow> capture \<times> shell_update list" where
  "setSpillPath sz opt now path c =
     (if cap_disposed c \<or> cap_spillPath c = Some path then (c, [])
      else
        (let (c1, us) = with_publisher (markDirty (publish_options sz) now) opt (c\<lparr>cap_spillPath := Some path\<rparr>);
             (c2, vs) = flush_capture sz opt now c1
         in (c2, us @ vs)))"

definition dispose_capture :: "capture \<Rightarrow> capture" where
  "dispose_capture c = c\<lparr>cap_publisher := pub_dispose (cap_publisher c), cap_disposed := True\<rparr>"

datatype capture_event =
    PushE chunk
  | FinishE
  | SpillE string
  | FlushE
  | TimerE
  | DisposeE

definition capture_step ::
  "(shell_update \<Rightarrow> nat) \<Rightarrow> capture_options \<Rightarrow> rat \<times> capture_event \<Rightarrow> capture \<Rightarrow> capture \<times> shell_update list" where
  "capture_step sz opt ev c =
     (case ev of
        (now, PushE ch) \<Rightarrow> push_chunk sz opt now ch c
      | (now, FinishE) \<Rightarrow> finish_capture sz opt now c
      | (now, SpillE path) \<Rightarrow> setSpillPath sz opt now path c
      | (now, FlushE) \<Rightarrow> flush_capture sz opt now c
      | (now, TimerE) \<Rightarrow> with_publisher (pub_timer (publish_options sz) now) opt c
      | (now, DisposeE) \<Rightarrow> (dispose_capture c, []))"

fun capture_run ::
  "(shell_update \<Rightarrow> nat) \<Rightarrow> capture_options \<Rightarrow> (rat \<times> capture_event) list \<Rightarrow> capture \<Rightarrow> capture \<times> shell_update list" where
  "capture_run sz opt [] c = (c, [])"
| "capture_run sz opt (ev # evs) c =
     (let (c1, us) = capture_step sz opt ev c; (c2, vs) = capture_run sz opt evs c1 in (c2, us @ vs))"

subsection \<open>What the caller sees\<close>

text \<open>The view a caller builds by applying the updates it receives.\<close>

definition apply_updates :: "shell_update list \<Rightarrow> shell_output option \<Rightarrow> shell_output option" where
  "apply_updates us view = fold (\<lambda>u v. Some (applyShellOutputUpdate v u)) us view"

lemma apply_updates_simps [simp]:
  "apply_updates [] v = v"
  "apply_updates (u # us) v = apply_updates us (Some (applyShellOutputUpdate v u))"
  "apply_updates (us @ vs) v = apply_updates vs (apply_updates us v)"
  by (simp_all add: apply_updates_def)

text \<open>Every act of the publisher keeps the caller's view equal to what it recorded as published.\<close>

lemma flush_view:
  "pub_flush (publish_options sz) force now cur p = (p', us) \<Longrightarrow> apply_updates us (published p) = published p'"
  by (auto simp: pub_flush_def publish_options_def Let_def update_applies split: if_splits)

lemma markDirty_view:
  "markDirty (publish_options sz) now cur p = (p', us) \<Longrightarrow> apply_updates us (published p) = published p'"
  using flush_view [of sz False now cur "p\<lparr>dirty := True\<rparr>" p' us]
  by (auto simp: markDirty_def Let_def split: if_splits)

lemma timer_view:
  "pub_timer (publish_options sz) now cur p = (p', us) \<Longrightarrow> apply_updates us (published p) = published p'"
  using flush_view [of sz False now cur "p\<lparr>timer := False\<rparr>" p' us]
  by (auto simp: pub_timer_def split: if_splits)

text \<open>The state of a capture: a change is pending or published, and a pending change has a timer.\<close>

definition in_step :: "capture_options \<Rightarrow> capture \<Rightarrow> bool" where
  "in_step opt c \<longleftrightarrow>
     pub_inv (cap_publisher c) \<and> (pub_disposed (cap_publisher c) = cap_disposed c) \<and>
     (\<not> dirty (cap_publisher c) \<and> \<not> cap_disposed c \<longrightarrow>
        published (cap_publisher c) = Some (snapshot opt c) \<or>
        published (cap_publisher c) = None \<and> snapshot opt c = snapshot opt capture_init)"

text \<open>The same state but for its decoder and publisher.\<close>

lemma snapshot_publisher [simp]:
  "snapshot opt (c\<lparr>cap_publisher := p\<rparr>) = snapshot opt c" "snapshot opt (c\<lparr>cap_decoder := d\<rparr>) = snapshot opt c"
  by (simp_all add: snapshot_def cap_totalLines_def cap_truncated_def Let_def)

lemma publisher_clean:
  assumes "markDirty opts now cur p = (p', us) \<or> pub_flush opts force now cur p = (p', us) \<or> pub_timer opts now cur p = (p', us)"
    and "\<not> dirty p'" "\<not> pub_disposed p"
    and "pub_update opts = (\<lambda>prev cur. Some (f prev cur))"
  shows "published p' = published p \<and> \<not> dirty p \<or> published p' = Some cur"
  using assms by (auto simp: markDirty_def pub_flush_def pub_timer_def Let_def split: if_splits)

lemma publisher_disposed:
  "pub_disposed (fst (markDirty opts now cur p)) = pub_disposed p"
  "pub_disposed (fst (pub_flush opts force now cur p)) = pub_disposed p"
  "pub_disposed (fst (pub_timer opts now cur p)) = pub_disposed p"
  by (simp_all add: markDirty_def pub_flush_def pub_timer_def Let_def split: option.split)

text \<open>Marking dirty after a change.\<close>

lemma with_markDirty:
  assumes "with_publisher (markDirty (publish_options sz) now) opt c = (c', us)" "pub_inv (cap_publisher c)"
    and "pub_disposed (cap_publisher c) = cap_disposed c" "\<not> cap_disposed c"
  shows "in_step opt c' \<and> c' = c\<lparr>cap_publisher := cap_publisher c'\<rparr> \<and>
    apply_updates us (published (cap_publisher c)) = published (cap_publisher c')"
proof -
  obtain p where p: "markDirty (publish_options sz) now (snapshot opt c) (cap_publisher c) = (p, us)" "c' = c\<lparr>cap_publisher := p\<rparr>"
    using assms(1) by (auto simp: with_publisher_def split: prod.splits)
  have "dirty p \<or> published p = Some (snapshot opt c)"
    using p(1) assms(3,4) by (auto simp: markDirty_def pub_flush_def publish_options_def Let_def split: if_splits)
  moreover have "pub_inv p" using markDirty_inv [OF assms(2)] p(1) by (metis fst_conv)
  moreover have "pub_disposed p = cap_disposed c" using publisher_disposed(1) p(1) assms(3) by (metis fst_conv)
  ultimately show ?thesis
    using markDirty_view [OF p(1)] by (auto simp: in_step_def p(2))
qed

lemma with_flush:
  assumes "with_publisher f opt c = (c', us)" "in_step opt c" "\<not> cap_disposed c"
    and "f = pub_flush (publish_options sz) True now \<or> f = pub_timer (publish_options sz) now"
  shows "in_step opt c' \<and> c' = c\<lparr>cap_publisher := cap_publisher c'\<rparr> \<and>
    apply_updates us (published (cap_publisher c)) = published (cap_publisher c')"
proof -
  obtain p where p: "f (snapshot opt c) (cap_publisher c) = (p, us)" "c' = c\<lparr>cap_publisher := p\<rparr>"
    using assms(1) by (auto simp: with_publisher_def split: prod.splits)
  have nd: "\<not> pub_disposed (cap_publisher c)" "pub_inv (cap_publisher c)"
    using assms(2,3) by (simp_all add: in_step_def)
  have "pub_inv p \<and> pub_disposed p = cap_disposed c"
    using assms(2,4) p(1) pub_flush_inv [OF nd(1), of "publish_options sz" True now "snapshot opt c"]
      pub_timer_inv [OF nd(2), of "publish_options sz" now "snapshot opt c"]
      publisher_disposed(2) [of "publish_options sz" True now "snapshot opt c" "cap_publisher c"]
      publisher_disposed(3) [of "publish_options sz" now "snapshot opt c" "cap_publisher c"]
    by (auto simp: in_step_def)
  moreover have "published p = Some (snapshot opt c) \<or> published p = None \<and> snapshot opt c = snapshot opt capture_init"
    if "\<not> dirty p"
  proof -
    have "published p = published (cap_publisher c) \<and> \<not> dirty (cap_publisher c) \<or> published p = Some (snapshot opt c)"
      using publisher_clean [OF _ that nd(1), of "publish_options sz" now "snapshot opt c" us True updateFrom] assms(4) p(1)
      by (auto simp: publish_options_def)
    with assms(2,3) show ?thesis by (auto simp: in_step_def)
  qed
  moreover have "apply_updates us (published (cap_publisher c)) = published p"
    using assms(4) p(1) flush_view [of sz True now "snapshot opt c" "cap_publisher c" p us]
      timer_view [of sz now "snapshot opt c" "cap_publisher c" p us] by auto
  ultimately show ?thesis by (auto simp: in_step_def p(2))
qed

lemma append_counts_keeps [simp]:
  "cap_publisher (append_counts opt text c) = cap_publisher c" "cap_disposed (append_counts opt text c) = cap_disposed c"
  "cap_decoder (append_counts opt text c) = cap_decoder c" "cap_spillPath (append_counts opt text c) = cap_spillPath c"
  by (simp_all add: append_counts_def Let_def)

lemma appendText_step:
  assumes "appendText sz opt now text c = (c', us)" "in_step opt c" "\<not> cap_disposed c"
  shows "in_step opt c' \<and> \<not> cap_disposed c' \<and>
    c' = (if text = [] then c else append_counts opt text c)\<lparr>cap_publisher := cap_publisher c'\<rparr> \<and>
    apply_updates us (published (cap_publisher c)) = published (cap_publisher c')"
proof (cases "text = []")
  case True
  with assms show ?thesis by (simp add: appendText_def)
next
  case False
  with assms have "with_publisher (markDirty (publish_options sz) now) opt (append_counts opt text c) = (c', us)"
    by (simp add: appendText_def)
  from with_markDirty [OF this] assms(2,3) False show ?thesis
    by (simp add: in_step_def) (metis append_counts_keeps(2) capture.select_convs(9) capture.surjective capture.update_convs(10))
qed

lemma in_step_decoder [simp]: "in_step opt (c\<lparr>cap_decoder := d\<rparr>) = in_step opt c"
  by (simp add: in_step_def)

lemma capture_step_view:
  assumes "capture_step sz opt ev c = (c', us)" "in_step opt c"
  shows "in_step opt c' \<and> apply_updates us (published (cap_publisher c)) = published (cap_publisher c')"
proof (cases "cap_disposed c")
  case True
  then have d: "pub_disposed (cap_publisher c)" "\<not> timer (cap_publisher c) \<or> timer (cap_publisher c)" using assms(2) by (simp_all add: in_step_def)
  obtain now e where ev: "ev = (now, e)" by (cases ev)
  show ?thesis
    using True assms d
    by (cases e) (auto simp: ev capture_step_def push_chunk_def finish_capture_def setSpillPath_def flush_capture_def
        dispose_capture_def pub_dispose_def with_publisher_def pub_timer_def pub_flush_def in_step_def pub_inv_def
        split: if_splits)
next
  case False
  obtain now e where ev: "ev = (now, e)" by (cases ev)
  show ?thesis
  proof (cases e)
    case (PushE ch)
    show ?thesis
    proof (cases ch)
      case (BytesChunk bs)
      obtain d out where "decode_stream bs (cap_decoder c) = (d, out)" by (cases "decode_stream bs (cap_decoder c)")
      then have "appendText sz opt now out (c\<lparr>cap_decoder := d\<rparr>) = (c', us)"
        using assms(1) False ev PushE BytesChunk by (simp add: capture_step_def push_chunk_def)
      from appendText_step [OF this] assms(2) False show ?thesis by simp
    next
      case (TextChunk t)
      obtain d rest where d: "decode_flush (cap_decoder c) = (d, rest)" by (cases "decode_flush (cap_decoder c)")
      obtain c1 us1 where c1: "appendText sz opt now rest (c\<lparr>cap_decoder := d\<rparr>) = (c1, us1)"
        by (cases "appendText sz opt now rest (c\<lparr>cap_decoder := d\<rparr>)")
      obtain vs where c2: "appendText sz opt now t c1 = (c', vs)" "us = us1 @ vs"
        using assms(1) False ev PushE TextChunk d c1
        by (cases "appendText sz opt now t c1") (simp add: capture_step_def push_chunk_def)
      have one: "in_step opt c1" "\<not> cap_disposed c1" "apply_updates us1 (published (cap_publisher c)) = published (cap_publisher c1)"
        using appendText_step [OF c1] assms(2) False by simp_all
      from appendText_step [OF c2(1) one(1,2)] one(3) show ?thesis by (simp add: c2(2))
    qed
  next
    case FinishE
    obtain d rest where "decode_flush (cap_decoder c) = (d, rest)" by (cases "decode_flush (cap_decoder c)")
    then have "appendText sz opt now rest (c\<lparr>cap_decoder := d\<rparr>) = (c', us)"
      using assms(1) False ev FinishE by (simp add: capture_step_def finish_capture_def)
    from appendText_step [OF this] assms(2) False show ?thesis by simp
  next
    case (SpillE path)
    show ?thesis
    proof (cases "cap_spillPath c = Some path")
      case True
      then show ?thesis using assms ev SpillE by (simp add: capture_step_def setSpillPath_def)
    next
      case new: False
      let ?c = "c\<lparr>cap_spillPath := Some path\<rparr>"
      obtain c1 us1 where c1: "with_publisher (markDirty (publish_options sz) now) opt ?c = (c1, us1)"
        by (cases "with_publisher (markDirty (publish_options sz) now) opt ?c")
      obtain vs where c2: "flush_capture sz opt now c1 = (c', vs)" "us = us1 @ vs"
        using assms(1) False ev SpillE new c1
        by (cases "flush_capture sz opt now c1") (simp add: capture_step_def setSpillPath_def)
      have one: "in_step opt c1" "c1 = ?c\<lparr>cap_publisher := cap_publisher c1\<rparr>"
          "apply_updates us1 (published (cap_publisher c)) = published (cap_publisher c1)"
        using with_markDirty [OF c1] assms(2) False by (simp_all add: in_step_def)
      from one(2) False have "\<not> cap_disposed c1"
        by (metis capture.select_convs(9) capture.surjective capture.update_convs(8,10))
      with c2(1) have "with_publisher (pub_flush (publish_options sz) True now) opt c1 = (c', vs)"
        by (simp add: flush_capture_def)
      from with_flush [OF this one(1) \<open>\<not> cap_disposed c1\<close>] one(3) show ?thesis by (auto simp: c2(2))
    qed
  next
    case FlushE
    then have "with_publisher (pub_flush (publish_options sz) True now) opt c = (c', us)"
      using assms(1) False ev by (simp add: capture_step_def flush_capture_def)
    from with_flush [OF this assms(2) False] show ?thesis by auto
  next
    case TimerE
    then have "with_publisher (pub_timer (publish_options sz) now) opt c = (c', us)"
      using assms(1) ev by (simp add: capture_step_def)
    from with_flush [OF this assms(2) False] show ?thesis by auto
  next
    case DisposeE
    then show ?thesis
      using assms ev by (auto simp: capture_step_def dispose_capture_def in_step_def pub_inv_def pub_dispose_def)
  qed
qed

lemma capture_run_view:
  "capture_run sz opt evs c = (c', us) \<Longrightarrow> in_step opt c \<Longrightarrow>
   in_step opt c' \<and> apply_updates us (published (cap_publisher c)) = published (cap_publisher c')"
proof (induction evs arbitrary: c us)
  case (Cons ev evs)
  obtain c1 us1 where step: "capture_step sz opt ev c = (c1, us1)" by (cases "capture_step sz opt ev c")
  obtain vs where run: "capture_run sz opt evs c1 = (c', vs)" "us = us1 @ vs"
    using Cons.prems(1) step by (cases "capture_run sz opt evs c1") simp
  from capture_step_view [OF step Cons.prems(2)] Cons.IH [OF run(1)] show ?case by (simp add: run(2))
qed simp

lemma capture_init_step: "in_step opt capture_init" "published (cap_publisher capture_init) = None"
  by (simp_all add: in_step_def capture_init_def publisher_init_def pub_inv_def)

text \<open>The caller of a running command sees what it printed: applying the updates in the order
  they were published always gives the snapshot last published; a flush brings it to the
  current snapshot (or to nothing, when nothing has changed since the start), and while an
  update is pending a timer is set that will publish it.\<close>

theorem capture_view:
  assumes "capture_run sz opt evs capture_init = (c, us)" "\<not> cap_disposed c"
    and "flush_capture sz opt now c = (c', vs)"
  shows "(apply_updates (us @ vs) None = Some (snapshot opt c) \<or>
      apply_updates (us @ vs) None = None \<and> snapshot opt c = snapshot opt capture_init) \<and>
    (dirty (cap_publisher c) \<longrightarrow> timer (cap_publisher c))"
proof -
  have run: "in_step opt c" "apply_updates us None = published (cap_publisher c)"
    using capture_run_view [OF assms(1) capture_init_step(1)] capture_init_step(2) by simp_all
  have fl: "with_publisher (pub_flush (publish_options sz) True now) opt c = (c', vs)"
    using assms(2,3) by (simp add: flush_capture_def)
  from with_flush [OF fl run(1) assms(2)]
  have step: "in_step opt c'" "c' = c\<lparr>cap_publisher := cap_publisher c'\<rparr>"
      "apply_updates vs (published (cap_publisher c)) = published (cap_publisher c')" by auto
  have "\<not> dirty (cap_publisher c')"
    using fl pub_flush_force [of "cap_publisher c" "publish_options sz" now "snapshot opt c"] run(1) assms(2)
    by (auto simp: with_publisher_def in_step_def split: prod.splits)
  moreover have "snapshot opt c' = snapshot opt c" "cap_disposed c' = cap_disposed c"
    by (metis snapshot_publisher(1) step(2)) (metis step(2) capture.select_convs(9) capture.surjective capture.update_convs(10))
  ultimately show ?thesis
    using step(1,3) run assms(2) by (auto simp: in_step_def pub_inv_def)
qed

lemmas capture_eval =
  capture_step_def push_chunk_def appendText_def with_publisher_def markDirty_def pub_flush_def publish_options_def
  append_counts_def decode_flush_def decoder_init_def capture_init_def publisher_init_def snapshot_def retained_def
  countNewlines_def cap_totalLines_def cap_truncated_def sanitizeShellOutput_def INVALID_SHELL_OUTPUT_def

theorem capture_view_witness:
  "\<exists>c us. capture_run (\<lambda>u. 1) \<lparr>cap_limits = \<lparr>maxLines = 9, maxBytes = 9\<rparr>, cap_retain = RetainTail\<rparr>
       [(0, PushE (TextChunk [104]))] capture_init = (c, us) \<and> \<not> cap_disposed c \<and>
     apply_updates (us @ snd (flush_capture (\<lambda>u. 1) \<lparr>cap_limits = \<lparr>maxLines = 9, maxBytes = 9\<rparr>, cap_retain = RetainTail\<rparr> 1 c)) None
       = Some (snapshot \<lparr>cap_limits = \<lparr>maxLines = 9, maxBytes = 9\<rparr>, cap_retain = RetainTail\<rparr> c)"
proof -
  let ?opt = "\<lparr>cap_limits = \<lparr>maxLines = 9, maxBytes = 9\<rparr>, cap_retain = RetainTail\<rparr>"
  obtain c us where run: "capture_run (\<lambda>u. 1) ?opt [(0, PushE (TextChunk [104]))] capture_init = (c, us)"
    by (cases "capture_run (\<lambda>u. 1) ?opt [(0, PushE (TextChunk [104]))] capture_init")
  moreover have "utf8ByteLength [104] = 1" by (simp add: truncate_eval)
  ultimately have c: "cap_buffer c = [104]" "\<not> cap_disposed c"
    by (auto simp: capture_eval Let_def)
  have "snapshot ?opt c \<noteq> snapshot ?opt capture_init"
  proof -
    have "out_text (snapshot ?opt c) = [104]"
      using c(1) by (simp add: snapshot_def retained_def truncateTail_def truncate_eval sanitizeShellOutput_def INVALID_SHELL_OUTPUT_def)
    moreover have "out_text (snapshot ?opt capture_init) = []"
      by (simp add: snapshot_def retained_def truncateTail_def truncate_eval sanitizeShellOutput_def capture_init_def)
    ultimately show ?thesis by auto
  qed
  with capture_view [OF run c(2) prod.collapse [symmetric]] run c(2) show ?thesis by auto
qed

end
