(* ===== verification/Utf8_Sound.thy ===== *)
theory Utf8_Sound
  imports Truncate
begin

text \<open>
  Text without unpaired surrogates: it is closed under concatenation, its UTF-8 size adds up,
  and the runtime's decoder produces nothing else, whatever bytes it is given.
\<close>

subsection \<open>Decoded text is well formed\<close>

lemma well_formed_Nil [simp]: "well_formed []"
  by (simp add: well_formed_def)

lemma well_formed_last:
  assumes "well_formed s" "s \<noteq> []"
  shows "\<not> hi_surrogate (last s)"
proof
  assume hi: "hi_surrogate (last s)"
  obtain cs c where cs: "chars s = cs @ [c]" using assms(2) by (metis chars_Nil_iff rev_exhaust)
  have s: "s = concat cs @ c" and c: "(\<exists>a. c = [a]) \<or> (\<exists>a b. c = [a, b] \<and> hi_surrogate a \<and> lo_surrogate b)"
    using chars_snoc [OF cs] by blast+
  from c hi s have "unpaired c" by (auto simp: unpaired_def surrogate_def)
  with assms(1) cs show False by (simp add: well_formed_def)
qed

lemma well_formed_no_join: "well_formed s \<Longrightarrow> \<not> joins s t"
  using well_formed_last by (auto simp: joins_def)

lemma well_formed_append: "well_formed s \<Longrightarrow> well_formed t \<Longrightarrow> well_formed (s @ t)"
  using chars_append [OF well_formed_no_join] by (simp add: well_formed_def)

lemma bytes_append: "well_formed s \<Longrightarrow> utf8ByteLength (s @ t) = utf8ByteLength s + utf8ByteLength t"
  using utf8_encode_append [OF well_formed_no_join] by (simp add: utf8ByteLength_def)

definition sound_text :: "jstring \<Rightarrow> bool" where
  "sound_text s \<longleftrightarrow> well_formed s \<and> units_ok s"

lemma sound_append: "sound_text s \<Longrightarrow> sound_text t \<Longrightarrow> sound_text (s @ t)"
  by (simp add: sound_text_def well_formed_append)

lemma sound_Nil [simp]: "sound_text []"
  by (simp add: sound_text_def)

lemma sound_units: "scalar c \<Longrightarrow> sound_text (units c)"
proof -
  assume c: "scalar c"
  show ?thesis
  proof (cases "c < 65536")
    case True
    with c show ?thesis by (simp add: sound_text_def units_def well_formed_def unpaired_def scalar_def)
  next
    case False
    have "c - 65536 < 1024 * 1024" using c False by (auto simp: scalar_def)
    then have "(c - 65536) div 1024 < 1024" "(c - 65536) mod 1024 < 1024"
      by (simp_all add: div_less_iff_less_mult)
    then have "hi_surrogate (55296 + (c - 65536) div 1024)" "lo_surrogate (56320 + (c - 65536) mod 1024)"
        "55296 + (c - 65536) div 1024 < 65536" "56320 + (c - 65536) mod 1024 < 65536"
      by (simp_all add: hi_surrogate_def lo_surrogate_def)
    with False show ?thesis
      by (simp add: sound_text_def units_def well_formed_def unpaired_def)
  qed
qed

text \<open>What a decoder in the middle of a character has read can only become a scalar value.\<close>

definition decoder_ok :: "decoder \<Rightarrow> bool" where
  "decoder_ok d \<longleftrightarrow>
     128 \<le> d_lower d \<and> d_upper d \<le> 191 \<and>
     (d_needed d = 0 \<or>
      d_needed d = 1 \<and> d_code d < 17408 \<and> \<not> (864 \<le> d_code d \<and> d_code d \<le> 895) \<or>
      d_needed d = 2 \<and> d_code d < 272 \<and> (d_code d = 13 \<longrightarrow> d_upper d \<le> 159) \<or>
      d_needed d = 3 \<and> d_code d \<le> 4 \<and> (d_code d = 0 \<longrightarrow> 144 \<le> d_lower d) \<and> (d_code d = 4 \<longrightarrow> d_upper d \<le> 143))"

lemma decoder_ok_ready [simp]: "decoder_ok (decoder_ready b)" "decoder_ok decoder_init"
  by (simp_all add: decoder_ok_def decoder_ready_def decoder_init_def)

lemma scalar_replacement [simp]: "scalar REPLACEMENT"
  by (simp add: scalar_def REPLACEMENT_def surrogate_def hi_surrogate_def lo_surrogate_def)

lemma decoder_okI1:
  "d_needed d = 1 \<Longrightarrow> 128 \<le> d_lower d \<Longrightarrow> d_upper d \<le> 191 \<Longrightarrow> d_code d < 17408 \<Longrightarrow>
   \<not> (864 \<le> d_code d \<and> d_code d \<le> 895) \<Longrightarrow> decoder_ok d"
  by (simp add: decoder_ok_def)

lemma decoder_okI2:
  "d_needed d = 2 \<Longrightarrow> 128 \<le> d_lower d \<Longrightarrow> d_upper d \<le> 191 \<Longrightarrow> d_code d < 272 \<Longrightarrow>
   (d_code d = 13 \<Longrightarrow> d_upper d \<le> 159) \<Longrightarrow> decoder_ok d"
  by (simp add: decoder_ok_def)

lemma decoder_okI3:
  "d_needed d = 3 \<Longrightarrow> 128 \<le> d_lower d \<Longrightarrow> d_upper d \<le> 191 \<Longrightarrow> d_code d \<le> 4 \<Longrightarrow>
   (d_code d = 0 \<Longrightarrow> 144 \<le> d_lower d) \<Longrightarrow> (d_code d = 4 \<Longrightarrow> d_upper d \<le> 143) \<Longrightarrow> decoder_ok d"
  by (simp add: decoder_ok_def)

lemma sound_replacement [simp]: "sound_text (units REPLACEMENT)"
  by (rule sound_units) simp

lemma decode_lead_ok:
  assumes "decoder_ok d" "d_needed d = 0" "decode_lead b d = (d', out)"
  shows "decoder_ok d' \<and> sound_text out"
proof -
  consider "b \<le> 127" | "194 \<le> b" "b \<le> 223" | "224 \<le> b" "b \<le> 239" | "240 \<le> b" "b \<le> 244"
    | "127 < b" "b < 194 \<or> 244 < b" by linarith
  then show ?thesis
  proof cases
    case 1
    then have "scalar b" by (simp add: scalar_def surrogate_def hi_surrogate_def lo_surrogate_def)
    with 1 assms(3) show ?thesis by (auto simp: decode_lead_def sound_units)
  next
    case 2
    then have "decode_lead b d = (d\<lparr>d_needed := 1, d_code := b - 192\<rparr>, [])" by (simp add: decode_lead_def)
    with assms(3) have "d' = d\<lparr>d_needed := 1, d_code := b - 192\<rparr>" "out = []" by simp_all
    moreover have "128 \<le> d_lower d" "d_upper d \<le> 191" using assms(1) by (simp_all add: decoder_ok_def)
    moreover have "b - 192 < 864" using 2 by linarith
    ultimately show ?thesis by (intro conjI decoder_okI1) simp_all
  next
    case 3
    then have "decode_lead b d = (d\<lparr>d_needed := 2, d_code := b - 224, d_lower := (if b = 224 then 160 else 128),
        d_upper := (if b = 237 then 159 else 191)\<rparr>, [])" by (simp add: decode_lead_def)
    with assms(3) have "d_needed d' = 2" "d_code d' = b - 224" "d_lower d' = (if b = 224 then 160 else 128)"
        "d_upper d' = (if b = 237 then 159 else 191)" "out = []" by auto
    moreover have "b - 224 < 272" using 3 by linarith
    moreover have "b = 237" if "b - 224 = 13" using 3 that by linarith
    ultimately show ?thesis by (intro conjI decoder_okI2) auto
  next
    case 4
    then have "decode_lead b d = (d\<lparr>d_needed := 3, d_code := b - 240, d_lower := (if b = 240 then 144 else 128),
        d_upper := (if b = 244 then 143 else 191)\<rparr>, [])" by (simp add: decode_lead_def)
    with assms(3) have "d_needed d' = 3" "d_code d' = b - 240" "d_lower d' = (if b = 240 then 144 else 128)"
        "d_upper d' = (if b = 244 then 143 else 191)" "out = []" by auto
    moreover have "b - 240 \<le> 4" using 4 by linarith
    moreover have "b = 240" if "b - 240 = 0" using 4 that by linarith
    moreover have "b = 244" if "b - 240 = 4" using 4 that by linarith
    ultimately show ?thesis by (intro conjI decoder_okI3) auto
  next
    case 5
    then have "decode_lead b d = emit_code REPLACEMENT d" by (auto simp: decode_lead_def)
    with assms(3) show ?thesis by auto
  qed
qed

lemma decode_byte_ok:
  assumes "decoder_ok d" "decode_byte b d = (d', out)"
  shows "decoder_ok d' \<and> sound_text out"
proof -
  consider "d_needed d = 0" | "d_needed d \<noteq> 0" "b < d_lower d \<or> d_upper d < b"
    | "d_needed d = 1" "d_lower d \<le> b" "b \<le> d_upper d"
    | "d_needed d > 1" "d_lower d \<le> b" "b \<le> d_upper d" by linarith
  then show ?thesis
  proof cases
    case 1
    with assms decode_lead_ok show ?thesis by (simp add: decode_byte_def)
  next
    case 2
    obtain d2 out2 where l: "decode_lead b (decoder_ready False) = (d2, out2)"
      by (cases "decode_lead b (decoder_ready False)")
    have r: "sound_text (units REPLACEMENT)" by (rule sound_units) simp
    have "decoder_ok d2 \<and> sound_text out2"
      using decode_lead_ok [OF _ _ l] by (simp add: decoder_ready_def decoder_ok_def)
    with 2 assms(2) l r show ?thesis
      by (auto simp: decode_byte_def intro!: sound_append split: if_splits)
  next
    case 3
    let ?c = "d_code d * 64 + (b - 128)"
    have b: "b - 128 < 64" "d_code d < 17408" "\<not> (864 \<le> d_code d \<and> d_code d \<le> 895)"
      using 3 assms(1) by (auto simp: decoder_ok_def)
    then have "?c < 1114112" by linarith
    moreover have "\<not> surrogate ?c"
    proof
      assume "surrogate ?c"
      then have "55296 \<le> ?c" "?c \<le> 57343" by (auto simp: surrogate_def hi_surrogate_def lo_surrogate_def)
      with b show False by linarith
    qed
    ultimately have "sound_text (units ?c)" by (intro sound_units) (simp add: scalar_def)
    with 3 assms(2) show ?thesis by (auto simp: decode_byte_def Let_def split: if_splits)
  next
    case 4
    have b: "128 \<le> b" "b \<le> 191" using 4 assms(1) by (auto simp: decoder_ok_def)
    have d': "d' = d\<lparr>d_needed := d_needed d - 1, d_code := d_code d * 64 + (b - 128), d_lower := 128, d_upper := 191\<rparr>" "out = []"
      using 4 assms(2) by (auto simp: decode_byte_def Let_def)
    have "d_needed d = 2 \<or> d_needed d = 3" using 4 assms(1) by (auto simp: decoder_ok_def)
    then show ?thesis
    proof
      assume two: "d_needed d = 2"
      then have c: "d_code d < 272" "d_code d = 13 \<Longrightarrow> b \<le> 159" using assms(1) 4 by (auto simp: decoder_ok_def)
      have "\<not> (864 \<le> d_code d * 64 + (b - 128) \<and> d_code d * 64 + (b - 128) \<le> 895)"
      proof
        assume r: "864 \<le> d_code d * 64 + (b - 128) \<and> d_code d * 64 + (b - 128) \<le> 895"
        with b have "d_code d = 13" by linarith
        with c(2) r show False by auto
      qed
      moreover have "d_code d * 64 + (b - 128) < 17408" using c(1) b by linarith
      ultimately show ?thesis by (intro conjI decoder_okI1) (simp_all add: d' two)
    next
      assume three: "d_needed d = 3"
      then have c: "d_code d \<le> 4" "d_code d = 0 \<Longrightarrow> 144 \<le> b" "d_code d = 4 \<Longrightarrow> b \<le> 143"
        using assms(1) 4 by (auto simp: decoder_ok_def)
      have "d_code d * 64 + (b - 128) < 272"
      proof (cases "d_code d = 4")
        case True
        with c(3) b show ?thesis by simp
      next
        case False
        with c(1) b show ?thesis by linarith
      qed
      moreover have "d_code d * 64 + (b - 128) \<noteq> 13"
      proof (cases "d_code d = 0")
        case True
        with c(2) show ?thesis by simp
      next
        case False
        then show ?thesis by simp
      qed
      ultimately show ?thesis by (intro conjI decoder_okI2) (simp_all add: d' three)
    qed
  qed
qed

lemma decode_stream_ok:
  "decoder_ok d \<Longrightarrow> decode_stream bs d = (d', out) \<Longrightarrow> decoder_ok d' \<and> sound_text out"
proof (induction bs arbitrary: d out)
  case (Cons b bs)
  obtain d1 o1 where b: "decode_byte b d = (d1, o1)" by (cases "decode_byte b d")
  obtain o2 where bs: "decode_stream bs d1 = (d', o2)" "out = o1 @ o2"
    using Cons.prems(2) b by (cases "decode_stream bs d1") simp
  from decode_byte_ok [OF Cons.prems(1) b] Cons.IH [OF _ bs(1)] show ?case
    by (simp add: bs(2) sound_append)
qed simp

lemma decode_flush_ok: "decode_flush d = (d', out) \<Longrightarrow> decoder_ok d' \<and> sound_text out"
proof -
  have "sound_text [REPLACEMENT]" using sound_replacement by (simp add: units_def REPLACEMENT_def)
  moreover assume "decode_flush d = (d', out)"
  ultimately show ?thesis by (auto simp: decode_flush_def split: if_splits)
qed

end
