(* ===== verification/Capture_Tail.thy ===== *)
theory Capture_Tail
  imports Output_Capture Utf8_Sound
begin

text \<open>
  The bounded buffer of a capture is as good as the whole output: the counters of \<open>OutputCapture\<close>
  are those of everything that was printed, and the snapshot of a capture that keeps the tail is
  the one computed from the whole output, although the buffer is cut to twice the limit
  whenever it exceeds four times the limit.
\<close>

subsection \<open>Cutting the buffer\<close>

lemma encode_code_shape:
  "\<exists>h t. encode_code c = h # t \<and> \<not> continuation h \<and> list_all continuation t \<and> length t \<le> 3"
  by (auto simp: encode_code_def continuation_def)

definition char_block :: "nat list \<Rightarrow> bool" where
  "char_block b \<longleftrightarrow> (\<exists>h t. b = h # t \<and> \<not> continuation h \<and> list_all continuation t \<and> length t \<le> 3)"

lemma dropWhile_blocks: "list_all char_block bss \<Longrightarrow> dropWhile continuation (concat bss) = concat bss"
  by (cases bss) (auto simp: char_block_def)

text \<open>Dropping bytes and then continuation bytes leaves whole characters, at most three bytes
  fewer.\<close>

lemma drop_to_boundary:
  assumes "list_all char_block bss" "n \<le> length (concat bss)"
  shows "\<exists>k. dropWhile continuation (drop n (concat bss)) = concat (drop k bss) \<and>
    length (concat bss) \<le> n + 3 + length (concat (drop k bss))"
  using assms
proof (induction bss arbitrary: n)
  case (Cons b bss)
  show ?case
  proof (cases "n = 0")
    case True
    then show ?thesis
      using dropWhile_blocks [OF Cons.prems(1)] by (intro exI [of _ 0]) simp
  next
    case pos: False
    show ?thesis
    proof (cases "length b \<le> n")
      case True
      have "list_all char_block bss" "n - length b \<le> length (concat bss)"
        using Cons.prems True by (simp_all del: length_concat)
      from Cons.IH [OF this] obtain k where
        "dropWhile continuation (drop (n - length b) (concat bss)) = concat (drop k bss)"
        "length (concat bss) \<le> n - length b + 3 + length (concat (drop k bss))" by blast
      with True show ?thesis by (intro exI [of _ "Suc k"]) simp
    next
      case False
      obtain h t where b: "b = h # t" "list_all continuation t" "length t \<le> 3"
        using Cons.prems(1) by (auto simp: char_block_def)
      have "drop n b = drop (n - 1) t" using pos b by (cases n) auto
      then have "list_all continuation (drop n b)"
        using b(2) by (auto simp: list_all_iff dest: in_set_dropD)
      then have "dropWhile continuation (drop n b @ concat bss) = dropWhile continuation (concat bss)"
        by (simp add: dropWhile_append list_all_iff)
      then have "dropWhile continuation (drop n (concat (b # bss))) = concat bss"
        using False Cons.prems(1) dropWhile_blocks by simp
      with False pos b show ?thesis by (intro exI [of _ 1]) simp
    qed
  qed
qed simp

lemma utf8_decode_chars:
  assumes "sound_text s"
  shows "utf8_decode (utf8_encode s) = (if s \<noteq> [] \<and> hd s = 65279 then tl s else s)"
proof (cases "s \<noteq> [] \<and> hd s = 65279")
  case False
  with decode_encode [of s] assms show ?thesis by (auto simp: sound_text_def repaired_well_formed)
next
  case True
  then obtain t where s: "s = 65279 # t" by (cases s) auto
  have bom: "\<not> hi_surrogate 65279" "\<not> lo_surrogate 65279" "\<not> surrogate 65279"
    by (simp_all add: hi_surrogate_def lo_surrogate_def surrogate_def)
  then have cs: "chars s = [65279] # chars t" by (simp add: s chars_Cons)
  have t: "units_ok t" "well_formed t" using assms cs by (auto simp: sound_text_def well_formed_def s)
  have all: "list_all (\<lambda>c. scalar (char_code c) \<and> units (char_code c) = replace_char c) (chars t)"
    using scalar_char_code [OF _ t(1)] by (simp add: list_all_iff)
  have "decode_stream (encode_code 65279) (decoder_ready True) = (decoder_ready False, [])"
    using decode_code [of 65279 True] bom by (simp add: scalar_def)
  then have "utf8_decode (utf8_encode s) = repaired t"
    using decode_chars [OF all] bom
    by (simp add: utf8_decode_def utf8_encode_def cs repaired_def decoder_init_ready decode_stream_append decode_flush_def)
      (simp add: decoder_ready_def)
  with s t(2) show ?thesis by (simp add: repaired_well_formed)
qed

lemma sound_parts:
  assumes "sound_text s" "chars s = cs @ ds"
  shows "sound_text (concat cs)" "sound_text (concat ds)" "s = concat cs @ concat ds"
proof -
  show s: "s = concat cs @ concat ds" by (metis assms(2) concat_append concat_chars)
  have "chars (concat cs) = cs" "chars (concat ds) = ds" using chars_split [OF assms(2)] by auto
  moreover have "\<not> list_ex unpaired (cs @ ds)" using assms by (simp add: sound_text_def well_formed_def)
  ultimately show "sound_text (concat cs)" "sound_text (concat ds)"
    using assms(1) unfolding sound_text_def well_formed_def by (auto simp: s)
qed

text \<open>A cut buffer is an end of the buffer with nearly as many bytes as asked for.\<close>

lemma trim_tail:
  assumes "sound_text s" "utf8ByteLength s > g"
  obtains x b where "s = x @ b" "trimToLastUtf8Bytes s g = b" "sound_text x" "sound_text b"
    "g \<le> utf8ByteLength b + 6"
proof -
  let ?bss = "map (\<lambda>c. encode_code (char_code c)) (chars s)"
  let ?n = "utf8ByteLength s - g"
  have blocks: "list_all char_block ?bss"
    using encode_code_shape by (auto simp: list_all_iff char_block_def)
  have enc: "utf8_encode s = concat ?bss" by (simp add: utf8_encode_def)
  obtain k where k: "dropWhile continuation (drop ?n (utf8_encode s)) = concat (drop k ?bss)"
      "utf8ByteLength s \<le> ?n + 3 + length (concat (drop k ?bss))"
    using drop_to_boundary [OF blocks, of ?n] unfolding enc [symmetric] utf8ByteLength_def by auto
  let ?cs = "take k (chars s)" and ?ds = "drop k (chars s)"
  have split: "chars s = ?cs @ ?ds" by simp
  note parts = sound_parts [OF assms(1) split]
  have cds: "chars (concat ?cs) = ?cs" "chars (concat ?ds) = ?ds" using chars_split [OF split] by auto
  have encd: "utf8_encode (concat ?ds) = concat (drop k ?bss)"
    by (simp add: utf8_encode_def cds drop_map)
  let ?b = "concat ?ds"
  have trim: "trimToLastUtf8Bytes s g = (if ?b \<noteq> [] \<and> hd ?b = 65279 then tl ?b else ?b)"
    using assms(2) k(1) encd utf8_decode_chars [OF parts(2)]
    by (simp add: trimToLastUtf8Bytes_def utf8ByteLength_def Let_def)
  have le: "g \<le> utf8ByteLength ?b + 3" using k(2) assms(2) encd by (simp add: utf8ByteLength_def)
  show thesis
  proof (cases "?b \<noteq> [] \<and> hd ?b = 65279")
    case False
    with trim have "trimToLastUtf8Bytes s g = ?b" by auto
    with parts le show thesis by (intro that [of "concat ?cs" ?b]) simp_all
  next
    case True
    then obtain t where t: "?b = 65279 # t" by (cases ?b) auto
    have one: "chars ?b = [65279] # chars t"
      by (simp add: t chars_Cons hi_surrogate_def)
    then have sound: "sound_text [65279]" "sound_text t"
      using sound_parts [OF parts(2), of "[[65279]]" "chars t"] by simp_all
    have "utf8ByteLength ?b = 3 + utf8ByteLength t"
      by (simp add: utf8ByteLength_def length_utf8_encode one)
    moreover have "s = (concat ?cs @ [65279]) @ t" using parts(3) t by simp
    moreover have "trimToLastUtf8Bytes s g = t" using trim True t by simp
    ultimately show thesis
      using le sound parts(1) by (intro that [of "concat ?cs @ [65279]" t] sound_append) simp_all
  qed
qed

subsection \<open>Truncating a cut text\<close>

lemma fit_count_prefix:
  "sum_list (map char_bytes cs) > n \<Longrightarrow> fit_count (cs @ ds) n = fit_count cs n \<and> fit_count cs n \<le> length cs"
proof (induction cs arbitrary: n)
  case (Cons c cs)
  show ?case
  proof (cases "char_bytes c > n")
    case False
    with Cons.prems Cons.IH [of "n - char_bytes c"] show ?thesis by simp
  qed simp
qed simp

lemma truncate_from_end_suffix:
  assumes "sound_text x" "units_ok b" "utf8ByteLength b > n"
  shows "truncateStringToBytesFromEnd (x @ b) n = truncateStringToBytesFromEnd b n"
proof -
  have cs: "chars (x @ b) = chars x @ chars b"
    using assms(1) by (intro chars_append well_formed_no_join) (simp add: sound_text_def)
  have "sum_list (map char_bytes (rev (chars b))) > n"
    using assms(3) by (simp add: utf8ByteLength_def length_utf8_encode flip: rev_map)
  from fit_count_prefix [OF this, of "rev (chars x)"]
  have "take (fit_count (rev (chars (x @ b))) n) (rev (chars (x @ b))) = take (fit_count (rev (chars b)) n) (rev (chars b))"
    by (simp add: cs)
  moreover have "units_ok (x @ b)" using assms by (simp add: sound_text_def)
  ultimately show ?thesis
    using assms(2) by (simp add: truncate_from_end_eq)
qed

text \<open>Two runs over the lines from the last one agree when they differ only from a line on that
  does not fit any more.\<close>

lemma tail_lines_cut:
  assumes "bytes + sum_list (map utf8ByteLength us) + utf8ByteLength l + length us + (if out \<noteq> [] then 1 else 0) > maxBytes lm"
    and "utf8ByteLength l \<le> utf8ByteLength l'"
    and "us = [] \<Longrightarrow> out = [] \<Longrightarrow> truncateStringToBytesFromEnd l' (maxBytes lm) = truncateStringToBytesFromEnd l (maxBytes lm)"
  shows "tail_lines lm (us @ l # ws) out bytes = tail_lines lm (us @ l' # ws') out bytes"
  using assms
proof (induction us arbitrary: out bytes)
  case Nil
  then show ?case by (auto simp: Let_def)
next
  case (Cons u us)
  let ?b = "utf8ByteLength u + (if out \<noteq> [] then 1 else 0)"
  have "tail_lines lm (us @ l # ws) (u # out) (bytes + ?b) = tail_lines lm (us @ l' # ws') (u # out) (bytes + ?b)"
    using Cons.prems(1,2) by (intro Cons.IH) auto
  then show ?case by (simp add: Let_def)
qed

lemma split_on_append_any:
  "split_on c (a @ b) = butlast (split_on c a) @ (last (split_on c a) @ hd (split_on c b)) # tl (split_on c b)"
proof (induction a)
  case (Cons x a)
  obtain p ps where p: "split_on c a = p # ps" by (cases "split_on c a") auto
  with Cons show ?case by (cases "x = c"; cases ps) auto
qed simp

lemma split_lines_append:
  assumes "b \<noteq> []"
  shows "splitLinesForCounting (a @ b) = butlast (split_on newline_unit a) @
    (last (split_on newline_unit a) @ hd (splitLinesForCounting b)) # tl (splitLinesForCounting b)"
proof (cases "last b = newline_unit")
  case True
  then obtain t where t: "b = t @ [newline_unit]" using assms by (metis append_butlast_last_id)
  have "splitLinesForCounting (a @ b) = split_on newline_unit (a @ t)"
    using split_lines_snoc [of "a @ t"] by (simp add: t)
  then show ?thesis by (simp add: t split_lines_snoc split_on_append_any)
next
  case False
  with assms show ?thesis by (simp add: splitLinesForCounting_def split_on_append_any)
qed

lemma last_line_suffix: "\<exists>p. s = p @ last (split_on c s) \<and> (p = [] \<or> last p = c)"
proof (induction s)
  case (Cons x s)
  then obtain p where p: "s = p @ last (split_on c s)" "p = [] \<or> last p = c" by blast
  obtain q qs where q: "split_on c s = q # qs" by (cases "split_on c s") auto
  show ?case
  proof (cases "x = c")
    case True
    with p q show ?thesis by (intro exI [of _ "x # p"]) auto
  next
    case False
    show ?thesis
    proof (cases qs)
      case Nil
      with q have "c \<notin> set s" using length_split_on [of c s] by (auto simp: count_list_0_iff)
      then show ?thesis using False by (intro exI [of _ "[]"]) (simp add: split_on_single)
    next
      case (Cons r rs)
      with p q False have "p \<noteq> []" by (metis append_Nil split_on_single split_on_parts last_in_set list.distinct(1) split_on_nonempty list.inject)
      with p q False Cons show ?thesis by (intro exI [of _ "x # p"]) auto
    qed
  qed
qed simp

lemma sound_last_line: "sound_text s \<Longrightarrow> sound_text (last (split_on newline_unit s))"
proof -
  assume s: "sound_text s"
  let ?x = "last (split_on newline_unit s)"
  from last_line_suffix [of s newline_unit] obtain p where p: "s = p @ ?x" "p = [] \<or> last p = newline_unit" by blast
  have "\<not> joins p ?x"
    using p(2) by (auto simp: joins_def newline_unit_def hi_surrogate_def)
  then have "chars (p @ ?x) = chars p @ chars ?x" by (rule chars_append)
  then have "chars s = chars p @ chars ?x" using p(1) by simp
  from sound_parts [OF s this] show ?thesis by simp
qed

lemma body_bytes: "s \<noteq> [] \<Longrightarrow> utf8ByteLength s \<le> utf8ByteLength (body s) + 1"
proof (cases "s \<noteq> [] \<and> last s = newline_unit")
  case True
  then obtain t where t: "s = t @ newline_unit # []" by (metis append_butlast_last_id)
  have "utf8ByteLength s = utf8ByteLength t + 1" unfolding t by (subst bytes_newline) simp
  moreover have "body s = t" by (simp add: body_def t)
  ultimately show ?thesis by simp
qed (simp add: body_def)

text \<open>Cutting off the front of a text does not change its truncated tail, as long as more than the
  limit remains.\<close>

lemma truncateTail_cut:
  assumes "sound_text x" "sound_text b" "utf8ByteLength b > maxBytes lm + 1"
  shows "out_content (truncateTail lm (x @ b)) = out_content (truncateTail lm b) \<and>
    outputLines (truncateTail lm (x @ b)) = outputLines (truncateTail lm b) \<and>
    outputBytes (truncateTail lm (x @ b)) = outputBytes (truncateTail lm b) \<and>
    lastLinePartial (truncateTail lm (x @ b)) = lastLinePartial (truncateTail lm b)"
proof -
  have b: "b \<noteq> []" using assms(3) by auto
  obtain b0 bs where lb: "splitLinesForCounting b = b0 # bs"
    using split_lines_nonempty [OF b] by (cases "splitLinesForCounting b") auto
  define x0 where "x0 = last (split_on newline_unit x)"
  have lxb: "splitLinesForCounting (x @ b) = butlast (split_on newline_unit x) @ (x0 @ b0) # bs"
    using split_lines_append [OF b, of x] by (simp add: lb x0_def)
  have "utf8ByteLength (body b) = sum_list (map utf8ByteLength (b0 # bs)) + length bs"
    using bytes_join [of "b0 # bs"] split_lines_join [OF b] lb by simp
  then have total: "sum_list (map utf8ByteLength (rev bs)) + utf8ByteLength b0 + length bs > maxBytes lm"
    using body_bytes [OF b] assms(3) by (simp flip: rev_map)
  have sx: "sound_text x0" unfolding x0_def by (rule sound_last_line [OF assms(1)])
  have ge: "utf8ByteLength b0 \<le> utf8ByteLength (x0 @ b0)"
    using bytes_append [of x0 b0] sx by (simp add: sound_text_def)
  have ok: "units_ok b0" using lines_units_ok [of b] assms(2) lb by (simp add: sound_text_def)
  have part: "truncateStringToBytesFromEnd (x0 @ b0) (maxBytes lm) = truncateStringToBytesFromEnd b0 (maxBytes lm)"
    if "rev bs = []"
    using total that by (intro truncate_from_end_suffix sx ok) simp
  have same: "tail_lines lm (rev (splitLinesForCounting b)) [] 0 = tail_lines lm (rev (splitLinesForCounting (x @ b))) [] 0"
    using tail_lines_cut [where bytes = 0 and us = "rev bs" and l = b0 and l' = "x0 @ b0" and out = "[]" and lm = lm
        and ws = "[]" and ws' = "rev (butlast (split_on newline_unit x))"] total ge part
    by (simp add: lb lxb)
  have "\<not> within_limits lm b" "\<not> within_limits lm (x @ b)"
    using assms(3) bytes_append [of x b] assms(1) by (auto simp: within_limits_def sound_text_def)
  then show ?thesis
    by (simp add: truncateTail_def Let_def same split: prod.split)
qed

subsection \<open>The whole output\<close>

text \<open>The text a sequence of events hands to the capture.\<close>

fun captured :: "decoder \<Rightarrow> capture_event list \<Rightarrow> jstring" where
  "captured d [] = []"
| "captured d (PushE (BytesChunk bs) # evs) = (let (d1, out) = decode_stream bs d in out @ captured d1 evs)"
| "captured d (PushE (TextChunk t) # evs) = (let (d1, out) = decode_flush d in out @ t @ captured d1 evs)"
| "captured d (FinishE # evs) = (let (d1, out) = decode_flush d in out @ captured d1 evs)"
| "captured d (DisposeE # evs) = []"
| "captured d (SpillE p # evs) = captured d evs"
| "captured d (FlushE # evs) = captured d evs"
| "captured d (TimerE # evs) = captured d evs"

text \<open>The snapshot computed from the whole output.\<close>

definition reference_snapshot :: "limits \<Rightarrow> jstring \<Rightarrow> string option \<Rightarrow> shell_output" where
  "reference_snapshot lm out path =
     (let r = truncateTail lm out in
      \<lparr>out_text = sanitizeShellOutput (out_content r),
       out_meta = \<lparr>
         meta_truncation = r\<lparr>out_content := [],
           truncatedBy := (if truncated r then Some (if totalLines r > maxLines lm then ByLines else ByBytes) else None)\<rparr>,
         spillPath = path,
         lastLineBytes = (if lastLinePartial r then Some (utf8ByteLength (last (split_on newline_unit out))) else None)\<rparr>\<rparr>)"

text \<open>The state of a capture after the text \<open>out\<close>.\<close>

definition tracks :: "capture_options \<Rightarrow> jstring \<Rightarrow> capture \<Rightarrow> bool" where
  "tracks opt out c \<longleftrightarrow>
     sound_text out \<and> decoder_ok (cap_decoder c) \<and>
     cap_totalBytes c = utf8ByteLength out \<and> newlines c = count_list out newline_unit \<and>
     endsWithNewline c = (out = [] \<or> last out = newline_unit) \<and>
     currentLineBytes c = utf8ByteLength (last (split_on newline_unit out)) \<and>
     bufferBytes c = utf8ByteLength (cap_buffer c) \<and>
     (\<exists>x. out = x @ cap_buffer c \<and> sound_text x \<and> sound_text (cap_buffer c) \<and>
        (x \<noteq> [] \<longrightarrow> 2 * maxBytes (cap_limits opt) \<le> utf8ByteLength (cap_buffer c) + 6))"

lemma bytes_0_iff [simp]: "utf8ByteLength s = 0 \<longleftrightarrow> s = []"
proof
  assume "utf8ByteLength s = 0"
  then have "\<forall>c \<in> set (chars s). char_bytes c = 0" by (simp add: utf8ByteLength_def length_utf8_encode)
  moreover have "char_bytes c > 0" for c by (simp add: char_bytes_def encode_code_def)
  ultimately have "chars s = []" by (metis last_in_set less_irrefl)
  then show "s = []" by simp
qed simp

lemma length_split_lines:
  "length (splitLinesForCounting s) =
     count_list s newline_unit + (if (s = [] \<or> last s = newline_unit) \<or> utf8ByteLength s = 0 then 0 else 1)"
proof (cases "s \<noteq> [] \<and> last s = newline_unit")
  case True
  then obtain t where t: "s = t @ [newline_unit]" by (metis append_butlast_last_id)
  then show ?thesis by (simp add: split_lines_snoc length_split_on)
next
  case False
  then show ?thesis by (cases "s = []") (simp_all add: splitLinesForCounting_def length_split_on)
qed

lemma lastIndexOf_none: "lastIndexOf_char t c = None \<longleftrightarrow> c \<notin> set t"
  by (induction t) (auto split: option.splits)

lemma last_line_append:
  "last (split_on c (s @ t)) =
     (case lastIndexOf_char t c of None \<Rightarrow> last (split_on c s) @ t | Some i \<Rightarrow> drop (Suc i) t)"
proof (cases "lastIndexOf_char t c")
  case None
  then have "split_on c t = [t]" by (simp add: lastIndexOf_none split_on_single)
  with None show ?thesis by (simp add: split_on_append_any)
next
  case (Some i)
  note at = lastIndexOf_char_Some [OF Some]
  have t: "t = take i t @ c # drop (Suc i) t" using at id_take_nth_drop [of i t] by simp
  have "split_on c (s @ t) = split_on c (s @ take i t) @ [drop (Suc i) t]"
    using split_on_append [of c "s @ take i t" "drop (Suc i) t"] at t
    by (simp add: split_on_single)
  with Some show ?thesis by simp
qed

lemma count_list_append_any: "count_list (a @ b) c = count_list a c + count_list b c"
  by (induction a) auto

lemma tracks_append:
  assumes "tracks opt out c" "sound_text t" "t \<noteq> []" "cap_retain opt = RetainTail"
  shows "tracks opt (out @ t) (append_counts opt t c)"
proof -
  let ?c = "append_counts opt t c" and ?buf = "cap_buffer c @ t" and ?guard = "2 * maxBytes (cap_limits opt)"
  obtain x where x: "out = x @ cap_buffer c" "sound_text x" "sound_text (cap_buffer c)"
      "x \<noteq> [] \<longrightarrow> ?guard \<le> utf8ByteLength (cap_buffer c) + 6"
    using assms(1) by (auto simp: tracks_def)
  have sound: "sound_text out" and counts: "cap_totalBytes c = utf8ByteLength out" "newlines c = count_list out newline_unit"
      "currentLineBytes c = utf8ByteLength (last (split_on newline_unit out))" "bufferBytes c = utf8ByteLength (cap_buffer c)"
    using assms(1) by (simp_all add: tracks_def)
  have add: "sound_text s \<Longrightarrow> utf8ByteLength (s @ t) = utf8ByteLength s + utf8ByteLength t" for s
    by (simp add: sound_text_def bytes_append)
  have line: "currentLineBytes ?c = utf8ByteLength (last (split_on newline_unit (out @ t)))"
    using counts(3) add [OF sound_last_line [OF sound]]
    by (simp add: append_counts_def Let_def last_line_append split: option.split)
  have buf: "cap_buffer ?c = (if utf8ByteLength ?buf > 2 * ?guard then trimToLastUtf8Bytes ?buf ?guard else ?buf)"
      "bufferBytes ?c = utf8ByteLength (cap_buffer ?c)"
    using assms(4) counts(4) add [OF x(3)] by (simp_all add: append_counts_def Let_def mult.commute)
  have "\<exists>y. out @ t = y @ cap_buffer ?c \<and> sound_text y \<and> sound_text (cap_buffer ?c) \<and>
      (y \<noteq> [] \<longrightarrow> ?guard \<le> utf8ByteLength (cap_buffer ?c) + 6)"
  proof (cases "utf8ByteLength ?buf > 2 * ?guard")
    case True
    have "sound_text ?buf" using x(3) assms(2) by (rule sound_append)
    then obtain y b where "?buf = y @ b" "trimToLastUtf8Bytes ?buf ?guard = b" "sound_text y" "sound_text b"
        "?guard \<le> utf8ByteLength b + 6"
      using trim_tail [of ?buf ?guard] True by auto
    with True x(1,2) buf(1) show ?thesis
      by (intro exI [of _ "x @ y"]) (simp add: sound_append)
  next
    case False
    with x buf(1) add [OF x(3)] assms(2) show ?thesis
      by (intro exI [of _ x]) (auto simp: sound_append)
  qed
  moreover have "cap_totalBytes ?c = utf8ByteLength (out @ t)" "newlines ?c = count_list (out @ t) newline_unit"
      "endsWithNewline ?c = (out @ t = [] \<or> last (out @ t) = newline_unit)" "cap_decoder ?c = cap_decoder c"
    using counts add [OF sound] assms(3)
    by (simp_all add: append_counts_def Let_def countNewlines_def count_list_append_any)
  moreover have "decoder_ok (cap_decoder c)" using assms(1) by (simp add: tracks_def)
  ultimately show ?thesis
    using line buf(2) sound_append [OF sound assms(2)] by (simp add: tracks_def)
qed

lemma with_publisher_keeps:
  "tracks opt out (fst (with_publisher f opt c)) = tracks opt out c"
  "cap_disposed (fst (with_publisher f opt c)) = cap_disposed c"
  "cap_decoder (fst (with_publisher f opt c)) = cap_decoder c"
  by (simp_all add: with_publisher_def tracks_def split: prod.split)

lemma tracks_appendText:
  assumes "tracks opt out c" "sound_text t" "cap_retain opt = RetainTail"
  shows "tracks opt (out @ t) (fst (appendText sz opt now t c))"
  using assms tracks_append [OF assms(1,2) _ assms(3)]
  by (cases "t = []") (simp_all add: appendText_def with_publisher_keeps)

lemma appendText_keeps [simp]:
  "cap_disposed (fst (appendText sz opt now t c)) = cap_disposed c"
  "cap_decoder (fst (appendText sz opt now t c)) = cap_decoder c"
  by (simp_all add: appendText_def with_publisher_keeps append_counts_def Let_def)

lemma tracks_decoder: "tracks opt out c \<Longrightarrow> decoder_ok d \<Longrightarrow> tracks opt out (c\<lparr>cap_decoder := d\<rparr>)"
  by (simp add: tracks_def)

lemma flush_keeps [simp]:
  "tracks opt out (fst (flush_capture sz opt now c)) = tracks opt out c"
  "cap_disposed (fst (flush_capture sz opt now c)) = cap_disposed c"
  "cap_decoder (fst (flush_capture sz opt now c)) = cap_decoder c"
  by (simp_all add: flush_capture_def with_publisher_keeps)

lemma spill_keeps [simp]:
  "tracks opt out (fst (setSpillPath sz opt now p c)) = tracks opt out c"
  "cap_disposed (fst (setSpillPath sz opt now p c)) = cap_disposed c"
  "cap_decoder (fst (setSpillPath sz opt now p c)) = cap_decoder c"
proof -
  obtain c1 us where c1: "with_publisher (markDirty (publish_options sz) now) opt (c\<lparr>cap_spillPath := Some p\<rparr>) = (c1, us)"
    by (cases "with_publisher (markDirty (publish_options sz) now) opt (c\<lparr>cap_spillPath := Some p\<rparr>)")
  have "tracks opt out (c\<lparr>cap_spillPath := Some p\<rparr>) = tracks opt out c" by (simp add: tracks_def)
  with with_publisher_keeps [where f = "markDirty (publish_options sz) now" and opt = opt
      and c = "c\<lparr>cap_spillPath := Some p\<rparr>"] c1
  have "tracks opt out c1 = tracks opt out c" "cap_disposed c1 = cap_disposed c" "cap_decoder c1 = cap_decoder c"
    by simp_all
  then show "tracks opt out (fst (setSpillPath sz opt now p c)) = tracks opt out c"
    "cap_disposed (fst (setSpillPath sz opt now p c)) = cap_disposed c"
    "cap_decoder (fst (setSpillPath sz opt now p c)) = cap_decoder c"
    using flush_keeps [where sz = sz and opt = opt and now = now and c = c1]
    by (simp_all add: setSpillPath_def c1 case_prod_beta)
qed

fun sound_event :: "capture_event \<Rightarrow> bool" where
  "sound_event (PushE (TextChunk t)) = sound_text t"
| "sound_event _ = True"

text \<open>What one event adds to the output, and the decoder after it.\<close>

fun event_text :: "decoder \<Rightarrow> capture_event \<Rightarrow> decoder \<times> jstring" where
  "event_text d (PushE (BytesChunk bs)) = decode_stream bs d"
| "event_text d (PushE (TextChunk t)) = (let (d1, out) = decode_flush d in (d1, out @ t))"
| "event_text d FinishE = decode_flush d"
| "event_text d ev = (d, [])"

lemma capture_step_tracks:
  assumes "tracks opt out c" "sound_event ev" "cap_retain opt = RetainTail" "\<not> cap_disposed c"
    and "event_text (cap_decoder c) ev = (d, t)" "ev \<noteq> DisposeE"
  shows "tracks opt (out @ t) (fst (capture_step sz opt (now, ev) c)) \<and>
    cap_decoder (fst (capture_step sz opt (now, ev) c)) = d \<and> \<not> cap_disposed (fst (capture_step sz opt (now, ev) c))"
proof -
  have dok: "decoder_ok (cap_decoder c)" using assms(1) by (simp add: tracks_def)
  show ?thesis
  proof (cases ev)
    case (PushE ch)
    show ?thesis
    proof (cases ch)
      case (BytesChunk bs)
      then have dec: "decode_stream bs (cap_decoder c) = (d, t)" using assms(5) PushE by simp
      from decode_stream_ok [OF dok dec] tracks_appendText [OF tracks_decoder [OF assms(1)] _ assms(3)]
      show ?thesis using assms(4) dec by (simp add: capture_step_def PushE BytesChunk push_chunk_def)
    next
      case (TextChunk u)
      obtain rest where dec: "decode_flush (cap_decoder c) = (d, rest)" and t: "t = rest @ u"
        using assms(5) PushE TextChunk by (auto split: prod.splits)
      obtain c1 us where c1: "appendText sz opt now rest (c\<lparr>cap_decoder := d\<rparr>) = (c1, us)"
        by (cases "appendText sz opt now rest (c\<lparr>cap_decoder := d\<rparr>)")
      have c1t: "tracks opt (out @ rest) c1" "cap_decoder c1 = d" "\<not> cap_disposed c1"
        using decode_flush_ok [OF dec] tracks_appendText [OF tracks_decoder [OF assms(1), of d] _ assms(3), where t = rest and sz = sz and now = now]
          appendText_keeps [where sz = sz and opt = opt and now = now and t = rest and c = "c\<lparr>cap_decoder := d\<rparr>"] assms(4)
        by (simp_all add: c1)
      have "sound_text u" using assms(2) PushE TextChunk by simp
      with c1t tracks_appendText [OF c1t(1) _ assms(3), where t = u] show ?thesis
        using assms(4) by (simp add: capture_step_def PushE TextChunk push_chunk_def dec c1 t case_prod_beta)
    qed
  next
    case FinishE
    then have dec: "decode_flush (cap_decoder c) = (d, t)" using assms(5) by simp
    from decode_flush_ok [OF dec] tracks_appendText [OF tracks_decoder [OF assms(1)] _ assms(3)]
    show ?thesis using assms(4) dec by (simp add: capture_step_def FinishE finish_capture_def)
  next
    case TimerE
    with assms show ?thesis by (simp add: capture_step_def with_publisher_keeps)
  qed (use assms in \<open>simp_all add: capture_step_def\<close>)
qed

lemma tracks_dispose: "tracks opt out (dispose_capture c) = tracks opt out c" "cap_disposed (dispose_capture c)"
  by (simp_all add: tracks_def dispose_capture_def)

lemma disposed_step:
  assumes "cap_disposed c"
  shows "tracks opt out (fst (capture_step sz opt (now, ev) c)) = tracks opt out c \<and>
    cap_disposed (fst (capture_step sz opt (now, ev) c))"
  using assms
  by (cases ev) (simp_all add: capture_step_def push_chunk_def finish_capture_def with_publisher_keeps tracks_dispose)

lemma disposed_run:
  "cap_disposed c \<Longrightarrow> tracks opt out (fst (capture_run sz opt evs c)) = tracks opt out c"
proof (induction evs arbitrary: c)
  case (Cons ev evs)
  obtain now e where ev: "ev = (now, e)" by (cases ev)
  obtain c1 us where c1: "capture_step sz opt ev c = (c1, us)" by (cases "capture_step sz opt ev c")
  with disposed_step [OF Cons.prems, where sz = sz and opt = opt and now = now and ev = e and out = out]
  have "cap_disposed c1" "tracks opt out c1 = tracks opt out c" by (simp_all add: ev)
  with Cons.IH [of c1] c1 show ?case by (simp add: case_prod_beta)
qed simp

lemma captured_step: "ev \<noteq> DisposeE \<Longrightarrow> captured d (ev # evs) = snd (event_text d ev) @ captured (fst (event_text d ev)) evs"
  by (cases "(d, ev)" rule: event_text.cases) (simp_all add: case_prod_beta)

lemma capture_run_tracks:
  assumes "tracks opt out c" "list_all (\<lambda>ev. sound_event (snd ev)) evs" "cap_retain opt = RetainTail" "\<not> cap_disposed c"
  shows "tracks opt (out @ captured (cap_decoder c) (map snd evs)) (fst (capture_run sz opt evs c))"
  using assms(1,2,4)
proof (induction evs arbitrary: c out)
  case (Cons ev evs)
  obtain now e where ev: "ev = (now, e)" by (cases ev)
  obtain c1 us where c1: "capture_step sz opt ev c = (c1, us)" by (cases "capture_step sz opt ev c")
  show ?case
  proof (cases "e = DisposeE")
    case True
    then have "cap_disposed c1" "tracks opt out c1"
      using c1 Cons.prems(1) by (auto simp: ev capture_step_def dispose_capture_def tracks_def)
    with disposed_run [of c1 opt out sz evs] c1 True show ?thesis by (simp add: ev case_prod_beta)
  next
    case False
    obtain d t where dt: "event_text (cap_decoder c) e = (d, t)" by (cases "event_text (cap_decoder c) e")
    from capture_step_tracks [OF Cons.prems(1) _ assms(3) Cons.prems(3) dt False, of sz now] Cons.prems(2) c1
    have "tracks opt (out @ t) c1" "cap_decoder c1 = d" "\<not> cap_disposed c1" by (simp_all add: ev)
    with Cons.IH [of "out @ t" c1] Cons.prems(2) c1 dt captured_step [OF False] show ?thesis
      by (simp add: ev case_prod_beta)
  qed
qed simp

lemma tracks_init: "tracks opt [] capture_init"
  by (simp add: tracks_def capture_init_def)

lemma tracks_snapshot:
  assumes "tracks opt out c" "cap_retain opt = RetainTail" "8 \<le> maxBytes (cap_limits opt)"
  shows "snapshot opt c = reference_snapshot (cap_limits opt) out (cap_spillPath c)"
proof -
  let ?lm = "cap_limits opt"
  obtain x where x: "out = x @ cap_buffer c" "sound_text x" "sound_text (cap_buffer c)"
      "x \<noteq> [] \<longrightarrow> 2 * maxBytes ?lm \<le> utf8ByteLength (cap_buffer c) + 6"
    using assms(1) by (auto simp: tracks_def)
  have lines: "cap_totalLines c = length (splitLinesForCounting out)"
    using assms(1) length_split_lines [of out] by (simp add: cap_totalLines_def tracks_def)
  have trunc: "cap_truncated ?lm c = (\<not> within_limits ?lm out)" and bytes: "cap_totalBytes c = utf8ByteLength out"
    using assms(1) lines by (auto simp: cap_truncated_def within_limits_def tracks_def)
  have line: "currentLineBytes c = utf8ByteLength (last (split_on newline_unit out))"
    using assms(1) by (simp add: tracks_def)
  have fields: "truncated (truncateTail ?lm s) = (\<not> within_limits ?lm s)" "totalLines (truncateTail ?lm s) = length (splitLinesForCounting s)"
      "totalBytes (truncateTail ?lm s) = utf8ByteLength s" "\<not> firstLineExceedsLimit (truncateTail ?lm s)"
      "trunc_limits (truncateTail ?lm s) = ?lm" for s
    by (simp_all add: truncateTail_def untruncated_def Let_def case_prod_beta)
  have "out_content (truncateTail ?lm out) = out_content (truncateTail ?lm (cap_buffer c)) \<and>
    outputLines (truncateTail ?lm out) = outputLines (truncateTail ?lm (cap_buffer c)) \<and>
    outputBytes (truncateTail ?lm out) = outputBytes (truncateTail ?lm (cap_buffer c)) \<and>
    lastLinePartial (truncateTail ?lm out) = lastLinePartial (truncateTail ?lm (cap_buffer c))"
  proof (cases "x = []")
    case False
    then have "utf8ByteLength (cap_buffer c) > maxBytes ?lm + 1" using x(4) assms(3) by simp
    from truncateTail_cut [OF x(2,3) this] show ?thesis by (simp add: x(1))
  qed (simp add: x(1))
  then show ?thesis
    by (simp add: snapshot_def reference_snapshot_def retained_def assms(2) Let_def lines trunc bytes line fields)
qed

text \<open>C12. A capture that keeps the tail of the output shows, whatever arrives and in whatever
  pieces, exactly the snapshot computed from everything that was printed: the text, the
  counts, the flags and the size of the last line are those of the whole output, although the
  capture keeps at most four times its byte limit of it.\<close>

theorem capture_exact:
  assumes "cap_retain opt = RetainTail" "8 \<le> maxBytes (cap_limits opt)"
    and "list_all (\<lambda>ev. sound_event (snd ev)) evs"
    and "capture_run sz opt evs capture_init = (c, us)"
  shows "snapshot opt c =
      reference_snapshot (cap_limits opt) (captured decoder_init (map snd evs)) (cap_spillPath c)"
proof -
  have "tracks opt ([] @ captured (cap_decoder capture_init) (map snd evs)) c"
    using capture_run_tracks [OF tracks_init assms(3,1), of sz] assms(4)
    by (simp add: capture_init_def)
  then show ?thesis
    using tracks_snapshot [OF _ assms(1,2)] by (simp add: capture_init_def)
qed

text \<open>Three lines against a limit of two, in byte chunks that split a character.\<close>

theorem capture_exact_witness:
  "\<exists>c us. capture_run (\<lambda>u. 0) \<lparr>cap_limits = \<lparr>maxLines = 2, maxBytes = 8\<rparr>, cap_retain = RetainTail\<rparr>
       [(0, PushE (BytesChunk [97, 10, 98, 195])), (1, PushE (BytesChunk [169, 10, 99])), (2, FinishE)] capture_init = (c, us) \<and>
     captured decoder_init [PushE (BytesChunk [97, 10, 98, 195]), PushE (BytesChunk [169, 10, 99]), FinishE] = [97, 10, 98, 233, 10, 99] \<and>
     snapshot \<lparr>cap_limits = \<lparr>maxLines = 2, maxBytes = 8\<rparr>, cap_retain = RetainTail\<rparr> c =
       reference_snapshot \<lparr>maxLines = 2, maxBytes = 8\<rparr> [97, 10, 98, 233, 10, 99] (cap_spillPath c)"
proof -
  let ?opt = "\<lparr>cap_limits = \<lparr>maxLines = 2, maxBytes = 8\<rparr>, cap_retain = RetainTail\<rparr>"
  let ?evs = "[(0, PushE (BytesChunk [97, 10, 98, 195])), (1, PushE (BytesChunk [169, 10, 99])), (2, FinishE)]"
  have text_of: "captured decoder_init (map snd ?evs) = [97, 10, 98, 233, 10, 99]"
    by (simp add: decode_byte_def decode_lead_def emit_code_def decoder_init_def decode_flush_def decoder_ready_def units_def)
  obtain c us where run: "capture_run (\<lambda>u. 0) ?opt ?evs capture_init = (c, us)"
    by (cases "capture_run (\<lambda>u. 0) ?opt ?evs capture_init")
  from capture_exact [OF _ _ _ run] run text_of show ?thesis by simp
qed

text \<open>The size reported for a cut last line is that of the text after the last newline: when the
  output ends in a newline it is 0, although the line that was cut is longer than the limit.\<close>

lemma cut_line_reported_empty:
  "let s = reference_snapshot \<lparr>maxLines = 5, maxBytes = 1\<rparr> [97, 97, newline_unit] None in
   lastLinePartial (meta_truncation (out_meta s)) \<and> lastLineBytes (out_meta s) = Some 0 \<and> out_text s = [97]"
proof -
  have "truncateStringToBytesFromEnd [97, 97] 1 = [97]"
    by (simp add: truncate_from_end_eq truncate_eval char_bytes_def repaired_def replace_char_def unpaired_def)
  then show ?thesis
    by (simp add: reference_snapshot_def truncateTail_def truncate_eval sanitizeShellOutput_def INVALID_SHELL_OUTPUT_def)
qed

end
