(* ===== verification/Shell_Exec.thy ===== *)
theory Shell_Exec
  imports Capture_Tail
begin

text \<open>
  Running a shell command (\<open>NodeExecutionEnv.exec\<close> in \<open>bridge.mjs\<close>): the output of the child is fed to an
  \<open>OutputCapture\<close>; as soon as it is truncated the whole output, from its first chunk on, is
  written to a spill file; when the child has closed, the call settles once. The model is a
  machine over the events of a run. Pausing the child while a write is pending changes only when
  events happen and is left out, as are starting and killing the process.
\<close>

datatype exec_error = ExecutionError string jstring

text \<open>The time limit in milliseconds; it must fit a timer of 31 bits.\<close>

definition MAX_TIMEOUT_MS :: rat where
  "MAX_TIMEOUT_MS = 2147483647"

definition resolveTimeoutMs :: "jsnum option \<Rightarrow> (exec_error, rat option) result" where
  "resolveTimeoutMs timeout =
     (case timeout of
        None \<Rightarrow> Inr None
      | Some (Num t) \<Rightarrow>
          (if t \<le> 0 then Inl (ExecutionError ''timeout'' (js_text ''Invalid timeout: must be a finite number of seconds''))
           else if t * 1000 > MAX_TIMEOUT_MS
           then Inl (ExecutionError ''timeout'' (js_text ''Invalid timeout: maximum is 2147483.647 seconds''))
           else Inr (Some (t * 1000)))
      | Some _ \<Rightarrow> Inl (ExecutionError ''timeout'' (js_text ''Invalid timeout: must be a finite number of seconds'')))"

record exec_value =
  exitCode :: int
  ev_meta :: output_meta

record shell_exec =
  sh_capture :: capture
  spillPrefix :: "nat list list"
  spillQueue :: "nat list list"
  spillStarted :: bool
  spillStream :: "string option"
  spillFile :: "nat list"
  callbackError :: "exec_error option"
  spillError :: "exec_error option"
  timedOut :: bool
  sh_settled :: "(exec_error, exec_value) result option"

definition shell_init :: shell_exec where
  "shell_init = \<lparr>sh_capture = capture_init, spillPrefix = [], spillQueue = [], spillStarted = False, spillStream = None,
     spillFile = [], callbackError = None, spillError = None, timedOut = False, sh_settled = None\<rparr>"

text \<open>\<open>writeSpill\<close> appends to the file; \<open>startSpill\<close> queues until the file exists.\<close>

definition writeSpill :: "nat list \<Rightarrow> shell_exec \<Rightarrow> shell_exec" where
  "writeSpill bs st = (if spillStream st = None \<or> bs = [] then st else st\<lparr>spillFile := spillFile st @ bs\<rparr>)"

definition startSpill :: "nat list \<Rightarrow> shell_exec \<Rightarrow> shell_exec" where
  "startSpill bs st =
     (if spillStream st \<noteq> None then writeSpill bs st
      else st\<lparr>spillQueue := spillQueue st @ [bs], spillStarted := True\<rparr>)"

text \<open>The body of \<open>feed\<close>.\<close>

definition feed ::
  "(shell_update \<Rightarrow> nat) \<Rightarrow> capture_options \<Rightarrow> bool \<Rightarrow> rat \<Rightarrow> nat list \<Rightarrow> shell_exec \<Rightarrow> shell_exec \<times> shell_update list" where
  "feed sz opt spill now bs st =
     (let wasTruncated = cap_truncated (cap_limits opt) (sh_capture st);
          (c, us) = push_chunk sz opt now (BytesChunk bs) (sh_capture st);
          st1 = st\<lparr>sh_capture := c\<rparr>
      in if \<not> spill \<or> bs = [] then (st1, us)
         else if spillStream st1 \<noteq> None \<or> wasTruncated then (startSpill bs st1, us)
         else if cap_truncated (cap_limits opt) c
         then (startSpill bs (fold startSpill (spillPrefix st1) (st1\<lparr>spillPrefix := []\<rparr>)), us)
         else (st1\<lparr>spillPrefix := spillPrefix st1 @ [bs]\<rparr>, us))"

text \<open>The temporary file has been created, or not.\<close>

definition spill_created ::
  "(shell_update \<Rightarrow> nat) \<Rightarrow> capture_options \<Rightarrow> rat \<Rightarrow> (jstring, string) result \<Rightarrow> shell_exec \<Rightarrow> shell_exec \<times> shell_update list" where
  "spill_created sz opt now r st =
     (if \<not> spillStarted st \<or> spillStream st \<noteq> None \<or> spillError st \<noteq> None then (st, [])
      else
        (case r of
           Inl msg \<Rightarrow> (st\<lparr>spillError := Some (ExecutionError ''unknown''
             (js_text ''Failed to preserve complete shell output: '' @ msg))\<rparr>, [])
         | Inr path \<Rightarrow>
             (let (c, us) = setSpillPath sz opt now path (sh_capture st);
                  st1 = st\<lparr>sh_capture := c, spillStream := Some path\<rparr>
              in ((fold writeSpill (spillQueue st1) st1)\<lparr>spillQueue := []\<rparr>, us))))"

text \<open>The child has closed and the spill is written: flush the capture and settle, errors first.\<close>

definition finish_exec ::
  "(shell_update \<Rightarrow> nat) \<Rightarrow> capture_options \<Rightarrow> rat \<Rightarrow> bool \<Rightarrow> jstring \<Rightarrow> int option \<Rightarrow> int option \<Rightarrow> shell_exec \<Rightarrow>
   shell_exec \<times> shell_update list" where
  "finish_exec sz opt now isAborted timeoutText exitStatus sig st =
     (let (c1, us) = finish_capture sz opt now (sh_capture st);
          (c2, vs) = flush_capture sz opt now c1;
          out = out_meta (snapshot opt c2);
          r = (case callbackError st of
                 Some e \<Rightarrow> Inl e
               | None \<Rightarrow>
                   (if timedOut st then Inl (ExecutionError ''timeout'' (js_text ''timeout:'' @ timeoutText))
                    else if isAborted then Inl (ExecutionError ''aborted'' (js_text ''aborted''))
                    else
                      (case spillError st of
                         Some e \<Rightarrow> Inl e
                       | None \<Rightarrow>
                           Inr \<lparr>exitCode = (case exitStatus of Some n \<Rightarrow> n | None \<Rightarrow> (case sig of Some n \<Rightarrow> 128 + n | None \<Rightarrow> 1)),
                             ev_meta = out\<rparr>)))
      in (st\<lparr>sh_capture := dispose_capture c2, sh_settled := Some r\<rparr>, us @ vs))"

datatype shell_event =
    DataE "nat list"
  | SpillCreatedE "(jstring, string) result"
  | SpillFailedE jstring
  | CallbackFailedE jstring
  | TimeoutE
  | PublishTimerE
  | SpawnErrorE jstring
  | ClosedE bool jstring "int option" "int option"

text \<open>A settled run ignores everything. Closing waits until a spill that was started has its file or has failed.\<close>

definition shell_step ::
  "(shell_update \<Rightarrow> nat) \<Rightarrow> capture_options \<Rightarrow> bool \<Rightarrow> rat \<times> shell_event \<Rightarrow> shell_exec \<Rightarrow> shell_exec \<times> shell_update list" where
  "shell_step sz opt spill ev st =
     (if sh_settled st \<noteq> None then (st, [])
      else
        (case ev of
           (now, DataE bs) \<Rightarrow> feed sz opt spill now bs st
         | (now, SpillCreatedE r) \<Rightarrow> spill_created sz opt now r st
         | (now, SpillFailedE msg) \<Rightarrow>
             ((if spillError st \<noteq> None then st
               else st\<lparr>spillError := Some (ExecutionError ''unknown'' (js_text ''Failed to preserve complete shell output: '' @ msg))\<rparr>), [])
         | (now, CallbackFailedE msg) \<Rightarrow>
             ((if callbackError st \<noteq> None then st else st\<lparr>callbackError := Some (ExecutionError ''callback_error'' msg)\<rparr>), [])
         | (now, TimeoutE) \<Rightarrow> (st\<lparr>timedOut := True\<rparr>, [])
         | (now, PublishTimerE) \<Rightarrow>
             (let (c, us) = with_publisher (pub_timer (publish_options sz) now) opt (sh_capture st) in (st\<lparr>sh_capture := c\<rparr>, us))
         | (now, SpawnErrorE msg) \<Rightarrow>
             (st\<lparr>sh_capture := dispose_capture (sh_capture st), sh_settled := Some (Inl (ExecutionError ''spawn_error'' msg))\<rparr>, [])
         | (now, ClosedE isAborted timeoutText exitStatus sig) \<Rightarrow>
             (if spillStarted st \<and> spillStream st = None \<and> spillError st = None then (st, [])
              else finish_exec sz opt now isAborted timeoutText exitStatus sig st)))"

fun shell_run ::
  "(shell_update \<Rightarrow> nat) \<Rightarrow> capture_options \<Rightarrow> bool \<Rightarrow> (rat \<times> shell_event) list \<Rightarrow> shell_exec \<Rightarrow> shell_exec \<times> shell_update list" where
  "shell_run sz opt spill [] st = (st, [])"
| "shell_run sz opt spill (ev # evs) st =
     (let (st1, us) = shell_step sz opt spill ev st; (st2, vs) = shell_run sz opt spill evs st1 in (st2, us @ vs))"

subsection \<open>The spill file is complete\<close>

text \<open>The chunks of a run before it settled.\<close>

definition spill_ok :: "capture_options \<Rightarrow> nat list \<Rightarrow> shell_exec \<Rightarrow> bool" where
  "spill_ok opt bytes st \<longleftrightarrow>
     (spillStream st \<noteq> None \<longrightarrow> spillStarted st \<and> spillQueue st = []) \<and>
     (if spillStarted st
      then cap_truncated (cap_limits opt) (sh_capture st) \<and> cap_spillPath (sh_capture st) = spillStream st \<and>
        spillFile st @ concat (spillQueue st) = bytes
      else \<not> cap_truncated (cap_limits opt) (sh_capture st) \<and> cap_spillPath (sh_capture st) = None \<and>
        concat (spillPrefix st) = bytes \<and> spillFile st = [] \<and> spillQueue st = [])"

lemma totalLines_append: "t \<noteq> [] \<Longrightarrow> cap_totalLines c \<le> cap_totalLines (append_counts opt t c)"
proof -
  assume t: "t \<noteq> []"
  have "last t = newline_unit \<Longrightarrow> 0 < count_list t newline_unit"
    using t last_in_set [of t] by (metis count_list_0_iff gr0I)
  then show ?thesis using t by (auto simp: cap_totalLines_def append_counts_def countNewlines_def Let_def)
qed

lemma truncated_append: "t \<noteq> [] \<Longrightarrow> cap_truncated lm c \<Longrightarrow> cap_truncated lm (append_counts opt t c)"
  using totalLines_append [of t c opt] by (auto simp: cap_truncated_def) (auto simp: append_counts_def Let_def)

lemma with_publisher_same:
  "cap_truncated lm (fst (with_publisher f opt c)) = cap_truncated lm c"
  "cap_spillPath (fst (with_publisher f opt c)) = cap_spillPath c"
  by (simp_all add: with_publisher_def cap_truncated_def cap_totalLines_def split: prod.split)

lemma appendText_truncated: "cap_truncated lm c \<Longrightarrow> cap_truncated lm (fst (appendText sz opt now t c))"
  by (simp add: appendText_def with_publisher_same truncated_append)

lemma appendText_spillPath [simp]: "cap_spillPath (fst (appendText sz opt now t c)) = cap_spillPath c"
  by (simp add: appendText_def with_publisher_same append_counts_def Let_def)

lemma decoder_same:
  "cap_truncated lm (c\<lparr>cap_decoder := d\<rparr>) = cap_truncated lm c" "cap_spillPath (c\<lparr>cap_decoder := d\<rparr>) = cap_spillPath c"
  by (simp_all add: cap_truncated_def cap_totalLines_def)

lemma push_bytes_same:
  assumes "push_chunk sz opt now (BytesChunk bs) c = (c', us)"
  shows "cap_truncated lm c \<Longrightarrow> cap_truncated lm c'" "cap_spillPath c' = cap_spillPath c"
    "bs = [] \<Longrightarrow> cap_truncated lm c' = cap_truncated lm c"
proof -
  obtain d t where d: "decode_stream bs (cap_decoder c) = (d, t)" by (cases "decode_stream bs (cap_decoder c)")
  have c': "c' = (if cap_disposed c then c else fst (appendText sz opt now t (c\<lparr>cap_decoder := d\<rparr>)))"
    using assms d by (auto simp: push_chunk_def split: if_splits)
  show "cap_truncated lm c \<Longrightarrow> cap_truncated lm c'" using c' appendText_truncated [of lm "c\<lparr>cap_decoder := d\<rparr>"] by (simp add: decoder_same)
  show "cap_spillPath c' = cap_spillPath c" using c' by (simp add: decoder_same)
  show "bs = [] \<Longrightarrow> cap_truncated lm c' = cap_truncated lm c" using c' d by (auto simp: appendText_def decoder_same)
qed

lemma setSpillPath_same:
  assumes "setSpillPath sz opt now path c = (c', us)" "\<not> cap_disposed c"
  shows "cap_truncated lm c' = cap_truncated lm c" "cap_spillPath c' = Some path"
proof -
  let ?c = "c\<lparr>cap_spillPath := Some path\<rparr>"
  let ?c1 = "fst (with_publisher (markDirty (publish_options sz) now) opt ?c)"
  have c': "c' = (if cap_spillPath c = Some path then c else fst (flush_capture sz opt now ?c1))"
    using assms by (auto simp: setSpillPath_def case_prod_beta split: if_splits)
  have t: "cap_truncated lm ?c = cap_truncated lm c" by (simp add: cap_truncated_def cap_totalLines_def)
  show "cap_truncated lm c' = cap_truncated lm c" using c' t by (simp add: flush_capture_def with_publisher_same)
  show "cap_spillPath c' = Some path" using c' by (simp add: flush_capture_def with_publisher_same)
qed

lemma fold_startSpill:
  "spillStream st = None \<Longrightarrow> fold startSpill bss st =
     st\<lparr>spillQueue := spillQueue st @ bss, spillStarted := (spillStarted st \<or> bss \<noteq> [])\<rparr>"
  by (induction bss arbitrary: st) (simp_all add: startSpill_def)

lemma fold_writeSpill:
  "spillStream st \<noteq> None \<Longrightarrow> fold writeSpill bss st = st\<lparr>spillFile := spillFile st @ concat bss\<rparr>"
  by (induction bss arbitrary: st) (auto simp: writeSpill_def)

lemma feed_ok:
  assumes "spill_ok opt bytes st" "feed sz opt True now bs st = (st', us)"
  shows "spill_ok opt (bytes @ bs) st'"
proof -
  obtain c us1 where c: "push_chunk sz opt now (BytesChunk bs) (sh_capture st) = (c, us1)"
    by (cases "push_chunk sz opt now (BytesChunk bs) (sh_capture st)")
  note same = push_bytes_same(1,3) [OF c, where lm = "cap_limits opt"] push_bytes_same(2) [OF c]
  show ?thesis
  proof (cases "bs = [] \<or> spillStarted st")
    case True
    then show ?thesis using assms same c
      by (auto simp: spill_ok_def feed_def Let_def startSpill_def writeSpill_def split: if_splits)
  next
    case False
    then show ?thesis using assms same c
      by (auto simp: spill_ok_def feed_def Let_def fold_startSpill startSpill_def writeSpill_def split: if_splits)
  qed
qed

lemma spill_created_ok:
  assumes "spill_ok opt bytes st" "\<not> cap_disposed (sh_capture st)" "spill_created sz opt now r st = (st', us)"
  shows "spill_ok opt bytes st'"
proof (cases "\<not> spillStarted st \<or> spillStream st \<noteq> None \<or> spillError st \<noteq> None")
  case True
  then show ?thesis using assms by (auto simp: spill_created_def)
next
  case False
  show ?thesis
  proof (cases r)
    case (Inl msg)
    then show ?thesis using assms(1,3) False by (auto simp: spill_created_def spill_ok_def)
  next
    case (Inr path)
    obtain c us1 where c: "setSpillPath sz opt now path (sh_capture st) = (c, us1)"
      by (cases "setSpillPath sz opt now path (sh_capture st)")
    from setSpillPath_same(1) [OF c assms(2), where lm = "cap_limits opt"] setSpillPath_same(2) [OF c assms(2)] show ?thesis
      using assms(1,3) False Inr c by (auto simp: spill_created_def spill_ok_def fold_writeSpill)
  qed
qed

subsection \<open>A run drives its capture\<close>

text \<open>What an event that does not settle the run does to the capture.\<close>

fun capture_events :: "shell_exec \<Rightarrow> rat \<times> shell_event \<Rightarrow> (rat \<times> capture_event) list" where
  "capture_events st (now, DataE bs) = [(now, PushE (BytesChunk bs))]"
| "capture_events st (now, SpillCreatedE (Inr path)) =
     (if \<not> spillStarted st \<or> spillStream st \<noteq> None \<or> spillError st \<noteq> None then [] else [(now, SpillE path)])"
| "capture_events st (now, PublishTimerE) = [(now, TimerE)]"
| "capture_events st _ = []"

fun settling :: "shell_event \<Rightarrow> bool" where
  "settling (SpawnErrorE msg) = True"
| "settling (ClosedE a t n k) = True"
| "settling _ = False"

text \<open>The bytes of an event, and of an event of the capture.\<close>

fun data_bytes :: "shell_event \<Rightarrow> nat list" where
  "data_bytes (DataE bs) = bs"
| "data_bytes _ = []"

fun pushed_bytes :: "capture_event \<Rightarrow> nat list" where
  "pushed_bytes (PushE (BytesChunk bs)) = bs"
| "pushed_bytes _ = []"

definition driven :: "capture_event \<Rightarrow> bool" where
  "driven ev = (case ev of PushE (BytesChunk bs) \<Rightarrow> True | SpillE p \<Rightarrow> True | TimerE \<Rightarrow> True | _ \<Rightarrow> False)"

lemma settled_none_step:
  assumes "sh_settled st = None" "\<not> settling ev" "shell_step sz opt spill (now, ev) st = (st', us)"
  shows "sh_settled st' = None \<and>
    capture_run sz opt (capture_events st (now, ev)) (sh_capture st) = (sh_capture st', us)"
proof (cases ev)
  case (DataE bs)
  have stream: "sh_capture (startSpill b s) = sh_capture s" "sh_settled (startSpill b s) = sh_settled s" for b s
    by (simp_all add: startSpill_def writeSpill_def)
  then have folded: "sh_capture (fold startSpill bss s) = sh_capture s" "sh_settled (fold startSpill bss s) = sh_settled s" for bss s
    by (induction bss arbitrary: s) simp_all
  show ?thesis using assms DataE
    by (auto simp: shell_step_def feed_def Let_def capture_step_def stream folded case_prod_beta split: if_splits)
next
  case (SpillCreatedE r)
  then show ?thesis using assms
    by (cases r) (auto simp: shell_step_def spill_created_def Let_def capture_step_def fold_writeSpill case_prod_beta split: if_splits)
next
  case PublishTimerE
  then show ?thesis using assms by (auto simp: shell_step_def capture_step_def case_prod_beta Let_def)
qed (use assms in \<open>auto simp: shell_step_def split: if_splits\<close>)

lemma capture_run_append:
  "capture_run sz opt (xs @ ys) c =
     (let (c1, us) = capture_run sz opt xs c; (c2, vs) = capture_run sz opt ys c1 in (c2, us @ vs))"
  by (induction xs arbitrary: c) (simp_all add: case_prod_beta Let_def)

lemma shell_run_append:
  "shell_run sz opt spill (xs @ ys) st =
     (let (st1, us) = shell_run sz opt spill xs st; (st2, vs) = shell_run sz opt spill ys st1 in (st2, us @ vs))"
  by (induction xs arbitrary: st) (simp_all add: case_prod_beta Let_def)

lemma capture_events_driven:
  "list_all (\<lambda>ev. driven (snd ev)) (capture_events st ev)"
  "\<not> settling (snd ev) \<Longrightarrow> concat (map (\<lambda>ev. pushed_bytes (snd ev)) (capture_events st ev)) = data_bytes (snd ev)"
  by (cases "(st, ev)" rule: capture_events.cases; simp add: driven_def)+

lemma driven_step:
  assumes "\<not> cap_disposed c" "driven ev"
  shows "\<not> cap_disposed (fst (capture_step sz opt (now, ev) c))"
  using assms
  by (cases ev) (simp_all add: driven_def capture_step_def push_chunk_def with_publisher_keeps case_prod_beta split: chunk.splits)

lemma driven_run:
  "\<not> cap_disposed c \<Longrightarrow> list_all (\<lambda>ev. driven (snd ev)) evs \<Longrightarrow> \<not> cap_disposed (fst (capture_run sz opt evs c))"
proof (induction evs arbitrary: c)
  case (Cons ev evs)
  obtain now e where ev: "ev = (now, e)" by (cases ev)
  with driven_step [OF Cons.prems(1), of e sz opt now] Cons show ?case by (simp add: case_prod_beta)
qed simp

lemma shell_step_spill:
  assumes "spill_ok opt bytes st" "sh_settled st = None" "\<not> cap_disposed (sh_capture st)" "\<not> settling ev"
    and "shell_step sz opt True (now, ev) st = (st', us)"
  shows "spill_ok opt (bytes @ data_bytes ev) st'"
proof (cases ev)
  case (DataE bs)
  with assms(2,5) have "feed sz opt True now bs st = (st', us)" by (simp add: shell_step_def)
  from feed_ok [OF assms(1) this] show ?thesis by (simp add: DataE)
next
  case (SpillCreatedE r)
  with assms(2,5) have "spill_created sz opt now r st = (st', us)" by (simp add: shell_step_def)
  from spill_created_ok [OF assms(1,3) this] show ?thesis by (simp add: SpillCreatedE)
next
  case PublishTimerE
  with assms(2,5) have st': "st' = st\<lparr>sh_capture := fst (with_publisher (pub_timer (publish_options sz) now) opt (sh_capture st))\<rparr>"
    by (auto simp: shell_step_def case_prod_beta Let_def)
  show ?thesis using assms(1) by (auto simp: st' spill_ok_def with_publisher_same PublishTimerE)
qed (use assms in \<open>auto simp: shell_step_def spill_ok_def split: if_splits\<close>)

text \<open>A run before its end drives the capture with what it fed, and its spill is in order.\<close>

lemma shell_run_driven:
  assumes "list_all (\<lambda>ev. \<not> settling (snd ev)) evs" "sh_settled st = None"
    and "shell_run sz opt spill evs st = (st', us)"
  shows "sh_settled st' = None \<and>
    (\<exists>cevs. capture_run sz opt cevs (sh_capture st) = (sh_capture st', us) \<and> list_all (\<lambda>ev. driven (snd ev)) cevs \<and>
       concat (map (\<lambda>ev. pushed_bytes (snd ev)) cevs) = concat (map (\<lambda>ev. data_bytes (snd ev)) evs))"
  using assms
proof (induction evs arbitrary: st us)
  case (Cons ev evs)
  obtain now e where ev: "ev = (now, e)" by (cases ev)
  obtain st1 us1 where st1: "shell_step sz opt spill ev st = (st1, us1)" by (cases "shell_step sz opt spill ev st")
  obtain vs where run: "shell_run sz opt spill evs st1 = (st', vs)" "us = us1 @ vs"
    using Cons.prems(3) st1 by (cases "shell_run sz opt spill evs st1") simp
  have e: "\<not> settling e" "list_all (\<lambda>ev. \<not> settling (snd ev)) evs" using Cons.prems(1) by (simp_all add: ev)
  from settled_none_step [OF Cons.prems(2) e(1), of sz opt spill now] st1
  have one: "sh_settled st1 = None" "capture_run sz opt (capture_events st ev) (sh_capture st) = (sh_capture st1, us1)"
    by (simp_all add: ev)
  from Cons.IH [OF e(2) one(1) run(1)] obtain cevs where
    cevs: "sh_settled st' = None" "capture_run sz opt cevs (sh_capture st1) = (sh_capture st', vs)" "list_all (\<lambda>ev. driven (snd ev)) cevs"
      "concat (map (\<lambda>ev. pushed_bytes (snd ev)) cevs) = concat (map (\<lambda>ev. data_bytes (snd ev)) evs)" by blast
  have "capture_run sz opt (capture_events st ev @ cevs) (sh_capture st) = (sh_capture st', us)"
    by (simp add: capture_run_append one(2) cevs(2) run(2))
  moreover have "list_all (\<lambda>ev. driven (snd ev)) (capture_events st ev @ cevs)"
    using cevs(3) capture_events_driven(1) by simp
  moreover have "concat (map (\<lambda>ev. pushed_bytes (snd ev)) (capture_events st ev @ cevs)) = concat (map (\<lambda>ev. data_bytes (snd ev)) (ev # evs))"
    using cevs(4) capture_events_driven(2) [of ev st] e(1) by (simp add: ev)
  ultimately show ?case using cevs(1) by blast
qed (auto intro!: exI [of _ "[]"])

lemma shell_run_spill:
  assumes "list_all (\<lambda>ev. \<not> settling (snd ev)) evs" "sh_settled st = None" "\<not> cap_disposed (sh_capture st)"
    and "shell_run sz opt True evs st = (st', us)" "spill_ok opt bytes st"
  shows "spill_ok opt (bytes @ concat (map (\<lambda>ev. data_bytes (snd ev)) evs)) st' \<and> \<not> cap_disposed (sh_capture st')"
  using assms
proof (induction evs arbitrary: st us bytes)
  case (Cons ev evs)
  obtain now e where ev: "ev = (now, e)" by (cases ev)
  obtain st1 us1 where st1: "shell_step sz opt True ev st = (st1, us1)" by (cases "shell_step sz opt True ev st")
  obtain vs where run: "shell_run sz opt True evs st1 = (st', vs)"
    using Cons.prems(4) st1 by (cases "shell_run sz opt True evs st1") simp
  have e: "\<not> settling e" "list_all (\<lambda>ev. \<not> settling (snd ev)) evs" using Cons.prems(1) by (simp_all add: ev)
  from settled_none_step [OF Cons.prems(2) e(1), of sz opt True now] st1
  have one: "sh_settled st1 = None" "capture_run sz opt (capture_events st ev) (sh_capture st) = (sh_capture st1, us1)"
    by (simp_all add: ev)
  have "\<not> cap_disposed (sh_capture st1)"
    using driven_run [OF Cons.prems(3) capture_events_driven(1), of sz opt st ev] one(2) by simp
  moreover have "spill_ok opt (bytes @ data_bytes e) st1"
    using shell_step_spill [OF Cons.prems(5,2,3) e(1)] st1 by (simp add: ev)
  ultimately show ?case using Cons.IH [OF e(2) one(1) _ run, of "bytes @ data_bytes e"] by (simp add: ev)
qed simp

lemma driven_decoder:
  "\<not> cap_disposed c \<Longrightarrow> list_all (\<lambda>ev. driven (snd ev)) evs \<Longrightarrow>
   cap_decoder (fst (capture_run sz opt evs c)) = fst (decode_stream (concat (map (\<lambda>ev. pushed_bytes (snd ev)) evs)) (cap_decoder c))"
proof (induction evs arbitrary: c)
  case (Cons ev evs)
  obtain now e where ev: "ev = (now, e)" by (cases ev)
  have d: "driven e" using Cons.prems(2) by (simp add: ev)
  have "cap_decoder (fst (capture_step sz opt ev c)) = fst (decode_stream (pushed_bytes e) (cap_decoder c))"
    using Cons.prems(1) d
    by (cases e) (simp_all add: ev driven_def capture_step_def push_chunk_def with_publisher_keeps case_prod_beta split: chunk.splits)
  moreover have "\<not> cap_disposed (fst (capture_step sz opt ev c))"
    using driven_step [OF Cons.prems(1) d] by (simp add: ev)
  ultimately show ?case using Cons.IH [of "fst (capture_step sz opt ev c)"] Cons.prems(2)
    by (simp add: ev decode_stream_append case_prod_beta Let_def)
qed simp

lemma driven_captured:
  "list_all driven evs \<Longrightarrow> captured d (evs @ [FinishE, FlushE]) =
     (let (d1, out) = decode_stream (concat (map pushed_bytes evs)) d in out @ snd (decode_flush d1))"
proof (induction evs arbitrary: d)
  case (Cons ev evs)
  then show ?case by (cases ev) (auto simp: driven_def decode_stream_append case_prod_beta Let_def split: chunk.splits)
qed (simp add: case_prod_beta)

lemma driven_sound: "list_all (\<lambda>ev. driven (snd ev)) evs \<Longrightarrow> list_all (\<lambda>ev. sound_event (snd ev)) evs"
proof (induction evs)
  case (Cons ev evs)
  then show ?case by (cases "snd ev") (auto simp: driven_def split: chunk.splits)
qed simp

text \<open>The end of a run that succeeds.\<close>

lemma finish_exec_ok:
  assumes "sh_settled st1 = None" "shell_step sz opt spill (now, ClosedE a t n k) st1 = (st, us)" "sh_settled st = Some (Inr v)"
  shows "\<exists>c. capture_run sz opt [(now, FinishE), (now, FlushE)] (sh_capture st1) = (c, us) \<and>
      ev_meta v = out_meta (snapshot opt c) \<and> spillFile st = spillFile st1 \<and>
      spillError st1 = None \<and> (spillStarted st1 \<longrightarrow> spillStream st1 \<noteq> None)"
proof -
  have en: "\<not> (spillStarted st1 \<and> spillStream st1 = None \<and> spillError st1 = None)" and cl: "finish_exec sz opt now a t n k st1 = (st, us)"
    using assms by (auto simp: shell_step_def split: if_splits)
  obtain c1 us1 where c1: "finish_capture sz opt now (sh_capture st1) = (c1, us1)" by (cases "finish_capture sz opt now (sh_capture st1)")
  obtain c2 us2 where c2: "flush_capture sz opt now c1 = (c2, us2)" by (cases "flush_capture sz opt now c1")
  have "spillError st1 = None" "ev_meta v = out_meta (snapshot opt c2)" "us = us1 @ us2" "spillFile st = spillFile st1"
    using cl assms(3) c1 c2 by (auto simp: finish_exec_def Let_def split: option.splits if_splits)
  with en show ?thesis by (auto simp: capture_step_def c1 c2)
qed

lemma finish_same:
  assumes "in_step opt c" "\<not> cap_disposed c" "capture_run sz opt [(now, FinishE), (now, FlushE)] c = (c', us)"
  shows "cap_spillPath c' = cap_spillPath c" "\<not> cap_disposed c'" "\<not> dirty (cap_publisher c')"
    "d_needed (cap_decoder c) = 0 \<Longrightarrow> cap_truncated lm c' = cap_truncated lm c"
proof -
  let ?c = "c\<lparr>cap_decoder := decoder_init\<rparr>"
  define rest where "rest = (if d_needed (cap_decoder c) = 0 then [] else [REPLACEMENT])"
  obtain c1 us1 where c1: "appendText sz opt now rest ?c = (c1, us1)" by (cases "appendText sz opt now rest ?c")
  then have step: "capture_step sz opt (now, FinishE) c = (c1, us1)"
    using assms(2) by (simp add: capture_step_def finish_capture_def decode_flush_def rest_def)
  have fst1: "c1 = fst (appendText sz opt now rest ?c)" by (simp add: c1)
  have d1: "\<not> cap_disposed c1" using assms(2) by (simp add: fst1)
  have flush: "c' = fst (with_publisher (pub_flush (publish_options sz) True now) opt c1)"
    using assms(3) step d1 by (auto simp: capture_step_def flush_capture_def case_prod_beta Let_def)
  show "cap_spillPath c' = cap_spillPath c" by (simp add: flush with_publisher_same fst1)
  show "\<not> cap_disposed c'" using d1 by (simp add: flush with_publisher_keeps)
  from capture_step_view [OF step assms(1)] d1 have "\<not> pub_disposed (cap_publisher c1)" by (simp add: in_step_def)
  from pub_flush_force [OF this] show "\<not> dirty (cap_publisher c')" by (simp add: flush with_publisher_def case_prod_beta)
  show "cap_truncated lm c' = cap_truncated lm c" if "d_needed (cap_decoder c) = 0"
    using that by (simp add: flush with_publisher_same fst1 rest_def appendText_def decoder_same)
qed

lemma init_text: "out_text (snapshot opt capture_init) = []"
  by (simp add: snapshot_def capture_init_def retained_def truncateHead_def truncateTail_def untruncated_def
      sanitizeShellOutput_def Let_def splitLinesForCounting_def utf8ByteLength_def split: retain.split)

text \<open>What the caller of a run that succeeded has: the text and the figures of the whole output,
  and in the spill file all of it.\<close>

lemma exec_reports:
  fixes evs :: "(rat \<times> shell_event) list"
  defines "bytes \<equiv> concat (map (\<lambda>ev. data_bytes (snd ev)) evs)"
  assumes "list_all (\<lambda>ev. \<not> settling (snd ev)) evs"
    and "shell_run sz opt True (evs @ [(now, ClosedE a t n k)]) shell_init = (st, us)" "sh_settled st = Some (Inr v)"
    and "cap_retain opt = RetainTail" "8 \<le> maxBytes (cap_limits opt)"
  shows "\<lparr>out_text = current_text (apply_updates us None), out_meta = ev_meta v\<rparr> =
      reference_snapshot (cap_limits opt) (utf8_decode bytes) (spillPath (ev_meta v))"
    and "spillPath (ev_meta v) \<noteq> None \<Longrightarrow> spillFile st = bytes"
    and "d_needed (fst (decode_stream bytes decoder_init)) = 0 \<Longrightarrow>
      truncated (meta_truncation (ev_meta v)) = (spillPath (ev_meta v) \<noteq> None)"
proof -
  obtain st1 us1 where run1: "shell_run sz opt True evs shell_init = (st1, us1)" by (cases "shell_run sz opt True evs shell_init")
  obtain us2 where step: "shell_step sz opt True (now, ClosedE a t n k) st1 = (st, us2)" and us: "us = us1 @ us2"
    using assms(3) run1 by (cases "shell_step sz opt True (now, ClosedE a t n k) st1") (auto simp: shell_run_append)
  have ini: "sh_settled shell_init = None" "sh_capture shell_init = capture_init" "\<not> cap_disposed capture_init"
      "cap_decoder capture_init = decoder_init" "spill_ok opt [] shell_init"
    by (simp_all add: shell_init_def capture_init_def spill_ok_def cap_truncated_def cap_totalLines_def)
  from shell_run_driven [OF assms(2) ini(1) run1] obtain cevs where
    cevs: "sh_settled st1 = None" "capture_run sz opt cevs capture_init = (sh_capture st1, us1)" "list_all (\<lambda>ev. driven (snd ev)) cevs"
      "concat (map (\<lambda>ev. pushed_bytes (snd ev)) cevs) = bytes" by (auto simp: ini(2) bytes_def)
  have spill: "spill_ok opt bytes st1" "\<not> cap_disposed (sh_capture st1)"
    using shell_run_spill [OF assms(2) ini(1) _ run1 ini(5)] ini(2,3) by (simp_all add: bytes_def)
  from finish_exec_ok [OF cevs(1) step assms(4)] obtain c where
    c: "capture_run sz opt [(now, FinishE), (now, FlushE)] (sh_capture st1) = (c, us2)" "ev_meta v = out_meta (snapshot opt c)"
      "spillFile st = spillFile st1" "spillError st1 = None" "spillStarted st1 \<longrightarrow> spillStream st1 \<noteq> None" by blast
  have view1: "in_step opt (sh_capture st1)"
    using capture_run_view [OF cevs(2) capture_init_step(1)] by simp
  note fin = finish_same(1-3) [OF view1 spill(2) c(1)] finish_same(4) [OF view1 spill(2) c(1), where lm = "cap_limits opt"]
  have all_evs: "capture_run sz opt (cevs @ [(now, FinishE), (now, FlushE)]) capture_init = (c, us)"
    using cevs(2) c(1) by (simp only: capture_run_append) (simp add: us)
  from capture_run_view [OF all_evs capture_init_step(1)] capture_init_step(2)
  have view: "in_step opt c" "apply_updates us None = published (cap_publisher c)" by simp_all
  have "current_text (apply_updates us None) = out_text (snapshot opt c)"
    using view fin(2,3) init_text [of opt] by (auto simp: in_step_def current_text_def)
  moreover have "snapshot opt c = reference_snapshot (cap_limits opt) (utf8_decode bytes) (cap_spillPath c)"
  proof -
    have ev_ok: "list_all (\<lambda>ev. sound_event (snd ev)) (cevs @ [(now, FinishE), (now, FlushE)])"
      using driven_sound [OF cevs(3)] by simp
    have "captured decoder_init (map snd (cevs @ [(now, FinishE), (now, FlushE)])) = utf8_decode bytes"
      using driven_captured [of "map snd cevs" decoder_init] cevs(3,4) by (simp add: list_all_iff comp_def utf8_decode_def)
    with capture_run_tracks [OF tracks_init ev_ok assms(5) ini(3), of sz] all_evs ini(4)
    have "tracks opt (utf8_decode bytes) c" by simp
    from tracks_snapshot [OF this assms(5,6)] show ?thesis .
  qed
  moreover have path: "spillPath (ev_meta v) = cap_spillPath c" by (simp add: c(2) snapshot_def Let_def)
  ultimately show "\<lparr>out_text = current_text (apply_updates us None), out_meta = ev_meta v\<rparr> =
      reference_snapshot (cap_limits opt) (utf8_decode bytes) (spillPath (ev_meta v))" using c(2) by simp
  show "spillPath (ev_meta v) \<noteq> None \<Longrightarrow> spillFile st = bytes"
    using spill(1) c(3,5) fin(1) path by (auto simp: spill_ok_def split: if_splits)
  have "cap_decoder (sh_capture st1) = fst (decode_stream bytes decoder_init)"
    using driven_decoder [OF ini(3) cevs(3), of sz opt] cevs(2,4) ini(4) by simp
  moreover have "truncated (meta_truncation (ev_meta v)) = cap_truncated (cap_limits opt) c"
    by (simp add: c(2) snapshot_def Let_def)
  ultimately show "d_needed (fst (decode_stream bytes decoder_init)) = 0 \<Longrightarrow>
      truncated (meta_truncation (ev_meta v)) = (spillPath (ev_meta v) \<noteq> None)"
    using fin(1,4) spill(1) c(5) path by (auto simp: spill_ok_def split: if_splits)
qed

text \<open>A run in which nothing fails succeeds once its file is there.\<close>

fun failing :: "shell_event \<Rightarrow> bool" where
  "failing (DataE bs) = False"
| "failing (SpillCreatedE (Inr path)) = False"
| "failing PublishTimerE = False"
| "failing _ = True"

definition unfailed :: "shell_exec \<Rightarrow> bool" where
  "unfailed st \<longleftrightarrow> sh_settled st = None \<and> spillError st = None \<and> callbackError st = None \<and> \<not> timedOut st"

lemma unfailed_step:
  assumes "unfailed st" "\<not> failing ev"
  shows "unfailed (fst (shell_step sz opt spill (now, ev) st))"
proof (cases ev)
  case (DataE bs)
  have start: "unfailed (startSpill b s) = unfailed s" for b s
    by (simp add: startSpill_def writeSpill_def unfailed_def)
  have more: "unfailed (fold startSpill bss s) = unfailed s" for bss s
    by (induction bss arbitrary: s) (simp_all add: start)
  show ?thesis using assms
    by (simp add: DataE shell_step_def feed_def Let_def case_prod_beta start more) (simp add: unfailed_def)
next
  case (SpillCreatedE r)
  then show ?thesis using assms
    by (cases r) (simp_all add: shell_step_def spill_created_def Let_def case_prod_beta fold_writeSpill unfailed_def)
next
  case PublishTimerE
  then show ?thesis using assms by (simp add: shell_step_def Let_def case_prod_beta unfailed_def)
qed (use assms in simp_all)

lemma unfailed_run:
  "unfailed st \<Longrightarrow> list_all (\<lambda>ev. \<not> failing (snd ev)) evs \<Longrightarrow> unfailed (fst (shell_run sz opt spill evs st))"
proof (induction evs arbitrary: st)
  case (Cons ev evs)
  then show ?case
    using unfailed_step [of st "snd ev" sz opt spill "fst ev"] by (simp add: case_prod_beta)
qed simp

lemma clean_run_succeeds:
  assumes "list_all (\<lambda>ev. \<not> failing (snd ev)) evs"
    and "shell_run sz opt spill (evs @ [(t1, SpillCreatedE (Inr path)), (t2, ClosedE False timeoutText exitStatus sig)]) shell_init = (st, us)"
  shows "\<exists>v. sh_settled st = Some (Inr v) \<and>
    exitCode v = (case exitStatus of Some n \<Rightarrow> n | None \<Rightarrow> (case sig of Some n \<Rightarrow> 128 + n | None \<Rightarrow> 1))"
proof -
  obtain st1 us1 where run1: "shell_run sz opt spill evs shell_init = (st1, us1)" by (cases "shell_run sz opt spill evs shell_init")
  have "unfailed shell_init" by (simp add: unfailed_def shell_init_def)
  from unfailed_run [OF this assms(1), of sz opt spill] run1 have u1: "unfailed st1" by simp
  define st2 where "st2 = fst (shell_step sz opt spill (t1, SpillCreatedE (Inr path)) st1)"
  have u2: "unfailed st2" using unfailed_step [OF u1] by (simp add: st2_def)
  have ready: "\<not> (spillStarted st2 \<and> spillStream st2 = None)"
    using u1 by (auto simp: st2_def shell_step_def unfailed_def spill_created_def Let_def case_prod_beta fold_writeSpill)
  have "st = fst (shell_step sz opt spill (t2, ClosedE False timeoutText exitStatus sig) st2)"
    using assms(2) run1 by (auto simp: shell_run_append st2_def case_prod_beta Let_def)
  also have "\<dots> = fst (finish_exec sz opt t2 False timeoutText exitStatus sig st2)"
    using u2 ready by (auto simp: shell_step_def unfailed_def)
  finally show ?thesis using u2 by (simp add: finish_exec_def unfailed_def Let_def case_prod_beta)
qed

text \<open>C10. A command whose output is too long for its result leaves all of it in a file. When a run
  succeeds, the figures it returns are those of its whole output, however the output was cut
  into chunks and whenever the file was created; a path in the result names a file that holds
  every byte of the output in order; and unless the output stops in the middle of a character,
  the result has a path exactly when it says that the output was truncated.\<close>

theorem full_output_kept:
  assumes "list_all (\<lambda>ev. \<not> settling (snd ev)) evs"
    and "shell_run sz opt True (evs @ [(now, ClosedE isAborted timeoutText exitStatus sig)]) shell_init = (st, us)"
    and "sh_settled st = Some (Inr v)"
    and "cap_retain opt = RetainTail" "8 \<le> maxBytes (cap_limits opt)"
  shows "let bytes = concat (map (\<lambda>ev. data_bytes (snd ev)) evs) in
      ev_meta v = out_meta (reference_snapshot (cap_limits opt) (utf8_decode bytes) (spillPath (ev_meta v))) \<and>
      (spillPath (ev_meta v) \<noteq> None \<longrightarrow> spillFile st = bytes) \<and>
      (d_needed (fst (decode_stream bytes decoder_init)) = 0 \<longrightarrow>
        truncated (meta_truncation (ev_meta v)) = (spillPath (ev_meta v) \<noteq> None))"
  using exec_reports(2,3) [OF assms] arg_cong [OF exec_reports(1) [OF assms], of out_meta] by (simp add: Let_def)

text \<open>Two lines against a limit of one; the file is created after both have arrived.\<close>

theorem full_output_kept_witness:
  "\<exists>st us v. shell_run (\<lambda>u. 0) \<lparr>cap_limits = \<lparr>maxLines = 1, maxBytes = 8\<rparr>, cap_retain = RetainTail\<rparr> True
     [(0, DataE [97, 10]), (1, DataE [98, 10]), (2, SpillCreatedE (Inr ''/tmp/o'')), (3, ClosedE False [] (Some 0) None)]
     shell_init = (st, us) \<and>
     sh_settled st = Some (Inr v) \<and> exitCode v = 0 \<and> spillPath (ev_meta v) \<noteq> None \<and> spillFile st = [97, 10, 98, 10]"
proof -
  let ?opt = "\<lparr>cap_limits = \<lparr>maxLines = 1, maxBytes = 8\<rparr>, cap_retain = RetainTail\<rparr>"
  let ?evs = "[(0, DataE [97, 10]), (1, DataE [98, 10]), (2, SpillCreatedE (Inr ''/tmp/o''))]"
  obtain st us where run: "shell_run (\<lambda>u. 0) ?opt True (?evs @ [(3, ClosedE False [] (Some 0) None)]) shell_init = (st, us)"
    by (cases "shell_run (\<lambda>u. 0) ?opt True (?evs @ [(3, ClosedE False [] (Some 0) None)]) shell_init")
  obtain v where v: "sh_settled st = Some (Inr v)" "exitCode v = 0"
    using clean_run_succeeds [of "[(0, DataE [97, 10]), (1, DataE [98, 10])]" "\<lambda>u. 0" ?opt True 2 "''/tmp/o''" 3 "[]" "Some 0" None st us] run by auto
  have ready: "d_needed (fst (decode_stream [97, 10, 98, 10] decoder_init)) = 0" "utf8_decode [97, 10, 98, 10] = [97, 10, 98, 10]"
    by (simp_all add: decode_byte_def decode_lead_def emit_code_def units_def decoder_init_def utf8_decode_def decode_flush_def decoder_ready_def)
  from full_output_kept [OF _ run v(1)]
  have all: "ev_meta v = out_meta (reference_snapshot (cap_limits ?opt) [97, 10, 98, 10] (spillPath (ev_meta v)))"
      "spillPath (ev_meta v) \<noteq> None \<longrightarrow> spillFile st = [97, 10, 98, 10]"
      "truncated (meta_truncation (ev_meta v)) = (spillPath (ev_meta v) \<noteq> None)"
    by (simp_all add: Let_def ready del: decode_stream.simps)
  have "truncated (meta_truncation (out_meta (reference_snapshot (cap_limits ?opt) [97, 10, 98, 10] path)))" for path
    by (simp add: reference_snapshot_def truncateTail_def truncate_eval)
  with all have "spillPath (ev_meta v) \<noteq> None" by metis
  with all run v show ?thesis by auto
qed

text \<open>Output that stops in the middle of a character can pass the limit only when the capture
  replaces what is left of it, after the last chunk: it is reported as truncated and is in no file.\<close>

lemma cut_character_unspilled:
  "\<exists>st us v. shell_run (\<lambda>u. 0) \<lparr>cap_limits = \<lparr>maxLines = 9, maxBytes = 8\<rparr>, cap_retain = RetainTail\<rparr> True
     [(0, DataE [97, 97, 97, 97, 97, 97, 195]), (1, ClosedE False [] (Some 0) None)] shell_init = (st, us) \<and>
     sh_settled st = Some (Inr v) \<and> truncated (meta_truncation (ev_meta v)) \<and> spillPath (ev_meta v) = None"
proof -
  let ?opt = "\<lparr>cap_limits = \<lparr>maxLines = 9, maxBytes = 8\<rparr>, cap_retain = RetainTail\<rparr>"
  let ?bs = "[97, 97, 97, 97, 97, 97, 195]"
  obtain st us where run: "shell_run (\<lambda>u. 0) ?opt True ([(0, DataE ?bs)] @ [(1, ClosedE False [] (Some 0) None)]) shell_init = (st, us)"
    by (cases "shell_run (\<lambda>u. 0) ?opt True ([(0, DataE ?bs)] @ [(1, ClosedE False [] (Some 0) None)]) shell_init")
  obtain c us1 where c: "push_chunk (\<lambda>u. 0) ?opt 0 (BytesChunk ?bs) capture_init = (c, us1)"
    by (cases "push_chunk (\<lambda>u. 0) ?opt 0 (BytesChunk ?bs) capture_init")
  have dec: "snd (decode_stream ?bs decoder_init) = [97, 97, 97, 97, 97, 97]" "utf8_decode ?bs = [97, 97, 97, 97, 97, 97, REPLACEMENT]"
    by (simp_all add: decode_byte_def decode_lead_def emit_code_def units_def decoder_init_def utf8_decode_def decode_flush_def decoder_ready_def)
  have "c = fst (appendText (\<lambda>u. 0) ?opt 0 [97, 97, 97, 97, 97, 97] (capture_init\<lparr>cap_decoder := fst (decode_stream ?bs decoder_init)\<rparr>))"
    using c dec(1) by (auto simp: push_chunk_def case_prod_beta capture_init_def simp del: decode_stream.simps)
  then have nt: "\<not> cap_truncated (cap_limits ?opt) c" "cap_spillPath c = None" "\<not> cap_truncated (cap_limits ?opt) capture_init"
    by (simp_all add: appendText_def with_publisher_same)
      (simp_all add: append_counts_def cap_truncated_def cap_totalLines_def countNewlines_def capture_init_def truncate_eval)
  define st1 where "st1 = shell_init\<lparr>sh_capture := c, spillPrefix := [?bs]\<rparr>"
  have "shell_step (\<lambda>u. 0) ?opt True (0, DataE ?bs) shell_init = (st1, us1)"
    using nt by (simp add: shell_step_def feed_def shell_init_def c Let_def st1_def)
  then have "st = fst (finish_exec (\<lambda>u. 0) ?opt 1 False [] (Some 0) None st1)"
    using run by (auto simp: st1_def shell_init_def shell_step_def case_prod_beta Let_def)
  then obtain v where v: "sh_settled st = Some (Inr v)" "spillPath (ev_meta v) = None"
    using nt(2) by (simp add: finish_exec_def st1_def shell_init_def Let_def case_prod_beta finish_capture_def flush_capture_def with_publisher_same snapshot_def)
  have "truncated (meta_truncation (out_meta (reference_snapshot (cap_limits ?opt) (utf8_decode ?bs) path)))" for path
    by (simp add: dec(2) reference_snapshot_def truncateTail_def truncate_eval REPLACEMENT_def case_prod_beta)
  moreover have "ev_meta v = out_meta (reference_snapshot (cap_limits ?opt) (utf8_decode ?bs) (spillPath (ev_meta v)))"
    using arg_cong [OF exec_reports(1) [OF _ run v(1)], of out_meta] by simp
  ultimately have "truncated (meta_truncation (ev_meta v))" by metis
  with run v show ?thesis by auto
qed

end
