(* ===== verification/Image_Type.thy ===== *)
theory Image_Type
  imports Js_Utf16 "HOL-Library.Word"
begin

unbundle bit_operations_syntax

text \<open>
  Images read from files (\<open>harness/tools/image.js\<close> in \<open>bridge.mjs\<close>): recognising the
  supported formats by their first bytes, and the base64 text of the bytes. A buffer is a list
  of bytes; reading past its end gives \<open>undefined\<close>, which the readers replace by 0.
\<close>

subsection \<open>Reading bytes\<close>

definition byte_at :: "nat list \<Rightarrow> nat \<Rightarrow> nat" where
  "byte_at buffer i = (if i < length buffer then buffer ! i else 0)"

definition readUint16LE :: "nat list \<Rightarrow> nat \<Rightarrow> nat" where
  "readUint16LE buffer i = byte_at buffer i + push_bit 8 (byte_at buffer (i + 1))"

definition readUint32BE :: "nat list \<Rightarrow> nat \<Rightarrow> nat" where
  "readUint32BE buffer i =
     byte_at buffer i * 16777216 + push_bit 16 (byte_at buffer (i + 1)) + push_bit 8 (byte_at buffer (i + 2)) +
     byte_at buffer (i + 3)"

definition readUint32LE :: "nat list \<Rightarrow> nat \<Rightarrow> nat" where
  "readUint32LE buffer i =
     byte_at buffer i + push_bit 8 (byte_at buffer (i + 1)) + push_bit 16 (byte_at buffer (i + 2)) +
     byte_at buffer (i + 3) * 16777216"

definition startsWith_bytes :: "nat list \<Rightarrow> nat list \<Rightarrow> bool" where
  "startsWith_bytes buffer bytes =
     (length bytes \<le> length buffer \<and> list_all (\<lambda>i. buffer ! i = bytes ! i) [0..<length bytes])"

definition startsWithAscii :: "nat list \<Rightarrow> nat \<Rightarrow> string \<Rightarrow> bool" where
  "startsWithAscii buffer i s =
     (i + length s \<le> length buffer \<and> list_all (\<lambda>j. buffer ! (i + j) = js_text s ! j) [0..<length s])"

definition PNG_SIGNATURE :: "nat list" where
  "PNG_SIGNATURE = [137, 80, 78, 71, 13, 10, 26, 10]"

definition isPng :: "nat list \<Rightarrow> bool" where
  "isPng buffer = (length buffer \<ge> 16 \<and> readUint32BE buffer (length PNG_SIGNATURE) = 13 \<and> startsWithAscii buffer 12 ''IHDR'')"

text \<open>The loop over the chunks of a PNG file.\<close>

function animated_from :: "nat list \<Rightarrow> nat \<Rightarrow> bool" where
  "animated_from buffer i =
     (if i + 8 \<le> length buffer then
        (let chunkLength = readUint32BE buffer i; nextOffset = i + 8 + chunkLength + 4 in
         if startsWithAscii buffer (i + 4) ''acTL'' then True
         else if startsWithAscii buffer (i + 4) ''IDAT'' then False
         else if nextOffset \<le> i \<or> nextOffset > length buffer then False
         else animated_from buffer nextOffset)
      else False)"
  by auto
termination
  by (relation "measure (\<lambda>(b, i). length b - i)") auto

declare animated_from.simps [simp del]

definition isAnimatedPng :: "nat list \<Rightarrow> bool" where
  "isAnimatedPng buffer = animated_from buffer (length PNG_SIGNATURE)"

definition isBmp :: "nat list \<Rightarrow> bool" where
  "isBmp buffer =
     (let declaredFileSize = readUint32LE buffer 2; pixelDataOffset = readUint32LE buffer 10;
          dibHeaderSize = readUint32LE buffer 14;
          plausible = (\<lambda>colorPlanes bitsPerPixel. colorPlanes = 1 \<and> bitsPerPixel \<in> set [1, 4, 8, 16, 24, 32])
      in if length buffer < 26 then False
         else if declaredFileSize \<noteq> 0 \<and> declaredFileSize < 26 then False
         else if pixelDataOffset < 14 + dibHeaderSize then False
         else if declaredFileSize \<noteq> 0 \<and> pixelDataOffset \<ge> declaredFileSize then False
         else if dibHeaderSize = 12 then plausible (readUint16LE buffer 22) (readUint16LE buffer 24)
         else if dibHeaderSize \<ge> 40 \<and> dibHeaderSize \<le> 124 then
           (if length buffer < 30 then False else plausible (readUint16LE buffer 26) (readUint16LE buffer 28))
         else False)"

definition detectSupportedImageMimeType :: "nat list \<Rightarrow> string option" where
  "detectSupportedImageMimeType buffer =
     (if startsWith_bytes buffer [255, 216, 255]
      then (if length buffer > 3 \<and> buffer ! 3 = 247 then None else Some ''image/jpeg'')
      else if startsWith_bytes buffer PNG_SIGNATURE
      then (if isPng buffer \<and> \<not> isAnimatedPng buffer then Some ''image/png'' else None)
      else if startsWithAscii buffer 0 ''GIF'' then Some ''image/gif''
      else if startsWithAscii buffer 0 ''RIFF'' \<and> startsWithAscii buffer 8 ''WEBP'' then Some ''image/webp''
      else if startsWithAscii buffer 0 ''BM'' \<and> isBmp buffer then Some ''image/bmp''
      else None)"

subsection \<open>Base64\<close>

definition alphabet :: jstring where
  "alphabet = js_text ''ABCDEFGHIJKLMNOPQRSTUVWXYZabcdefghijklmnopqrstuvwxyz0123456789+/''"

definition encode_group :: "nat \<Rightarrow> nat option \<Rightarrow> nat option \<Rightarrow> jstring" where
  "encode_group first second third =
     (let s = (case second of None \<Rightarrow> 0 | Some b \<Rightarrow> b); t = (case third of None \<Rightarrow> 0 | Some b \<Rightarrow> b)
      in [alphabet ! drop_bit 2 first,
          alphabet ! (push_bit 4 (first AND 3) OR drop_bit 4 s),
          (case second of None \<Rightarrow> 61 | Some b \<Rightarrow> alphabet ! (push_bit 2 (b AND 15) OR drop_bit 6 t)),
          (case third of None \<Rightarrow> 61 | Some b \<Rightarrow> alphabet ! (b AND 63))])"

fun encodeBase64 :: "nat list \<Rightarrow> jstring" where
  "encodeBase64 [] = []"
| "encodeBase64 [a] = encode_group a None None"
| "encodeBase64 [a, b] = encode_group a (Some b) None"
| "encodeBase64 (a # b # c # bytes) = encode_group a (Some b) (Some c) @ encodeBase64 bytes"

text \<open>Base64 as RFC 4648 defines it: groups of four characters, the last padded with \<open>=\<close>.\<close>

definition sextet :: "nat \<Rightarrow> nat" where
  "sextet c =
     (if 65 \<le> c \<and> c \<le> 90 then c - 65
      else if 97 \<le> c \<and> c \<le> 122 then c - 97 + 26
      else if 48 \<le> c \<and> c \<le> 57 then c - 48 + 52
      else if c = 43 then 62 else 63)"

definition decode_group :: "nat \<Rightarrow> nat \<Rightarrow> nat \<Rightarrow> nat \<Rightarrow> nat list" where
  "decode_group a b c d =
     (let v = sextet a * 262144 + sextet b * 4096 + (if c = 61 then 0 else sextet c * 64) + (if d = 61 then 0 else sextet d);
          bytes = [v div 65536, v div 256 mod 256, v mod 256]
      in if c = 61 then take 1 bytes else if d = 61 then take 2 bytes else bytes)"

fun decodeBase64 :: "jstring \<Rightarrow> nat list" where
  "decodeBase64 (a # b # c # d # s) = decode_group a b c d @ decodeBase64 s"
| "decodeBase64 _ = []"

lemma alphabet_ranges: "alphabet = [65..<91] @ [97..<123] @ [48..<58] @ [43, 47]"
  by code_simp

lemma sextet_alphabet:
  assumes "n < 64"
  shows "sextet (alphabet ! n) = n \<and> alphabet ! n \<noteq> 61"
proof -
  consider "n < 26" | k where "n = 26 + k" "k < 26" | k where "n = 52 + k" "k < 10" | "n = 62" | "n = 63"
  proof -
    consider "n < 26" | "26 \<le> n" "n < 52" | "52 \<le> n" "n < 62" | "n = 62" | "n = 63" using assms by linarith
    then show thesis
    proof cases
      case 2
      then show thesis using that(2) [of "n - 26"] by simp
    next
      case 3
      then show thesis using that(3) [of "n - 52"] by simp
    qed (use that in blast)+
  qed
  then show ?thesis by cases (simp_all add: alphabet_ranges nth_append sextet_def del: upt_rec_numeral)
qed

lemma or_low: "y < 2 ^ n \<Longrightarrow> push_bit n x OR y = x * 2 ^ n + (y::nat)"
proof -
  assume y: "y < 2 ^ n"
  then have "y = take_bit n y" by (simp add: take_bit_eq_mod)
  then have "bit y m \<Longrightarrow> m < n" for m by (metis bit_take_bit_iff)
  then have "push_bit n x + y = push_bit n x OR y"
    by (intro disjunctive_add) (fastforce simp: bit_push_bit_iff)
  then show ?thesis by (simp add: push_bit_eq_mult)
qed

lemma and_low: "(a::nat) AND 3 = a mod 4" "a AND 15 = a mod 16" "a AND 63 = a mod 64"
proof -
  have m: "mask 2 = (3::nat)" "mask 4 = (15::nat)" "mask 6 = (63::nat)" by (simp_all add: mask_eq_exp_minus_1)
  show "a AND 3 = a mod 4" "a AND 15 = a mod 16" "a AND 63 = a mod 64"
    unfolding m [symmetric] take_bit_eq_mask [symmetric] by (simp_all add: take_bit_eq_mod)
qed

lemma group_indices:
  "drop_bit 2 a = a div (4::nat)"
  "b < 256 \<Longrightarrow> push_bit 4 (a AND 3) OR drop_bit 4 b = a mod 4 * 16 + b div (16::nat)"
  "c < 256 \<Longrightarrow> push_bit 2 (b AND 15) OR drop_bit 6 c = b mod 16 * 4 + c div (64::nat)"
  by (simp_all add: drop_bit_eq_div and_low or_low)

lemma group_value:
  fixes a b c :: nat
  assumes "a < 256" "b < 256" "c < 256"
  shows "a div 4 * 262144 + (a mod 4 * 16 + b div 16) * 4096 + (b mod 16 * 4 + c div 64) * 64 + c mod 64 = a * 65536 + b * 256 + c"
    and "(a * 65536 + b * 256 + c) div 65536 = a" "(a * 65536 + b * 256 + c) div 256 mod 256 = b" "(a * 65536 + b * 256 + c) mod 256 = c"
proof -
  show "a div 4 * 262144 + (a mod 4 * 16 + b div 16) * 4096 + (b mod 16 * 4 + c div 64) * 64 + c mod 64 = a * 65536 + b * 256 + c"
  proof -
    have "a * 65536 = (a div 4 * 4 + a mod 4) * 65536" "b * 256 = (b div 16 * 16 + b mod 16) * 256" "c = c div 64 * 64 + c mod 64"
      by (simp_all only: div_mult_mod_eq)
    then show ?thesis by (simp only: add_mult_distrib mult.assoc)
  qed
  have low: "(b * 256 + c) div 65536 = 0" using assms by simp
  have "a * 65536 + b * 256 + c = (b * 256 + c) + a * 65536" by simp
  then show "(a * 65536 + b * 256 + c) div 65536 = a" using low by (metis add_0 div_mult_self1 zero_neq_numeral add.commute)
  have sum: "a * 65536 + b * 256 + c = c + (a * 256 + b) * 256" by simp
  have "(a * 65536 + b * 256 + c) div 256 = a * 256 + b" unfolding sum using assms(3) by simp
  then show "(a * 65536 + b * 256 + c) div 256 mod 256 = b" using assms(2) by simp
  show "(a * 65536 + b * 256 + c) mod 256 = c" unfolding sum mod_mult_self1 using assms(3) by simp
qed

lemma decode_encode_group:
  assumes "a < 256" "b < 256" "c < 256"
  shows "decodeBase64 (encode_group a (Some b) (Some c) @ s) = [a, b, c] @ decodeBase64 s"
    and "decodeBase64 (encode_group a (Some b) None) = [a, b]"
    and "decodeBase64 (encode_group a None None) = [a]"
proof -
  have lt: "a div 4 < 64" "a mod 4 * 16 + b div 16 < 64" "b mod 16 * 4 + c div 64 < 64" "c mod 64 < 64" "a mod 4 * 16 < 64" "b mod 16 * 4 < 64"
    using assms by auto
  note sx = lt [THEN sextet_alphabet]
  note ix = group_indices(1) group_indices(2) [OF assms(2)] group_indices(3) [OF assms(3)] and_low(3)
  have zero: "push_bit 4 (a AND 3) OR drop_bit 4 0 = a mod 4 * 16" "push_bit 2 (b AND 15) OR drop_bit 6 0 = b mod 16 * 4"
    using group_indices(2) [of 0 a] group_indices(3) [of 0 b] by simp_all
  have e3: "encode_group a (Some b) (Some c) =
      [alphabet ! (a div 4), alphabet ! (a mod 4 * 16 + b div 16), alphabet ! (b mod 16 * 4 + c div 64), alphabet ! (c mod 64)]"
    unfolding encode_group_def Let_def option.case ix ..
  have e2: "encode_group a (Some b) None = [alphabet ! (a div 4), alphabet ! (a mod 4 * 16 + b div 16), alphabet ! (b mod 16 * 4), 61]"
    unfolding encode_group_def Let_def option.case ix zero ..
  have e1: "encode_group a None None = [alphabet ! (a div 4), alphabet ! (a mod 4 * 16), 61, 61]"
    unfolding encode_group_def Let_def option.case ix zero ..
  show "decodeBase64 (encode_group a (Some b) (Some c) @ s) = [a, b, c] @ decodeBase64 s"
    by (simp only: e3 decode_group_def sx Let_def group_value [OF assms] append_Cons append_Nil decodeBase64.simps if_False)
  show "decodeBase64 (encode_group a (Some b) None) = [a, b]"
    using group_value [OF assms(1,2), of 0] by (simp add: e2 decode_group_def sx Let_def)
  show "decodeBase64 (encode_group a None None) = [a]"
    using group_value [OF assms(1), of 0 0] by (simp add: e1 decode_group_def sx Let_def)
qed

text \<open>An image sent to a model is the image that was read: decoding the base64 text of the bytes
  gives the bytes back.\<close>

theorem base64_roundtrip: "list_all (\<lambda>b. b < 256) bytes \<Longrightarrow> decodeBase64 (encodeBase64 bytes) = bytes"
proof (induction bytes rule: encodeBase64.induct)
  case (3 a b)
  then show ?case using decode_encode_group(2) [of a b 0] by simp
next
  case (2 a)
  then show ?case using decode_encode_group(3) [of a 0 0] by simp
qed (simp_all add: decode_encode_group)

theorem base64_roundtrip_witness:
  "list_all (\<lambda>b. b < 256) [137, 80, 78, 71 :: nat] \<and> decodeBase64 (encodeBase64 [137, 80, 78, 71]) = [137, 80, 78, 71]"
  using base64_roundtrip [of "[137, 80, 78, 71]"] by simp

end
