(* ===== verification/Read_Tool.thy ===== *)
theory Read_Tool
  imports Edit_Tool Image_Type Truncate
begin

text \<open>
  The read tool (\<open>harness/tools/read.js\<close> in \<open>bridge.mjs\<close>): an image is returned as an
  attachment, a text as the lines from an offset within the limits of \<open>truncateHead\<close>, with a
  notice that tells where to continue. The bridge passes positive integers for offset and limit
  (\<open>workspace\<close> in \<open>bridge.ts\<close>), so they are natural numbers here. Pages neither skip nor
  repeat a line.
\<close>

datatype read_block = TextBlock jstring | ImageBlock jstring string

record read_result =
  read_content :: "read_block list"
  read_truncation :: "truncation option"

text \<open>What an image processor returns: a message, or a type, data and hints.\<close>

datatype processed = ProcessFailed jstring | Processed string jstring "jstring list"

definition default_limits :: limits where
  "default_limits = \<lparr>maxLines = DEFAULT_MAX_LINES, maxBytes = DEFAULT_MAX_BYTES\<rparr>"

definition read_image :: "(nat list \<Rightarrow> string \<Rightarrow> processed) option \<Rightarrow> nat list \<Rightarrow> string \<Rightarrow> read_result" where
  "read_image imageProcessor bytes mimeType =
     (let header = (\<lambda>m. js_text ''Read image file ['' @ js_text m @ js_text '']'') in
      case imageProcessor of
        Some f \<Rightarrow>
          (case f bytes mimeType of
             ProcessFailed msg \<Rightarrow> \<lparr>read_content = [TextBlock (header mimeType @ 10 # msg)], read_truncation = None\<rparr>
           | Processed m dat hints \<Rightarrow>
               \<lparr>read_content = [TextBlock (header m @ (if hints = [] then [] else 10 # join_with [10] hints)), ImageBlock dat m],
                read_truncation = None\<rparr>)
      | None \<Rightarrow>
          (if mimeType = ''image/bmp''
           then \<lparr>read_content = [TextBlock (js_text ''Read image file [image/bmp]'' @ 10 #
               js_text ''[Image omitted: configure an imageProcessor to convert BMP images.]'')], read_truncation = None\<rparr>
           else \<lparr>read_content = [TextBlock (header mimeType), ImageBlock (encodeBase64 bytes) mimeType],
               read_truncation = None\<rparr>))"

definition showing :: "nat \<Rightarrow> nat \<Rightarrow> nat \<Rightarrow> truncated_by option \<Rightarrow> jstring" where
  "showing first lst totalLns how =
     [10, 10] @ js_text ''[Showing lines '' @ js_nat first @ js_text ''-'' @ js_nat lst @ js_text '' of '' @ js_nat totalLns @
     (if how = Some ByLines then [] else js_text '' ('' @ formatSize DEFAULT_MAX_BYTES @ js_text '' limit)'') @
     js_text ''. Use offset='' @ js_nat (lst + 1) @ js_text '' to continue.]''"

definition too_long :: "nat \<Rightarrow> jstring \<Rightarrow> jstring \<Rightarrow> jstring" where
  "too_long n line path =
     js_text ''[Line '' @ js_nat n @ js_text '' is '' @ formatSize (utf8ByteLength line) @ js_text '', exceeds '' @
     formatSize DEFAULT_MAX_BYTES @ js_text '' limit. Use bash: sed -n '' @ 39 # js_nat n @ js_text ''p'' @ 39 # 32 #
     path @ js_text '' | head -c '' @ js_nat DEFAULT_MAX_BYTES @ js_text '']''"

definition more_lines :: "nat \<Rightarrow> nat \<Rightarrow> jstring" where
  "more_lines remaining nextOffset =
     [10, 10] @ js_text ''['' @ js_nat remaining @ js_text '' more lines in file. Use offset='' @ js_nat nextOffset @
     js_text '' to continue.]''"

definition read_text :: "jstring \<Rightarrow> nat option \<Rightarrow> nat option \<Rightarrow> jstring \<Rightarrow> (tool_error, read_result) result" where
  "read_text content offset limit path =
     (let allLines = split_on 10 content;
          start = (case offset of None \<Rightarrow> 0 | Some n \<Rightarrow> n - 1)
      in if start \<ge> length allLines
         then Inl (Thrown (js_text ''Offset '' @ js_nat (the offset) @ js_text '' is beyond end of file ('' @
           js_nat (length allLines) @ js_text '' lines total)''))
         else
           (let endLine = (case limit of None \<Rightarrow> length allLines | Some n \<Rightarrow> min (start + n) (length allLines));
                selected = join_with [10] (slice start endLine allLines);
                tr = truncateHead default_limits selected
            in Inr
              (if firstLineExceedsLimit tr
               then \<lparr>read_content = [TextBlock (too_long (start + 1) (allLines ! start) path)], read_truncation = Some tr\<rparr>
               else if truncated tr
               then \<lparr>read_content = [TextBlock (out_content tr @
                      showing (start + 1) (start + outputLines tr) (length allLines) (truncatedBy tr))],
                     read_truncation = Some tr\<rparr>
               else if limit \<noteq> None \<and> endLine < length allLines
               then \<lparr>read_content = [TextBlock (out_content tr @ more_lines (length allLines - endLine) (endLine + 1))],
                     read_truncation = None\<rparr>
               else \<lparr>read_content = [TextBlock (out_content tr)], read_truncation = None\<rparr>)))"

definition read_tool ::
  "(jstring \<Rightarrow> jstring) \<Rightarrow> (nat list \<Rightarrow> string \<Rightarrow> processed) option \<Rightarrow> 's tool_env \<Rightarrow> jstring \<Rightarrow> nat option \<Rightarrow> nat option \<Rightarrow>
   's \<Rightarrow> (tool_error, read_result) result" where
  "read_tool nfd imageProcessor env path offset limit s =
     (case resolveReadToolPath nfd env path s of
        Inl e \<Rightarrow> Inl e
      | Inr absPath \<Rightarrow>
          (case getOrThrow (readBinaryFile env absPath s) of
             Inl e \<Rightarrow> Inl e
           | Inr bytes \<Rightarrow>
               (case detectSupportedImageMimeType bytes of
                  Some mimeType \<Rightarrow> Inr (read_image imageProcessor bytes mimeType)
                | None \<Rightarrow> read_text (utf8_decode bytes) offset limit path)))"

subsection \<open>Pages\<close>

lemma last_join:
  assumes "ls \<noteq> []" "\<And>l. l \<in> set ls \<Longrightarrow> 10 \<notin> set l" "join_with [10] ls \<noteq> []"
  shows "last (join_with [10] ls) = (10::nat) \<longleftrightarrow> last ls = []"
  using assms
proof (induction ls)
  case (Cons l ls)
  show ?case
  proof (cases ls)
    case Nil
    with Cons.prems have "l \<noteq> []" "10 \<notin> set l" by auto
    with Nil show ?thesis by (auto dest: last_in_set)
  next
    case (Cons l' ls')
    show ?thesis
    proof (cases "join_with [10] ls = []")
      case True
      with Cons have "ls = [[]]" by (cases ls') auto
      then show ?thesis by simp
    next
      case False
      with Cons Cons.IH Cons.prems show ?thesis by simp
    qed
  qed
qed simp

text \<open>The lines of joined lines are those lines, but for an empty last one.\<close>

lemma counting_join:
  assumes "ls \<noteq> []" "\<And>l. l \<in> set ls \<Longrightarrow> 10 \<notin> set l"
  shows "splitLinesForCounting (join_with [10] ls) = (if last ls = [] then butlast ls else ls)"
proof (cases "join_with [10] ls = []")
  case True
  have "ls = [[]]"
  proof (cases ls)
    case (Cons l ls')
    with True show ?thesis by (cases ls') auto
  qed (use assms(1) in simp)
  then show ?thesis by (simp add: splitLinesForCounting_def)
next
  case False
  have sp: "split_on 10 (join_with [10] ls) = ls" using assms by (rule split_on_join)
  with False last_join [OF assms False] show ?thesis by (simp add: splitLinesForCounting_def newline_unit_def)
qed

text \<open>A truncated page holds at least one line and stops before the last one.\<close>

lemma page_lines:
  assumes "ls \<noteq> []" "\<And>l. l \<in> set ls \<Longrightarrow> 10 \<notin> set l" "0 < maxLines lm"
    and r: "r = truncateHead lm (join_with [10] ls)" "truncated r" "\<not> firstLineExceedsLimit r"
  shows "0 < outputLines r \<and> outputLines r < length ls \<and> out_content r = join_with [10] (take (outputLines r) ls)"
proof -
  let ?s = "join_with [10] ls" and ?ls = "splitLinesForCounting (join_with [10] ls)"
  have out: "\<not> within_limits lm ?s" using r(1,2) head_trunc.marked by simp
  then have ne: "?s \<noteq> []" by (auto simp: within_limits_def splitLinesForCounting_def)
  have ls: "?ls = (if last ls = [] then butlast ls else ls)" using assms(1,2) by (rule counting_join)
  have first: "\<not> utf8ByteLength (hd ?ls) > maxBytes lm"
    using r(1,3) out by (auto simp: truncateHead_def Let_def split: if_splits)
  obtain out bytes stop where loop: "head_lines lm ?ls [] 0 = (out, bytes, stop)" by (cases "head_lines lm ?ls [] 0")
  have r': "out_content r = join_with [10] out" "outputLines r = length out"
    using out first loop r(1) by (simp_all add: truncateHead_def Let_def newline_unit_def)
  from head_lines_spec [OF loop] have spec: "prefix out ?ls" "length out \<le> maxLines lm"
      "out = ?ls \<or> length out = maxLines lm \<or>
        bytes + utf8ByteLength (?ls ! length out) + (if out \<noteq> [] then 1 else 0) > maxBytes lm"
      "bytes \<le> maxBytes lm" "bytes = sum_list (map utf8ByteLength out) + (length out - 1)"
    by auto
  have ls_ne: "?ls \<noteq> []" using split_lines_nonempty [OF ne] .
  have pos: "out \<noteq> []"
  proof
    assume "out = []"
    with spec(3,5) assms(3) ls_ne first show False by (simp add: hd_conv_nth)
  qed
  have pre: "prefix out ls" using spec(1) ls by (metis prefix_order.trans prefixeq_butlast prefix_order.refl)
  then have take_out: "out = take (length out) ls" by (auto simp: prefix_def)
  have "length out \<noteq> length ls"
  proof
    assume len: "length out = length ls"
    have "out = ls" using len pre by (metis prefix_def append_Nil2 append_eq_append_conv)
    moreover from this have "?ls = ls" using spec(1) ls assms(1) by (metis length_butlast diff_less length_greater_0_conv not_less prefix_length_le zero_less_one)
    ultimately have "length ?ls \<le> maxLines lm" "utf8ByteLength ?s \<le> maxBytes lm"
      using spec(2,4,5) bytes_join [of ls] assms(1) by (simp_all add: newline_unit_def)
    with out show False by (simp add: within_limits_def)
  qed
  moreover have "length out \<le> length ls" using pre by (rule prefix_length_le)
  ultimately show ?thesis using pos take_out r' by simp
qed



end
