(* ===== verification/Bash_Tool.thy ===== *)
theory Bash_Tool
  imports Shell_Exec Read_Tool
begin

text \<open>
  The bash tool (\<open>harness/tools/bash.js\<close> in \<open>bridge.mjs\<close>): it runs a command with the tail of its
  output captured, keeps a view of the output from the updates of the run, passes it on with a
  checkpoint at most every two seconds, and answers with the output and a notice of what was
  cut. A time limit appears in messages as the text the runtime gives it.
\<close>

definition validateTimeout :: "jsnum option \<Rightarrow> (tool_error, unit) result" where
  "validateTimeout timeout =
     (case timeout of
        None \<Rightarrow> Inr ()
      | Some (Num t) \<Rightarrow>
          (if t \<le> 0 then Inl (Thrown (js_text ''Invalid timeout: must be a finite number of seconds''))
           else if t > 2147483647 / 1000 then Inl (Thrown (js_text ''Invalid timeout: maximum is 2147483.647 seconds''))
           else Inr ())
      | Some _ \<Rightarrow> Inl (Thrown (js_text ''Invalid timeout: must be a finite number of seconds'')))"

definition bash_command :: "jstring option \<Rightarrow> jstring \<Rightarrow> jstring" where
  "bash_command commandPrefix command =
     (case commandPrefix of Some p \<Rightarrow> if p = [] then command else p @ 10 # command | None \<Rightarrow> command)"

definition bash_capture :: capture_options where
  "bash_capture = \<lparr>cap_limits = default_limits, cap_retain = RetainTail\<rparr>"

record bash_details =
  bd_truncation :: "truncation option"
  fullOutputPath :: "string option"

record bash_snapshot =
  bs_text :: jstring
  bs_details :: bash_details

text \<open>The updates of the run: the view, and whether the snapshot is a checkpoint.\<close>

record bash_view =
  bv_view :: "shell_output option"
  lastCheckpointAt :: rat
  lastCheckpoint :: "jstring option"

definition BASH_CHECKPOINT_INTERVAL_MS :: rat where
  "BASH_CHECKPOINT_INTERVAL_MS = 2000"

definition bash_snapshot_of :: "shell_output \<Rightarrow> bash_snapshot" where
  "bash_snapshot_of out =
     \<lparr>bs_text = out_text out, bs_details = \<lparr>
        bd_truncation = (if truncated (meta_truncation (out_meta out)) then Some (meta_truncation (out_meta out)) else None),
        fullOutputPath = spillPath (out_meta out)\<rparr>\<rparr>"

definition bash_on_update ::
  "(bash_snapshot \<Rightarrow> jstring) \<Rightarrow> rat \<Rightarrow> shell_update \<Rightarrow> bash_view \<Rightarrow> bash_view \<times> (bash_snapshot \<times> bool)" where
  "bash_on_update stringify now update bv =
     (let view = applyShellOutputUpdate (bv_view bv) update;
          snap = bash_snapshot_of view;
          encoded = stringify snap;
          checkpoint = (now - lastCheckpointAt bv \<ge> BASH_CHECKPOINT_INTERVAL_MS \<and> Some encoded \<noteq> lastCheckpoint bv);
          bv1 = bv\<lparr>bv_view := Some view\<rparr>
      in ((if checkpoint then bv1\<lparr>lastCheckpointAt := now, lastCheckpoint := Some encoded\<rparr> else bv1), (snap, checkpoint)))"

fun bash_updates ::
  "(bash_snapshot \<Rightarrow> jstring) \<Rightarrow> (rat \<times> shell_update) list \<Rightarrow> bash_view \<Rightarrow> bash_view \<times> (bash_snapshot \<times> bool) list" where
  "bash_updates stringify [] bv = (bv, [])"
| "bash_updates stringify ((now, u) # us) bv =
     (let (bv1, x) = bash_on_update stringify now u bv; (bv2, xs) = bash_updates stringify us bv1 in (bv2, x # xs))"

text \<open>The notice on output that was cut.\<close>

definition shown_path :: "string option \<Rightarrow> jstring" where
  "shown_path p = (case p of None \<Rightarrow> js_text ''undefined'' | Some s \<Rightarrow> js_text s)"

definition bash_notice :: "output_meta \<Rightarrow> jstring" where
  "bash_notice m =
     (let tr = meta_truncation m;
          startLine = int (totalLines tr) - int (outputLines tr) + 1;
          endLine = totalLines tr;
          full = js_text '' Full output: '' @ shown_path (spillPath m) @ js_text '']''
      in [10, 10] @
        (if lastLinePartial tr then
           js_text ''[Showing last '' @ formatSize (outputBytes tr) @ js_text '' of line '' @ js_nat endLine @
           js_text '' (line is '' @ formatSize (case lastLineBytes m of Some n \<Rightarrow> n | None \<Rightarrow> outputBytes tr) @ js_text '').'' @ full
         else if truncatedBy tr = Some ByLines then
           js_text ''[Showing lines '' @ js_int startLine @ js_text ''-'' @ js_nat endLine @ js_text '' of '' @ js_nat (totalLines tr) @
           js_text ''.'' @ full
         else
           js_text ''[Showing lines '' @ js_int startLine @ js_text ''-'' @ js_nat endLine @ js_text '' of '' @ js_nat (totalLines tr) @
           js_text '' ('' @ formatSize DEFAULT_MAX_BYTES @ js_text '' limit).'' @ full))"

record bash_result =
  br_text :: jstring
  br_details :: "bash_details option"

text \<open>The answer, once the run has settled.\<close>

definition bash_status :: "jstring \<Rightarrow> exec_error \<Rightarrow> jstring" where
  "bash_status timeoutText e =
     (case e of ExecutionError ec msg \<Rightarrow>
        if ec = ''timeout'' then js_text ''Command timed out after '' @ timeoutText @ js_text '' seconds''
        else if ec = ''aborted'' then js_text ''Command aborted'' else msg)"

definition bash_finish ::
  "jstring \<Rightarrow> shell_output option \<Rightarrow> (exec_error, exec_value) result \<Rightarrow> (tool_error, bash_result) result" where
  "bash_finish timeoutText view r =
     (let meta = (case r of Inr v \<Rightarrow> Some (ev_meta v) | Inl e \<Rightarrow> map_option out_meta view);
          (outputText, details) =
            (case meta of
               Some m \<Rightarrow>
                 (if truncated (meta_truncation m)
                  then (current_text view @ bash_notice m, Some \<lparr>bd_truncation = Some (meta_truncation m), fullOutputPath = spillPath m\<rparr>)
                  else (current_text view, None))
             | None \<Rightarrow> (current_text view, None))
      in case r of
           Inl e \<Rightarrow> Inl (Thrown (if outputText \<noteq> [] then outputText @ [10, 10] @ bash_status timeoutText e else bash_status timeoutText e))
         | Inr v \<Rightarrow>
             (if exitCode v \<noteq> 0
              then Inl (Thrown ((if outputText \<noteq> [] then outputText @ [10, 10] else []) @
                js_text ''Command exited with code '' @ js_int (exitCode v)))
              else Inr \<lparr>br_text = (if outputText \<noteq> [] then outputText else js_text ''(no output)''), br_details = details\<rparr>))"

text \<open>The tool on the events of its run; \<^const>\<open>None\<close> while it runs. The updates of an event happen
  at its time; the empty update before the run starts is left out.\<close>

fun shell_run_at ::
  "(shell_update \<Rightarrow> nat) \<Rightarrow> capture_options \<Rightarrow> bool \<Rightarrow> (rat \<times> shell_event) list \<Rightarrow> shell_exec \<Rightarrow> shell_exec \<times> (rat \<times> shell_update) list" where
  "shell_run_at sz opt spill [] st = (st, [])"
| "shell_run_at sz opt spill (ev # evs) st =
     (let (st1, us) = shell_step sz opt spill ev st; (st2, vs) = shell_run_at sz opt spill evs st1
      in (st2, map (Pair (fst ev)) us @ vs))"

definition bash_execute ::
  "(bash_snapshot \<Rightarrow> jstring) \<Rightarrow> (shell_update \<Rightarrow> nat) \<Rightarrow> jsnum option \<Rightarrow> jstring \<Rightarrow> rat \<Rightarrow> (rat \<times> shell_event) list \<Rightarrow>
   (tool_error, bash_result) result option \<times> (bash_snapshot \<times> bool) list" where
  "bash_execute stringify sz timeout timeoutText start evs =
     (case validateTimeout timeout of
        Inl e \<Rightarrow> (Some (Inl e), [])
      | Inr _ \<Rightarrow>
          (let (st, us) = shell_run_at sz bash_capture True evs shell_init;
               (bv, shown) = bash_updates stringify us \<lparr>bv_view = None, lastCheckpointAt = start, lastCheckpoint = None\<rparr>
           in (map_option (bash_finish timeoutText (bv_view bv)) (sh_settled st), shown)))"

lemma shell_run_timed:
  "shell_run sz opt spill evs st = (fst (shell_run_at sz opt spill evs st), map snd (snd (shell_run_at sz opt spill evs st)))"
  by (induction evs arbitrary: st) (simp_all add: case_prod_beta Let_def comp_def)

lemma bash_updates_view:
  "bv_view (fst (bash_updates stringify us bv)) = apply_updates (map snd us) (bv_view bv)"
  by (induction us arbitrary: bv) (auto simp: bash_on_update_def Let_def case_prod_beta)

text \<open>The text and details of an answer, from the whole output.\<close>

definition bash_report :: "jstring \<Rightarrow> string option \<Rightarrow> jstring \<times> bash_details option" where
  "bash_report out path =
     (let s = reference_snapshot default_limits out path in
      if within_limits default_limits out then (sanitizeShellOutput out, None)
      else (out_text s @ bash_notice (out_meta s), Some \<lparr>bd_truncation = Some (meta_truncation (out_meta s)), fullOutputPath = path\<rparr>))"

lemma reference_truncated:
  "truncated (meta_truncation (out_meta (reference_snapshot lm out path))) = (\<not> within_limits lm out)"
  "spillPath (out_meta (reference_snapshot lm out path)) = path"
  "within_limits lm out \<Longrightarrow> out_text (reference_snapshot lm out path) = sanitizeShellOutput out"
  by (simp_all add: reference_snapshot_def truncateTail_def untruncated_def Let_def case_prod_beta)

lemma finish_report:
  assumes "\<lparr>out_text = current_text view, out_meta = ev_meta v\<rparr> = reference_snapshot default_limits out path"
    and "(t, d) = bash_report out path"
  shows "bash_finish timeoutText view (Inr v) =
    (if exitCode v = 0 then Inr \<lparr>br_text = (if t \<noteq> [] then t else js_text ''(no output)''), br_details = d\<rparr>
     else Inl (Thrown ((if t \<noteq> [] then t @ [10, 10] else []) @ js_text ''Command exited with code '' @ js_int (exitCode v))))"
proof -
  have "current_text view = out_text (reference_snapshot default_limits out path)" "ev_meta v = out_meta (reference_snapshot default_limits out path)"
    by (simp_all flip: assms(1))
  then show ?thesis
    using assms(2) reference_truncated [of default_limits out path]
    by (cases "within_limits default_limits out") (simp_all add: bash_finish_def bash_report_def Let_def)
qed



end
