(* ===== verification/Pi_Dispatch.thy ===== *)
theory Pi_Dispatch
  imports Pi_Models Pi_Stream
begin

text \<open>
  Requests through the registry of the bundled \<open>pi-ai\<close> (\<open>models.js\<close> in
  \<open>drivers/tools/pibridge/bridge.mjs\<close>): the authentication that is applied to a request, the choice
  of an API implementation, deferred responses, the refresh of a provider's models and the
  login. What a provider does to resolve its credentials is an argument, as in \<open>Pi_Auth\<close>.
\<close>

subsection \<open>Authentication of a request\<close>

record model_auth =
  auth_apiKey :: "string option"
  auth_headers :: "headers option"
  auth_baseUrl :: "string option"

record resolution =
  res_auth :: model_auth
  res_env :: "(string \<times> string) list option"
  res_source :: string

record request_model = model +
  model_headers :: "headers option"
  model_baseUrl :: string

text \<open>The options of a request that the registry reads; the others are passed on as they are.\<close>

record models_options =
  opt_apiKey :: "string option"
  opt_env :: "(string \<times> string) list option"
  opt_headers :: "headers option"
  transformHeaders :: "(headers \<Rightarrow> (cause, headers) result) option"

record provider_options =
  po_apiKey :: "string option"
  po_headers :: "headers option"
  po_env :: "(string \<times> string) list option"

text \<open>\<open>getAuth\<close> of a model; of the id of a provider it is what the provider resolves to.\<close>

definition getAuth ::
  "registry \<Rightarrow> (string \<Rightarrow> auth_overrides \<Rightarrow> (models_error, resolution option) result) \<Rightarrow> request_model \<Rightarrow> auth_overrides \<Rightarrow>
   (models_error, resolution option) result" where
  "getAuth r resolve m ov =
     (case map_of (providers r) (model_provider m) of
        None \<Rightarrow> Inr None
      | Some p \<Rightarrow>
          (case resolve (model_provider m) ov of
             Inr (Some res) \<Rightarrow>
               (if model_headers m = None then Inr (Some res)
                else Inr (Some (res\<lparr>res_auth := (res_auth res)\<lparr>auth_headers := mergeHeaders (auth_headers (res_auth res)) (model_headers m)\<rparr>\<rparr>)))
           | x \<Rightarrow> x))"

definition models_cause :: "models_error \<Rightarrow> cause" where
  "models_cause e = ErrorCause ''ModelsError'' (me_message e)"

definition requireProvider :: "js_runtime \<Rightarrow> registry \<Rightarrow> request_model \<Rightarrow> (cause, provider) result" where
  "requireProvider rt r m =
     (case map_of (providers r) (model_provider m) of
        Some p \<Rightarrow> Inr p
      | None \<Rightarrow> Inl (models_cause (ModelsError rt ''provider'' (''Unknown provider: '' @ model_provider m) None)))"

definition request_env ::
  "(string \<times> string) list option \<Rightarrow> (string \<times> string) list option \<Rightarrow> (string \<times> string) list option" where
  "request_env base over =
     (if base = None \<and> over = None then None
      else Some (merge_env (case base of None \<Rightarrow> [] | Some e \<Rightarrow> e) (case over of None \<Rightarrow> [] | Some e \<Rightarrow> e)))"

definition applyAuth ::
  "js_runtime \<Rightarrow> registry \<Rightarrow> (string \<Rightarrow> auth_overrides \<Rightarrow> (models_error, resolution option) result) \<Rightarrow> request_model \<Rightarrow>
   models_options \<Rightarrow> (cause, request_model \<times> provider_options) result" where
  "applyAuth rt r resolve m opt =
     (case requireProvider rt r m of
        Inl e \<Rightarrow> Inl e
      | Inr p \<Rightarrow>
          (case getAuth r resolve m \<lparr>ov_apiKey = opt_apiKey opt, ov_env = opt_env opt, ov_minValidity = None\<rparr> of
             Inl e \<Rightarrow> Inl (models_cause e)
           | Inr None \<Rightarrow>
               Inl (models_cause (ModelsError rt ''auth'' (''Provider is not configured: '' @ model_provider m) None))
           | Inr (Some res) \<Rightarrow>
               (let auth = res_auth res;
                    apiKey = (case opt_apiKey opt of Some k \<Rightarrow> Some k | None \<Rightarrow> auth_apiKey auth);
                    merged = mergeHeaders (auth_headers auth) (opt_headers opt);
                    env = request_env (res_env res) (opt_env opt);
                    requestModel = (case auth_baseUrl auth of
                       Some u \<Rightarrow> if u \<noteq> '''' then m\<lparr>model_baseUrl := u\<rparr> else m | None \<Rightarrow> m)
                in case transformHeaders opt of
                     None \<Rightarrow> Inr (requestModel, \<lparr>po_apiKey = apiKey, po_headers = merged, po_env = env\<rparr>)
                   | Some f \<Rightarrow>
                       (case f (case merged of None \<Rightarrow> [] | Some h \<Rightarrow> h) of
                          Inl e \<Rightarrow> Inl e
                        | Inr h \<Rightarrow> Inr (requestModel, \<lparr>po_apiKey = apiKey, po_headers = Some h, po_env = env\<rparr>)))))"

subsection \<open>The API of a provider\<close>

text \<open>What an API implementation makes of a request is an inner stream (or, for a cancellation, an
  outcome); deferred responses are optional.\<close>

record 'c api =
  api_stream :: "request_model \<Rightarrow> 'c \<Rightarrow> provider_options \<Rightarrow> inner_stream"
  api_streamSimple :: "request_model \<Rightarrow> 'c \<Rightarrow> provider_options \<Rightarrow> inner_stream"
  api_fetchDeferred :: "(request_model \<Rightarrow> string \<Rightarrow> provider_options \<Rightarrow> inner_stream) option"
  api_cancelDeferred :: "(request_model \<Rightarrow> string \<Rightarrow> provider_options \<Rightarrow> (cause, unit) result) option"

datatype 'c apis = SingleApi "'c api" | ByApi "(string \<times> 'c api) list"

definition apiFor :: "'c apis \<Rightarrow> request_model \<Rightarrow> 'c api option" where
  "apiFor a m = (case a of SingleApi s \<Rightarrow> Some s | ByApi t \<Rightarrow> map_of t (model_api m))"

definition api_list :: "'c apis \<Rightarrow> 'c api list" where
  "api_list a = (case a of SingleApi s \<Rightarrow> [s] | ByApi t \<Rightarrow> map snd t)"

text \<open>A lazy stream that is forwarded by another one: a failure has become its last event.\<close>

definition lazy_inner :: "js_runtime \<Rightarrow> rat \<Rightarrow> request_model \<Rightarrow> inner_stream \<Rightarrow> inner_stream" where
  "lazy_inner rt now m inner =
     (let msg = (\<lambda>e. createSetupErrorMessage rt now (model.truncate m) e) in
      case inner of
        SetupFailed e \<Rightarrow> InnerEnded [ErrorEvent (msg e)] (Some (msg e))
      | InnerThrew es e \<Rightarrow> InnerEnded (es @ [ErrorEvent (msg e)]) (Some (msg e))
      | InnerEnded es r \<Rightarrow> InnerEnded es r)"

text \<open>An API whose implementation is loaded when it is called.\<close>

definition plain_cause :: "string \<Rightarrow> cause" where
  "plain_cause msg = ErrorCause ''Error'' msg"

definition lazyApi :: "js_runtime \<Rightarrow> rat \<Rightarrow> (cause, 'c api) result \<Rightarrow> bool \<Rightarrow> bool \<Rightarrow> 'c api" where
  "lazyApi rt now load canFetch canCancel =
     \<lparr>api_stream = (\<lambda>m c po. lazy_inner rt now m (case load of Inl e \<Rightarrow> SetupFailed e | Inr s \<Rightarrow> api_stream s m c po)),
      api_streamSimple = (\<lambda>m c po. lazy_inner rt now m (case load of Inl e \<Rightarrow> SetupFailed e | Inr s \<Rightarrow> api_streamSimple s m c po)),
      api_fetchDeferred =
        (if canFetch then Some (\<lambda>m h po. lazy_inner rt now m
           (case load of
              Inl e \<Rightarrow> SetupFailed e
            | Inr s \<Rightarrow>
                (case api_fetchDeferred s of
                   None \<Rightarrow> SetupFailed (plain_cause ''API does not support deferred responses'')
                 | Some f \<Rightarrow> f m h po)))
         else None),
      api_cancelDeferred =
        (if canCancel then Some (\<lambda>m h po.
           (case load of
              Inl e \<Rightarrow> Inl e
            | Inr s \<Rightarrow>
                (case api_cancelDeferred s of
                   None \<Rightarrow> Inl (plain_cause ''API cannot cancel deferred responses'')
                 | Some f \<Rightarrow> f m h po)))
         else None)\<rparr>"

text \<open>\<open>dispatch\<close> of \<open>createProvider\<close>.\<close>

definition dispatch ::
  "js_runtime \<Rightarrow> rat \<Rightarrow> string \<Rightarrow> 'c apis \<Rightarrow> request_model \<Rightarrow> ('c api \<Rightarrow> inner_stream) \<Rightarrow> inner_stream" where
  "dispatch rt now pid a m run =
     (case apiFor a m of
        None \<Rightarrow> lazy_inner rt now m (SetupFailed (models_cause (ModelsError rt ''stream''
          (''Provider '' @ pid @ '' has no API implementation for '' @ [CHR 0x22] @ model_api m @ [CHR 0x22]) None)))
      | Some s \<Rightarrow> run s)"

definition supports_fetch :: "'c apis \<Rightarrow> bool" where
  "supports_fetch a = list_ex (\<lambda>s. api_fetchDeferred s \<noteq> None) (api_list a)"

definition supports_cancel :: "'c apis \<Rightarrow> bool" where
  "supports_cancel a = list_ex (\<lambda>s. api_cancelDeferred s \<noteq> None) (api_list a)"

definition no_deferred :: "js_runtime \<Rightarrow> string \<Rightarrow> string \<Rightarrow> string \<Rightarrow> cause" where
  "no_deferred rt pid what apiName =
     models_cause (ModelsError rt ''provider'' (''Provider '' @ pid @ what @ [CHR 0x22] @ apiName @ [CHR 0x22]) None)"

text \<open>\<open>fetchDeferred\<close> of \<open>createProvider\<close>, itself a lazy stream: a failed set-up ends it with one
  error.\<close>

definition provider_fetchDeferred ::
  "js_runtime \<Rightarrow> rat \<Rightarrow> string \<Rightarrow> 'c apis \<Rightarrow> request_model \<Rightarrow> string \<Rightarrow> provider_options \<Rightarrow> inner_stream" where
  "provider_fetchDeferred rt now pid a m h po =
     lazy_inner rt now m
       (case Option.bind (apiFor a m) api_fetchDeferred of
          Some f \<Rightarrow> f m h po
        | None \<Rightarrow> SetupFailed (no_deferred rt pid '' does not support deferred responses for '' (model_api m)))"

definition provider_cancelDeferred ::
  "js_runtime \<Rightarrow> string \<Rightarrow> 'c apis \<Rightarrow> request_model \<Rightarrow> string \<Rightarrow> provider_options \<Rightarrow> (cause, unit) result" where
  "provider_cancelDeferred rt pid a m h po =
     (case Option.bind (apiFor a m) api_cancelDeferred of
        Some f \<Rightarrow> f m h po
      | None \<Rightarrow> Inl (no_deferred rt pid '' cannot cancel deferred responses for '' (model_api m)))"

subsection \<open>Requests\<close>

record 'c models_impl =
  mi_registry :: registry
  mi_resolve :: "string \<Rightarrow> auth_overrides \<Rightarrow> (models_error, resolution option) result"
  mi_apis :: "string \<Rightarrow> 'c apis"

text \<open>The set-up of a request: the inner stream it forwards, or the failure.\<close>

definition set_up ::
  "js_runtime \<Rightarrow> 'c models_impl \<Rightarrow> request_model \<Rightarrow> models_options \<Rightarrow> (request_model \<Rightarrow> provider_options \<Rightarrow> inner_stream) \<Rightarrow> inner_stream" where
  "set_up rt mi m opt call =
     (case requireProvider rt (mi_registry mi) m of
        Inl e \<Rightarrow> SetupFailed e
      | Inr p \<Rightarrow>
          (case applyAuth rt (mi_registry mi) (mi_resolve mi) m opt of
             Inl e \<Rightarrow> SetupFailed e
           | Inr (rm, po) \<Rightarrow> call rm po))"

definition models_stream ::
  "js_runtime \<Rightarrow> rat \<Rightarrow> 'c models_impl \<Rightarrow> request_model \<Rightarrow> 'c \<Rightarrow> models_options \<Rightarrow> (assistant_event, assistant) stream_event list" where
  "models_stream rt now mi m ctx opt =
     lazyStream rt now (model.truncate m) (set_up rt mi m opt (\<lambda>rm po.
       dispatch rt now (model_provider m) (mi_apis mi (model_provider m)) rm (\<lambda>s. api_stream s rm ctx po)))"

definition models_streamSimple ::
  "js_runtime \<Rightarrow> rat \<Rightarrow> 'c models_impl \<Rightarrow> request_model \<Rightarrow> 'c \<Rightarrow> models_options \<Rightarrow> (assistant_event, assistant) stream_event list" where
  "models_streamSimple rt now mi m ctx opt =
     lazyStream rt now (model.truncate m) (set_up rt mi m opt (\<lambda>rm po.
       dispatch rt now (model_provider m) (mi_apis mi (model_provider m)) rm (\<lambda>s. api_streamSimple s rm ctx po)))"

definition deferred_unsupported :: "js_runtime \<Rightarrow> request_model \<Rightarrow> cause" where
  "deferred_unsupported rt m = models_cause (ModelsError rt ''provider''
     (''Provider '' @ model_provider m @ '' does not support deferred responses'') None)"

definition streamDeferred ::
  "js_runtime \<Rightarrow> rat \<Rightarrow> 'c models_impl \<Rightarrow> request_model \<Rightarrow> string \<Rightarrow> models_options \<Rightarrow> (assistant_event, assistant) stream_event list" where
  "streamDeferred rt now mi m h opt =
     lazyStream rt now (model.truncate m)
       (case requireProvider rt (mi_registry mi) m of
          Inl e \<Rightarrow> SetupFailed e
        | Inr p \<Rightarrow>
            (if \<not> supports_fetch (mi_apis mi (model_provider m)) then SetupFailed (deferred_unsupported rt m)
             else
               (case applyAuth rt (mi_registry mi) (mi_resolve mi) m opt of
                  Inl e \<Rightarrow> SetupFailed e
                | Inr (rm, po) \<Rightarrow> provider_fetchDeferred rt now (model_provider m) (mi_apis mi (model_provider m)) rm h po)))"

definition cancelDeferred ::
  "js_runtime \<Rightarrow> 'c models_impl \<Rightarrow> request_model \<Rightarrow> string \<Rightarrow> models_options \<Rightarrow> (cause, unit) result" where
  "cancelDeferred rt mi m h opt =
     (case requireProvider rt (mi_registry mi) m of
        Inl e \<Rightarrow> Inl e
      | Inr p \<Rightarrow>
          (if \<not> supports_cancel (mi_apis mi (model_provider m)) then Inl (deferred_unsupported rt m)
           else
             (case applyAuth rt (mi_registry mi) (mi_resolve mi) m opt of
                Inl e \<Rightarrow> Inl e
              | Inr (rm, po) \<Rightarrow> provider_cancelDeferred rt (model_provider m) (mi_apis mi (model_provider m)) rm h po)))"

subsection \<open>Refreshing the models of a provider\<close>

text \<open>\<open>refreshModels\<close> of \<open>createProvider\<close>: the publications it asks for and its outcome. The arguments
  are the answers it waits for: whether the stored models were published, whether the signal
  was aborted before and after the fetch, and what the fetch returned.\<close>

definition restored_models :: "string \<Rightarrow> model list \<Rightarrow> model list" where
  "restored_models pid ms = filter (\<lambda>m. model_provider m = pid) ms"

definition refreshModels ::
  "string \<Rightarrow> nat \<Rightarrow> nat \<Rightarrow> model list option \<Rightarrow> bool \<Rightarrow> bool \<Rightarrow> bool \<Rightarrow> (cause, model list) result \<Rightarrow> bool \<Rightarrow> rat \<Rightarrow>
   publication list \<times> (cause, unit) result" where
  "refreshModels pid generation controller stored published allowNetwork aborted fetched abortedAfter now =
     (let restore = (case stored of
            None \<Rightarrow> []
          | Some ms \<Rightarrow> [\<lparr>pub_generation = generation, pub_controller = controller, pub_persist = PersistSkip,
              pub_update = Some (restored_models pid ms)\<rparr>])
      in if stored \<noteq> None \<and> \<not> published then (restore, Inr ())
         else if \<not> allowNetwork \<or> aborted then (restore, Inr ())
         else
           (case fetched of
              Inl e \<Rightarrow> (restore, Inl e)
            | Inr ms \<Rightarrow>
                (if abortedAfter then (restore, Inr ())
                 else (restore @ [\<lparr>pub_generation = generation, pub_controller = controller,
                   pub_persist = PersistWrite ms now, pub_update = Some ms\<rparr>], Inr ()))))"

text \<open>The credential of the network phase. \<open>current\<close> is what the store holds when the modification
  runs; the key lookup of the provider is an argument.\<close>

definition resolveRefreshCredential ::
  "'a auth_impl \<Rightarrow> (credential option \<Rightarrow> (cause, resolution option) result) option \<Rightarrow> rat \<Rightarrow> rat \<Rightarrow> bool \<Rightarrow> credential option \<Rightarrow>
   credential option \<Rightarrow> (cause, credential option) result" where
  "resolveRefreshCredential impl apiKey now later aborted stored current =
     (case stored of
        Some (OAuthC e t) \<Rightarrow>
          (if \<not> has_oauth impl then Inr None
           else if now < e then Inr stored
           else if aborted then Inr None
           else
             (case current of
                Some (OAuthC e1 t1) \<Rightarrow>
                  (if later < e1 then Inr current
                   else (case oauth_refresh impl (OAuthC e1 t1) of
                           Inl err \<Rightarrow> Inl err
                         | Inr c \<Rightarrow> Inr (if is_oauth (Some c) then Some c else None)))
              | _ \<Rightarrow> Inr None))
      | _ \<Rightarrow>
          (case apiKey of
             None \<Rightarrow> Inr None
           | Some f \<Rightarrow>
               (case f stored of
                  Inl err \<Rightarrow> Inl err
                | Inr None \<Rightarrow> Inr None
                | Inr (Some res) \<Rightarrow>
                    Inr (Some (ApiKeyC (auth_apiKey (res_auth res)) (case res_env res of None \<Rightarrow> [] | Some e \<Rightarrow> e))))))"

text \<open>The operation of \<open>refresh\<close> for one provider: the phases it runs, each with its credential and
  whether it may use the network, and its outcome. \<open>phase\<close> tells how a phase ends.\<close>

definition refresh_operation ::
  "js_runtime \<Rightarrow> string \<Rightarrow> (cause, credential option) result \<Rightarrow> (credential option \<Rightarrow> bool \<Rightarrow> (cause, unit) result) \<Rightarrow> bool \<Rightarrow> bool \<Rightarrow>
   (credential option \<Rightarrow> (cause, credential option) result) \<Rightarrow> (credential option \<times> bool) list \<times> (cause, unit) result" where
  "refresh_operation rt pid cred_read phase allowNetwork aborted resolve =
     (let stored = (case cred_read of Inl e \<Rightarrow> None | Inr c \<Rightarrow> c) in
      case phase stored False of
        Inl e \<Rightarrow> ([(stored, False)], Inl e)
      | Inr _ \<Rightarrow>
          (case cred_read of
             Inl e \<Rightarrow> ([(stored, False)], Inl (models_cause (ModelsError rt ''auth'' (''Credential store read failed for '' @ pid) (Some e))))
           | Inr _ \<Rightarrow>
               (if \<not> allowNetwork \<or> aborted then ([(stored, False)], Inr ())
                else
                  (case resolve stored of
                     Inl e \<Rightarrow> ([(stored, False)], Inl e)
                   | Inr None \<Rightarrow> ([(stored, False)], Inr ())
                   | Inr (Some c) \<Rightarrow> ([(stored, False), (Some c, True)], phase (Some c) True)))))"

text \<open>The provider's entry in the errors of \<open>refresh\<close>: an error after the abort is dropped.\<close>

definition refresh_error :: "js_runtime \<Rightarrow> string \<Rightarrow> bool \<Rightarrow> (cause, unit) result \<Rightarrow> cause option" where
  "refresh_error rt pid aborted r =
     (case r of
        Inr _ \<Rightarrow> None
      | Inl e \<Rightarrow>
          (if aborted then None
           else (case e of
                   ErrorCause n msg \<Rightarrow> Some e
                 | ValueCause v \<Rightarrow> Some (models_cause (ModelsError rt ''model_source'' (''Model refresh failed for '' @ pid) (Some e))))))"

text \<open>The providers that \<open>refresh\<close> selects, and the errors it returns.\<close>

definition refreshable :: "registry \<Rightarrow> (provider \<Rightarrow> bool) \<Rightarrow> string list option \<Rightarrow> provider list" where
  "refreshable r canRefresh selected =
     filter (\<lambda>p. canRefresh p \<and> (case selected of None \<Rightarrow> True | Some ids \<Rightarrow> prov_id p \<in> set ids)) (map snd (providers r))"

definition refresh_errors ::
  "js_runtime \<Rightarrow> provider list \<Rightarrow> (provider \<Rightarrow> bool) \<Rightarrow> (provider \<Rightarrow> (cause, unit) result) \<Rightarrow> (string \<times> cause) list" where
  "refresh_errors rt ps aborted outcome =
     List.map_filter (\<lambda>p. map_option (Pair (prov_id p)) (refresh_error rt (prov_id p) (aborted p) (outcome p))) ps"

subsection \<open>Availability\<close>

datatype auth_check = AuthCheck string string

definition checkProviderAuth ::
  "js_runtime \<Rightarrow> string \<Rightarrow> bool \<Rightarrow> bool \<Rightarrow> (credential option \<Rightarrow> (cause, auth_check option) result) option \<Rightarrow>
   (models_error, resolution option) result \<Rightarrow> credential option \<Rightarrow> (models_error, auth_check option) result" where
  "checkProviderAuth rt pid hasOAuth hasApiKey check resolved cred =
     (if is_oauth cred then Inr (if hasOAuth then Some (AuthCheck ''OAuth'' ''oauth'') else None)
      else if \<not> hasApiKey then Inr None
      else
        (case check of
           Some f \<Rightarrow>
             (case f cred of
                Inr a \<Rightarrow> Inr a
              | Inl e \<Rightarrow> Inl (ModelsError rt ''auth'' (''API key auth check failed for provider '' @ pid) (Some e)))
         | None \<Rightarrow>
             (case resolved of
                Inl e \<Rightarrow> Inl e
              | Inr None \<Rightarrow> Inr None
              | Inr (Some res) \<Rightarrow> Inr (Some (AuthCheck (res_source res) ''api_key'')))))"

text \<open>\<open>getAvailable\<close>: the checks of all providers are awaited together, so the first failure in
  their order is the outcome when they settle in that order.\<close>

fun all_checks :: "('p \<Rightarrow> ('e, 'a) result) \<Rightarrow> 'p list \<Rightarrow> ('e, ('p \<times> 'a) list) result" where
  "all_checks f [] = Inr []"
| "all_checks f (p # ps) =
     (case f p of
        Inl e \<Rightarrow> Inl e
      | Inr a \<Rightarrow> (case all_checks f ps of Inl e \<Rightarrow> Inl e | Inr rest \<Rightarrow> Inr ((p, a) # rest)))"

definition getAvailable ::
  "registry \<Rightarrow> (provider \<Rightarrow> (models_error, auth_check option) result) \<Rightarrow> (provider \<Rightarrow> model list \<Rightarrow> model list) \<Rightarrow> string option \<Rightarrow>
   (models_error, model list) result" where
  "getAvailable r check filterModels pid =
     (let ps = (case pid of
            Some i \<Rightarrow> if i = '''' then map snd (providers r)
              else (case map_of (providers r) i of None \<Rightarrow> [] | Some p \<Rightarrow> [p])
          | None \<Rightarrow> map snd (providers r))
      in case all_checks check ps of
           Inl e \<Rightarrow> Inl e
         | Inr cs \<Rightarrow> Inr (concat (map (\<lambda>(p, a). if a = None then [] else filterModels p (currentModels p)) cs)))"

subsection \<open>Login\<close>

text \<open>The login waits for the provider, then for its place in the queue of the credential store,
  then for the modification; an abort counts until the modification starts.\<close>

datatype login_error = LoginAborted | LoginRaised cause

datatype login_state =
    AwaitLogin
  | AwaitStart credential
  | AwaitMutation credential bool
  | LoginDone "(login_error, credential) result"

datatype login_event = AbortE | LoggedInE "(cause, credential) result" | StartedE | MutationE "(cause, unit) result"

definition login_failed :: "js_runtime \<Rightarrow> string \<Rightarrow> cause \<Rightarrow> login_error" where
  "login_failed rt pid e = LoginRaised (models_cause (ModelsError rt ''auth'' (''Credential store modify failed for '' @ pid) (Some e)))"

fun login_step :: "js_runtime \<Rightarrow> string \<Rightarrow> login_event \<Rightarrow> login_state \<Rightarrow> login_state" where
  "login_step rt pid AbortE AwaitLogin = LoginDone (Inl LoginAborted)"
| "login_step rt pid (LoggedInE (Inl e)) AwaitLogin = LoginDone (Inl (LoginRaised e))"
| "login_step rt pid (LoggedInE (Inr c)) AwaitLogin = AwaitStart c"
| "login_step rt pid AbortE (AwaitStart c) = LoginDone (Inl LoginAborted)"
| "login_step rt pid StartedE (AwaitStart c) = AwaitMutation c False"
| "login_step rt pid (MutationE (Inl e)) (AwaitStart c) = LoginDone (Inl (login_failed rt pid e))"
| "login_step rt pid (MutationE (Inr u)) (AwaitStart c) = LoginDone (Inr c)"
| "login_step rt pid AbortE (AwaitMutation c b) = AwaitMutation c True"
| "login_step rt pid (MutationE (Inr u)) (AwaitMutation c b) = LoginDone (Inr c)"
| "login_step rt pid (MutationE (Inl e)) (AwaitMutation c b) = LoginDone (Inl (if b then LoginAborted else login_failed rt pid e))"
| "login_step rt pid ev st = st"

definition login_start :: "js_runtime \<Rightarrow> registry \<Rightarrow> string \<Rightarrow> string \<Rightarrow> bool \<Rightarrow> bool \<Rightarrow> string \<Rightarrow> login_state" where
  "login_start rt r pid loginType hasLogin aborted provName =
     (if aborted then LoginDone (Inl LoginAborted)
      else
        case map_of (providers r) pid of
          None \<Rightarrow> LoginDone (Inl (LoginRaised (models_cause (ModelsError rt ''provider'' (''Unknown provider: '' @ pid) None))))
        | Some p \<Rightarrow>
            (if \<not> hasLogin
             then LoginDone (Inl (LoginRaised (models_cause (ModelsError rt ''auth''
               (provName @ '' does not support '' @ loginType @ '' login'') None))))
             else AwaitLogin))"

definition login_run :: "js_runtime \<Rightarrow> string \<Rightarrow> login_event list \<Rightarrow> login_state \<Rightarrow> login_state" where
  "login_run rt pid evs st = fold (login_step rt pid) evs st"

definition logout :: "js_runtime \<Rightarrow> string \<Rightarrow> bool \<Rightarrow> (cause, unit) result \<Rightarrow> bool \<Rightarrow> (login_error, unit) result" where
  "logout rt pid aborted deleted abortedAfter =
     (if aborted then Inl LoginAborted
      else
        (case deleted of
           Inr _ \<Rightarrow> Inr ()
         | Inl e \<Rightarrow>
             (if abortedAfter then Inl LoginAborted
              else Inl (LoginRaised (models_cause (ModelsError rt ''auth'' (''Credential store delete failed for '' @ pid) (Some e)))))))"

subsection \<open>What a request carries\<close>

abbreviation option_header :: "headers option \<Rightarrow> string \<Rightarrow> string option" where
  "option_header h n \<equiv> (case h of None \<Rightarrow> None | Some hs \<Rightarrow> header_value hs n)"

abbreviation option_names_ok :: "headers option \<Rightarrow> bool" where
  "option_names_ok h \<equiv> (case h of None \<Rightarrow> True | Some hs \<Rightarrow> distinct (header_names hs))"

definition or_else :: "'a option \<Rightarrow> 'a option \<Rightarrow> 'a option" where
  "or_else x y = (case x of Some v \<Rightarrow> Some v | None \<Rightarrow> y)"

lemma or_else_simps [simp]: "or_else (Some v) y = Some v" "or_else None y = y" "or_else x None = x"
  by (simp_all add: or_else_def split: option.split)

lemma or_else_assoc: "or_else (or_else x y) z = or_else x (or_else y z)"
  by (cases x) simp_all

lemma header_value_empty [simp]: "header_value [] n = None"
  by (simp add: header_value_def)

lemma mergeHeaders_value:
  assumes "option_names_ok over"
  shows "option_header (mergeHeaders base over) n = or_else (option_header over n) (option_header base n)"
  using assms fold_put_header_value [of "the over" "case base of None \<Rightarrow> [] | Some b \<Rightarrow> b" n]
  by (cases over; cases base) (auto simp: mergeHeaders_def or_else_def split: option.split)

lemma merge_env_value:
  "distinct (map fst over) \<Longrightarrow> map_of (merge_env base over) n = or_else (map_of over n) (map_of base n)"
proof (induction over arbitrary: base)
  case (Cons kv over)
  obtain k v where kv: "kv = (k, v)" by (cases kv)
  have "map_of (merge_env base (kv # over)) n = map_of (merge_env (AList.update k v base) over) n"
    by (simp add: merge_env_def kv)
  also have "\<dots> = or_else (map_of over n) (map_of (AList.update k v base) n)"
    using Cons by (simp add: kv)
  finally show ?case
    using Cons.prems by (force simp: kv update_conv' or_else_def map_of_eq_None_iff split: option.split dest: map_of_SomeD)
qed (simp add: merge_env_def)

lemma request_env_value:
  assumes "case over of None \<Rightarrow> True | Some e \<Rightarrow> distinct (map fst e)"
  shows "Option.bind (request_env base over) (\<lambda>e. map_of e n) =
    or_else (Option.bind over (\<lambda>e. map_of e n)) (Option.bind base (\<lambda>e. map_of e n))"
  using assms merge_env_value [of "the over" "case base of None \<Rightarrow> [] | Some b \<Rightarrow> b" n]
  by (cases over; cases base) (auto simp: request_env_def, auto simp: merge_env_def)

lemma requireProvider_ok: "requireProvider rt r m = Inr p \<Longrightarrow> map_of (providers r) (model_provider m) = Some p"
  by (simp add: requireProvider_def split: option.splits)

lemma getAuth_ok:
  assumes "getAuth r resolve m ov = Inr (Some res)"
  shows "\<exists>res0. resolve (model_provider m) ov = Inr (Some res0) \<and>
    res_env res = res_env res0 \<and> auth_apiKey (res_auth res) = auth_apiKey (res_auth res0) \<and>
    auth_baseUrl (res_auth res) = auth_baseUrl (res_auth res0) \<and>
    auth_headers (res_auth res) = (if model_headers m = None then auth_headers (res_auth res0)
      else mergeHeaders (auth_headers (res_auth res0)) (model_headers m))"
  using assms by (auto simp: getAuth_def split: option.splits sum.splits if_splits)

text \<open>C35. A request that reaches an API is authorised and carries what was asked for: its provider is
  registered and resolved to an authentication; its key is the caller's if there is one and the
  resolved one otherwise; a header has the caller's value, else the model's, else that of the
  authentication, whatever the spelling of its name; a variable of its environment has the
  caller's value, else the resolved one; and only the address of the model may change.\<close>

theorem request_authorised:
  assumes "applyAuth rt r resolve m opt = Inr (rm, po)" "transformHeaders opt = None"
    and "option_names_ok (opt_headers opt)" "option_names_ok (model_headers m)"
    and "case opt_env opt of None \<Rightarrow> True | Some e \<Rightarrow> distinct (map fst e)"
  shows "\<exists>p res. map_of (providers r) (model_provider m) = Some p \<and>
      resolve (model_provider m) \<lparr>ov_apiKey = opt_apiKey opt, ov_env = opt_env opt, ov_minValidity = None\<rparr> = Inr (Some res) \<and>
      po_apiKey po = or_else (opt_apiKey opt) (auth_apiKey (res_auth res)) \<and>
      option_header (po_headers po) n =
        or_else (option_header (opt_headers opt) n) (or_else (option_header (model_headers m) n) (option_header (auth_headers (res_auth res)) n)) \<and>
      Option.bind (po_env po) (\<lambda>e. map_of e n) =
        or_else (Option.bind (opt_env opt) (\<lambda>e. map_of e n)) (Option.bind (res_env res) (\<lambda>e. map_of e n)) \<and>
      model.truncate rm = model.truncate m \<and> model_headers rm = model_headers m \<and>
      model_baseUrl rm = (case auth_baseUrl (res_auth res) of Some u \<Rightarrow> if u \<noteq> '''' then u else model_baseUrl m | None \<Rightarrow> model_baseUrl m)"
proof -
  let ?ov = "\<lparr>ov_apiKey = opt_apiKey opt, ov_env = opt_env opt, ov_minValidity = None\<rparr>"
  obtain p res where p: "requireProvider rt r m = Inr p" and res: "getAuth r resolve m ?ov = Inr (Some res)"
    and rm: "rm = (case auth_baseUrl (res_auth res) of Some u \<Rightarrow> if u \<noteq> '''' then m\<lparr>model_baseUrl := u\<rparr> else m | None \<Rightarrow> m)"
    and po: "po = \<lparr>po_apiKey = or_else (opt_apiKey opt) (auth_apiKey (res_auth res)),
      po_headers = mergeHeaders (auth_headers (res_auth res)) (opt_headers opt), po_env = request_env (res_env res) (opt_env opt)\<rparr>"
    using assms(1,2) by (auto simp: applyAuth_def Let_def or_else_def split: sum.splits option.splits)
  from getAuth_ok [OF res] obtain res0 where
    res0: "resolve (model_provider m) ?ov = Inr (Some res0)" "res_env res = res_env res0"
      "auth_apiKey (res_auth res) = auth_apiKey (res_auth res0)" "auth_baseUrl (res_auth res) = auth_baseUrl (res_auth res0)"
      "auth_headers (res_auth res) = (if model_headers m = None then auth_headers (res_auth res0)
         else mergeHeaders (auth_headers (res_auth res0)) (model_headers m))" by blast
  have "option_header (auth_headers (res_auth res)) n = or_else (option_header (model_headers m) n) (option_header (auth_headers (res_auth res0)) n)"
    using res0(5) mergeHeaders_value [OF assms(4)] by simp
  then have "option_header (po_headers po) n = or_else (option_header (opt_headers opt) n)
      (or_else (option_header (model_headers m) n) (option_header (auth_headers (res_auth res0)) n))"
    using mergeHeaders_value [OF assms(3)] by (simp add: po)
  moreover have "Option.bind (po_env po) (\<lambda>e. map_of e n) =
      or_else (Option.bind (opt_env opt) (\<lambda>e. map_of e n)) (Option.bind (res_env res0) (\<lambda>e. map_of e n))"
    using request_env_value [OF assms(5)] by (simp add: po res0(2))
  moreover have "model.truncate rm = model.truncate m" "model_headers rm = model_headers m"
      "model_baseUrl rm = (case auth_baseUrl (res_auth res0) of Some u \<Rightarrow> if u \<noteq> '''' then u else model_baseUrl m | None \<Rightarrow> model_baseUrl m)"
    by (simp_all add: rm res0(4) model.truncate_def split: option.split)
  ultimately show ?thesis
    using requireProvider_ok [OF p] res0(1,3) by (auto simp: po)
qed

definition example_registry :: registry where
  "example_registry = registry_init\<lparr>providers := [(''p'', \<lparr>prov_id = ''p'', baselineModels = [], dynamicModels = []\<rparr>)]\<rparr>"

definition example_request :: request_model where
  "example_request = model.extend (example_model\<lparr>model_provider := ''p''\<rparr>)
     \<lparr>model_headers = Some [(''X-Model'', ''m''), (''x-trace'', ''model'')], model_baseUrl = ''http://a''\<rparr>"

definition example_resolution :: resolution where
  "example_resolution = \<lparr>res_auth = \<lparr>auth_apiKey = Some ''stored'', auth_headers = Some [(''Authorization'', ''t'')], auth_baseUrl = Some ''http://b''\<rparr>,
     res_env = None, res_source = ''key''\<rparr>"

theorem request_authorised_witness:
  "\<exists>rm po. applyAuth example_runtime example_registry (\<lambda>p ov. Inr (Some example_resolution)) example_request
       \<lparr>opt_apiKey = Some ''mine'', opt_env = None, opt_headers = Some [(''X-Trace'', ''call'')], transformHeaders = None\<rparr> = Inr (rm, po) \<and>
     po_apiKey po = Some ''mine'' \<and> option_header (po_headers po) ''x-TRACE'' = Some ''call'' \<and> model_baseUrl rm = ''http://b''"
proof -
  let ?opt = "\<lparr>opt_apiKey = Some ''mine'', opt_env = None, opt_headers = Some [(''X-Trace'', ''call'')], transformHeaders = None\<rparr>"
  let ?res = "\<lambda>p ov. Inr (Some example_resolution)"
  have names: "option_names_ok (opt_headers ?opt)" "option_names_ok (model_headers example_request)"
    by (simp_all add: header_names_def example_request_def model.extend_def lower_def code_def)
  obtain rm po where run: "applyAuth example_runtime example_registry ?res example_request ?opt = Inr (rm, po)"
    by (simp add: applyAuth_def requireProvider_def getAuth_def example_registry_def example_request_def example_model_def
        model.extend_def registry_init_def Let_def example_resolution_def)
  have "header_value [(''X-Trace'', ''call'')] ''x-TRACE'' = Some ''call''"
    by code_simp
  then show ?thesis
    using request_authorised [OF run _ names, of "''x-TRACE''"] run by (auto simp: example_resolution_def)
qed

subsection \<open>The outcome of a login\<close>

text \<open>C36. A login that reports the abort had either not started to
  change the credential store when it was aborted, or the change failed; and a login that
  succeeds returns the credential that the provider gave and that the store has accepted.\<close>

theorem login_outcome:
  assumes "login_run rt pid evs AwaitLogin = LoginDone r"
  shows "\<exists>pre ev post. evs = pre @ ev # post \<and>
    (case r of
       Inr c \<Rightarrow> LoggedInE (Inr c) \<in> set pre \<and> ev = MutationE (Inr ())
     | Inl LoginAborted \<Rightarrow>
         AbortE \<in> set (pre @ [ev]) \<and>
         (ev = AbortE \<and> (\<forall>c b. login_run rt pid pre AwaitLogin \<noteq> AwaitMutation c b) \<or> (\<exists>e. ev = MutationE (Inl e)))
     | Inl (LoginRaised x) \<Rightarrow> (\<exists>e. ev = LoggedInE (Inl e) \<or> ev = MutationE (Inl e)))"
proof -
  define ok where "ok pre ev = (case r of
      Inr c \<Rightarrow> LoggedInE (Inr c) \<in> set pre \<and> ev = MutationE (Inr ())
    | Inl LoginAborted \<Rightarrow> AbortE \<in> set (pre @ [ev]) \<and>
        (ev = AbortE \<and> (\<forall>c b. login_run rt pid pre AwaitLogin \<noteq> AwaitMutation c b) \<or> (\<exists>e. ev = MutationE (Inl e)))
    | Inl (LoginRaised x) \<Rightarrow> (\<exists>e. ev = LoggedInE (Inl e) \<or> ev = MutationE (Inl e)))" for pre ev
  have inv: "(login_run rt pid es AwaitLogin = AwaitStart c \<longrightarrow> LoggedInE (Inr c) \<in> set es) \<and>
      (login_run rt pid es AwaitLogin = AwaitMutation c b \<longrightarrow> LoggedInE (Inr c) \<in> set es \<and> (b \<longrightarrow> AbortE \<in> set es))" for es c b
  proof (induction es arbitrary: c b rule: rev_induct)
    case (snoc x es)
    then show ?case
      by (cases "(rt, pid, x, login_run rt pid es AwaitLogin)" rule: login_step.cases) (auto simp: login_run_def)
  qed (simp add: login_run_def)
  from assms have "\<exists>pre ev post. evs = pre @ ev # post \<and> ok pre ev"
  proof (induction evs rule: rev_induct)
    case (snoc x es)
    show ?case
    proof (cases "\<exists>q. login_run rt pid es AwaitLogin = LoginDone q")
      case True
      then have "login_run rt pid es AwaitLogin = LoginDone r" using snoc.prems by (auto simp: login_run_def)
      from snoc.IH [OF this] obtain pre ev post where "es = pre @ ev # post" "ok pre ev" by blast
      then have "es @ [x] = pre @ ev # (post @ [x])" by simp
      with \<open>ok pre ev\<close> show ?thesis by blast
    next
      case False
      then have "login_step rt pid x (login_run rt pid es AwaitLogin) = LoginDone r" using snoc.prems by (simp add: login_run_def)
      with False inv [of es] have "ok es x"
        by (cases "(rt, pid, x, login_run rt pid es AwaitLogin)" rule: login_step.cases) (auto simp: ok_def login_failed_def split: if_splits)
      then show ?thesis by blast
    qed
  qed (simp add: login_run_def)
  then show ?thesis by (simp add: ok_def)
qed

text \<open>An abort after the modification has started does not undo the login.\<close>

theorem login_outcome_witness:
  "login_run example_runtime ''p'' [LoggedInE (Inr (OAuthC 1 ''t'')), StartedE, AbortE, MutationE (Inr ())] AwaitLogin =
     LoginDone (Inr (OAuthC 1 ''t'')) \<and>
   (\<exists>pre ev post. [LoggedInE (Inr (OAuthC 1 ''t'')), StartedE, AbortE, MutationE (Inr ())] = pre @ ev # post \<and>
     LoggedInE (Inr (OAuthC 1 ''t'')) \<in> set pre \<and> ev = MutationE (Inr ()))"
proof -
  have *: "login_run example_runtime ''p'' [LoggedInE (Inr (OAuthC 1 ''t'')), StartedE, AbortE, MutationE (Inr ())] AwaitLogin =
     LoginDone (Inr (OAuthC 1 ''t''))" by (simp add: login_run_def)
  from login_outcome [OF this] show ?thesis using * by simp
qed

end
