(* ===== verification/Provider_Retry.thy ===== *)
theory Provider_Retry
  imports Pi_Models
begin

text \<open>
  Retrying a provider request (\<open>utils/provider-retry.js\<close> of the bundled \<open>pi-ai\<close> in
  \<open>bridge.mjs\<close>): which errors are retried, how long to wait before the next attempt, and the
  loop. The requests, the clock, the random numbers and the aborts are arguments; \<open>Date.parse\<close>
  is the runtime's. Only finitely many retries are configured, so their number is a natural
  number.
\<close>

subsection \<open>Errors\<close>

record provider_error =
  pe_status :: "rat option"
  pe_headers :: "headers option"
  pe_message :: string

text \<open>\<open>isProviderError\<close> tells an error with a status and headers from any other one.\<close>

datatype 'e request_error = ProviderError provider_error | OtherError 'e | ErrorText string | AbortError

definition error_header :: "provider_error \<Rightarrow> string \<Rightarrow> string option" where
  "error_header e n = (case pe_headers e of None \<Rightarrow> None | Some h \<Rightarrow> header_value h n)"

definition isRetryableProviderError :: "provider_error \<Rightarrow> bool" where
  "isRetryableProviderError e =
     (let shouldRetry = error_header e ''x-should-retry'' in
      if shouldRetry = Some ''true'' then True
      else if shouldRetry = Some ''false'' then False
      else
        (case pe_status e of
           None \<Rightarrow> True
         | Some s \<Rightarrow> s = 408 \<or> s = 409 \<or> s = 429 \<or> 500 \<le> s))"

subsection \<open>Delays\<close>

text \<open>\<open>Number.parseFloat\<close>: the longest prefix, after white space, that is a decimal number.\<close>

fun longest_number :: "nat \<Rightarrow> string \<Rightarrow> jsnum" where
  "longest_number 0 s = NaN"
| "longest_number (Suc n) s = (case js_decimal (take (Suc n) s) of NaN \<Rightarrow> longest_number n s | x \<Rightarrow> x)"

definition parseFloat :: "string \<Rightarrow> jsnum" where
  "parseFloat s = (let t = dropWhile js_ws s in longest_number (length t) t)"

definition DEFAULT_MAX_RETRY_DELAY_MS :: rat where
  "DEFAULT_MAX_RETRY_DELAY_MS = 60000"

fun times1000 :: "jsnum \<Rightarrow> jsnum" where
  "times1000 (Num q) = Num (q * 1000)"
| "times1000 x = x"

fun minus_num :: "jsnum \<Rightarrow> rat \<Rightarrow> jsnum" where
  "minus_num (Num q) t = Num (q - t)"
| "minus_num x t = x"

fun num_greater :: "jsnum \<Rightarrow> rat \<Rightarrow> bool" where
  "num_greater (Num q) t = (q > t)"
| "num_greater Infinity t = True"
| "num_greater _ t = False"

definition seconds_text :: "jsnum \<Rightarrow> string" where
  "seconds_text x = (case x of Num q \<Rightarrow> string_of_nat (nat \<lceil>q / 1000\<rceil>) | _ \<Rightarrow> ''Infinity'')"

definition validateServerRetryDelayMs :: "jsnum \<Rightarrow> rat option \<Rightarrow> string \<Rightarrow> (string, jsnum) result" where
  "validateServerRetryDelayMs delayMs maxRetryDelayMs msg =
     (let maxDelayMs = (case maxRetryDelayMs of Some m \<Rightarrow> m | None \<Rightarrow> DEFAULT_MAX_RETRY_DELAY_MS) in
      if maxDelayMs > 0 \<and> num_greater delayMs maxDelayMs
      then Inl (''Server requested '' @ seconds_text delayMs @ ''s retry delay (max: '' @ seconds_text (Num maxDelayMs) @ ''s). '' @ msg)
      else Inr delayMs)"

definition exponential_delay :: "nat \<Rightarrow> rat \<Rightarrow> rat" where
  "exponential_delay retryIndex random = min (2 ^ retryIndex / 2) 8 * 1000 * (1 - random / 4)"

definition getRetryDelayMs ::
  "(string \<Rightarrow> jsnum) \<Rightarrow> rat \<Rightarrow> rat \<Rightarrow> provider_error \<Rightarrow> nat \<Rightarrow> rat option \<Rightarrow> (string, jsnum) result" where
  "getRetryDelayMs parseDate now random e retryIndex maxRetryDelayMs =
     (let ms = (case error_header e ''retry-after-ms'' of
            Some h \<Rightarrow> if h = '''' then NaN else parseFloat h | None \<Rightarrow> NaN)
      in if ms \<noteq> NaN then validateServerRetryDelayMs ms maxRetryDelayMs (pe_message e)
         else
           (case error_header e ''retry-after'' of
              Some h \<Rightarrow>
                (if h = '''' then Inr (Num (exponential_delay retryIndex random))
                 else
                   (let seconds = parseFloat h;
                        delayMs = (if seconds = NaN then minus_num (parseDate h) now else times1000 seconds)
                    in validateServerRetryDelayMs delayMs maxRetryDelayMs (pe_message e)))
            | None \<Rightarrow> Inr (Num (exponential_delay retryIndex random))))"

text \<open>The delay of a timer: a number that is not between 1 and \<open>2 ^ 31 - 1\<close> counts as 1.\<close>

definition timer_ms :: "jsnum \<Rightarrow> rat" where
  "timer_ms x = (case x of Num q \<Rightarrow> if 1 \<le> q \<and> q \<le> 2147483647 then q else 1 | _ \<Rightarrow> 1)"

definition abortableSleep :: "jsnum \<Rightarrow> bool \<Rightarrow> bool \<Rightarrow> ('e request_error, rat) result" where
  "abortableSleep ms abortedBefore abortedDuring =
     (if abortedBefore \<or> abortedDuring then Inl AbortError
      else Inr (timer_ms (case ms of Num q \<Rightarrow> Num (max 0 q) | NegInfinity \<Rightarrow> Num 0 | x \<Rightarrow> x)))"

subsection \<open>The loop\<close>

record retry_world =
  rw_parseDate :: "string \<Rightarrow> jsnum"
  rw_now :: "nat \<Rightarrow> rat"
  rw_random :: "nat \<Rightarrow> rat"
  rw_aborted :: "nat \<Rightarrow> bool"
  rw_abortedSleep :: "nat \<Rightarrow> bool"

text \<open>From the attempt \<open>i\<close> with \<open>retriesRemaining\<close> retries left: the waits between the attempts and the
  outcome.\<close>

fun retry_from ::
  "retry_world \<Rightarrow> (nat \<Rightarrow> ('e request_error, 'a) result) \<Rightarrow> nat \<Rightarrow> rat option \<Rightarrow> nat \<Rightarrow> nat \<Rightarrow>
   rat list \<times> ('e request_error, 'a) result" where
  "retry_from w request maxRetries maxDelay retriesRemaining i =
     (case request i of
        Inr v \<Rightarrow> ([], Inr v)
      | Inl e \<Rightarrow>
          (if rw_aborted w i then ([], Inl AbortError)
           else
             (case (retriesRemaining, e) of
                (Suc n, ProviderError pe) \<Rightarrow>
                  (if \<not> isRetryableProviderError pe then ([], Inl e)
                   else
                     (case getRetryDelayMs (rw_parseDate w) (rw_now w i) (rw_random w i) pe (maxRetries - retriesRemaining) maxDelay of
                        Inl msg \<Rightarrow> ([], Inl (ErrorText msg))
                      | Inr d \<Rightarrow>
                          (case abortableSleep d (rw_aborted w i) (rw_abortedSleep w i) of
                             Inl a \<Rightarrow> ([], Inl a)
                           | Inr t \<Rightarrow>
                               (let (ts, r) = retry_from w request maxRetries maxDelay n (Suc i) in (t # ts, r)))))
              | _ \<Rightarrow> ([], Inl e))))"

declare retry_from.simps [simp del]

definition retryProviderRequest ::
  "retry_world \<Rightarrow> (nat \<Rightarrow> ('e request_error, 'a) result) \<Rightarrow> nat option \<Rightarrow> rat option \<Rightarrow> rat list \<times> ('e request_error, 'a) result" where
  "retryProviderRequest w request maxRetries maxDelay =
     (let n = (case maxRetries of Some k \<Rightarrow> k | None \<Rightarrow> 0) in retry_from w request n maxDelay n 0)"

subsection \<open>Bounds\<close>

lemma timer_ms_bounds: "0 < timer_ms x" "(\<And>q. x = Num q \<Longrightarrow> q \<le> b) \<Longrightarrow> 1 \<le> b \<Longrightarrow> timer_ms x \<le> b"
  by (auto simp: timer_ms_def split: jsnum.split)

lemma exponential_delay_le:
  assumes "0 \<le> random" "random \<le> 1"
  shows "exponential_delay k random \<le> 8000"
proof -
  let ?m = "min (2 ^ k / 2) (8 :: rat)"
  have "?m \<ge> 0" "?m \<le> 8" by simp_all
  moreover have "1 - random / 4 \<ge> 0" "1 - random / 4 \<le> 1" using assms by simp_all
  ultimately have "?m * (1 - random / 4) \<le> 8 * 1" by (intro mult_mono) simp_all
  moreover have "exponential_delay k random = 1000 * (?m * (1 - random / 4))"
    by (simp only: exponential_delay_def mult.assoc mult.left_commute mult.commute)
  ultimately show ?thesis by linarith
qed

lemma validate_le:
  assumes "validateServerRetryDelayMs x maxDelay msg = Inr d" "lim1 = (case maxDelay of Some m \<Rightarrow> m | None \<Rightarrow> DEFAULT_MAX_RETRY_DELAY_MS)"
    and "0 < lim1" "d = Num q"
  shows "q \<le> lim1"
  using assms by (auto simp: validateServerRetryDelayMs_def Let_def split: if_splits)

text \<open>A delay is one that the server asked for or the back-off.\<close>

lemma retry_delay_cases:
  "(\<exists>x. getRetryDelayMs parseDate now random e k maxDelay = validateServerRetryDelayMs x maxDelay (pe_message e)) \<or>
   getRetryDelayMs parseDate now random e k maxDelay = Inr (Num (exponential_delay k random))"
proof -
  define ms where "ms = (case error_header e ''retry-after-ms'' of Some h \<Rightarrow> if h = '''' then NaN else parseFloat h | None \<Rightarrow> NaN)"
  have eq: "getRetryDelayMs parseDate now random e k maxDelay =
     (if ms \<noteq> NaN then validateServerRetryDelayMs ms maxDelay (pe_message e)
      else (case error_header e ''retry-after'' of
              Some h \<Rightarrow>
                (if h = '''' then Inr (Num (exponential_delay k random))
                 else validateServerRetryDelayMs (if parseFloat h = NaN then minus_num (parseDate h) now else times1000 (parseFloat h))
                   maxDelay (pe_message e))
            | None \<Rightarrow> Inr (Num (exponential_delay k random))))"
    unfolding getRetryDelayMs_def Let_def ms_def by (rule refl)
  show ?thesis
  proof (cases "ms = NaN")
    case True
    show ?thesis
    proof (cases "error_header e ''retry-after''")
      case (Some h)
      with True show ?thesis unfolding eq by (cases "h = ''''") auto
    qed (use True in \<open>simp add: eq\<close>)
  qed (auto simp: eq)
qed

lemma retry_delay_le:
  assumes "getRetryDelayMs parseDate now random e k maxDelay = Inr d" "0 \<le> random" "random \<le> 1"
    and "lim1 = (case maxDelay of Some m \<Rightarrow> m | None \<Rightarrow> DEFAULT_MAX_RETRY_DELAY_MS)" "0 < lim1" "d = Num q"
  shows "q \<le> max lim1 8000"
  using retry_delay_cases [of parseDate now random e k maxDelay]
proof (elim disjE exE)
  fix x assume "getRetryDelayMs parseDate now random e k maxDelay = validateServerRetryDelayMs x maxDelay (pe_message e)"
  with assms(1) have "validateServerRetryDelayMs x maxDelay (pe_message e) = Inr d" by simp
  from validate_le [OF this assms(4,5,6)] show ?thesis by simp
next
  assume "getRetryDelayMs parseDate now random e k maxDelay = Inr (Num (exponential_delay k random))"
  with assms(1,6) have "q = exponential_delay k random" by simp
  then show ?thesis using exponential_delay_le [OF assms(2,3), of k] by simp
qed

lemma sleep_bounds:
  assumes "abortableSleep d a b = Inr t" "\<And>q. d = Num q \<Longrightarrow> q \<le> bound" "1 \<le> bound"
  shows "0 < t \<and> t \<le> bound"
proof -
  define x where "x = (case d of Num q \<Rightarrow> Num (max 0 q) | NegInfinity \<Rightarrow> Num 0 | y \<Rightarrow> y)"
  have t: "t = timer_ms x" using assms(1) by (auto simp: abortableSleep_def x_def split: if_splits)
  have "q \<le> bound" if "x = Num q" for q
    using that assms(2,3) by (auto simp: x_def split: jsnum.splits)
  with assms(3) show ?thesis unfolding t using timer_ms_bounds by blast
qed

lemma retry_success: "request i = Inr v \<Longrightarrow> retry_from w request k maxDelay n i = ([], Inr v)"
  by (subst retry_from.simps) simp

text \<open>A failed attempt ends the loop with an error or is followed by a wait and the next attempt.\<close>

lemma retry_failure:
  fixes request :: "nat \<Rightarrow> ('e request_error, 'a) result"
  assumes "request i = Inl e"
  shows "(\<exists>x. retry_from w request k maxDelay n i = ([], Inl x)) \<or>
    (\<exists>m pe d t. n = Suc m \<and> e = ProviderError pe \<and> isRetryableProviderError pe \<and>
       getRetryDelayMs (rw_parseDate w) (rw_now w i) (rw_random w i) pe (k - n) maxDelay = Inr d \<and>
       abortableSleep d (rw_aborted w i) (rw_abortedSleep w i) = (Inr t :: ('e request_error, rat) result) \<and>
       retry_from w request k maxDelay n i = (let (ts, r) = retry_from w request k maxDelay m (Suc i) in (t # ts, r)))"
proof -
  consider (stop) "rw_aborted w i \<or> n = 0 \<or> (\<forall>pe. e \<noteq> ProviderError pe)"
    | (provider) m pe where "\<not> rw_aborted w i" "n = Suc m" "e = ProviderError pe"
    by (metis not0_implies_Suc)
  then show ?thesis
  proof cases
    case stop
    then have "\<exists>x. retry_from w request k maxDelay n i = ([], Inl x)"
      by (subst retry_from.simps) (cases n; cases e; simp add: assms)
    then show ?thesis by blast
  next
    case (provider m pe)
    let ?d = "getRetryDelayMs (rw_parseDate w) (rw_now w i) (rw_random w i) pe (k - n) maxDelay"
    show ?thesis
    proof (cases "isRetryableProviderError pe")
      case False
      then have "retry_from w request k maxDelay n i = ([], Inl e)"
        by (subst retry_from.simps) (simp add: assms provider)
      then show ?thesis by blast
    next
      case retryable: True
      show ?thesis
      proof (cases ?d)
        case (Inl msg)
        then have "retry_from w request k maxDelay n i = ([], Inl (ErrorText msg))"
          using retryable by (subst retry_from.simps) (simp add: assms provider)
        then show ?thesis by blast
      next
        case (Inr d)
        let ?s = "abortableSleep d (rw_aborted w i) (rw_abortedSleep w i) :: ('e request_error, rat) result"
        show ?thesis
        proof (cases ?s)
          case (Inl x)
          then have "retry_from w request k maxDelay n i = ([], Inl x)"
            using retryable \<open>?d = Inr d\<close> by (subst retry_from.simps) (simp add: assms provider)
          then show ?thesis by blast
        next
          case (Inr t)
          then have "retry_from w request k maxDelay n i = (let (ts, r) = retry_from w request k maxDelay m (Suc i) in (t # ts, r))"
            using retryable \<open>?d = Inr d\<close> by (subst retry_from.simps) (simp add: assms provider)
          with provider retryable \<open>?d = Inr d\<close> Inr show ?thesis by blast
        qed
      qed
    qed
  qed
qed

lemma retry_from_bounds:
  fixes request :: "nat \<Rightarrow> ('e request_error, 'a) result"
  assumes "\<And>i. 0 \<le> rw_random w i \<and> rw_random w i \<le> 1"
    and "lim1 = (case maxDelay of Some m \<Rightarrow> m | None \<Rightarrow> DEFAULT_MAX_RETRY_DELAY_MS)" "0 < lim1"
    and "retry_from w request maxRetries maxDelay n i = (ts, r)"
  shows "length ts \<le> n \<and> list_all (\<lambda>t. 0 < t \<and> t \<le> max lim1 8000) ts \<and>
    (\<forall>j < length ts. \<exists>pe. request (i + j) = Inl (ProviderError pe) \<and> isRetryableProviderError pe) \<and>
    (case r of Inr v \<Rightarrow> request (i + length ts) = Inr v | Inl e \<Rightarrow> \<exists>e'. request (i + length ts) = Inl e')"
  using assms(4)
proof (induction n arbitrary: i ts rule: less_induct)
  case (less n)
  show ?case
  proof (cases "request i")
    case (Inr v)
    with retry_success [where request = request and i = i, OF this, of w maxRetries maxDelay n] less.prems show ?thesis by auto
  next
    case (Inl e)
    from retry_failure [where request = request and i = i, OF this, of w maxRetries maxDelay n] show ?thesis
    proof (elim disjE exE conjE)
      fix x assume "retry_from w request maxRetries maxDelay n i = ([], Inl x)"
      with less.prems Inl show ?thesis by auto
    next
      fix m pe d t
      assume e: "n = Suc m" "e = ProviderError pe" "isRetryableProviderError pe"
        "getRetryDelayMs (rw_parseDate w) (rw_now w i) (rw_random w i) pe (maxRetries - n) maxDelay = Inr d"
        "abortableSleep d (rw_aborted w i) (rw_abortedSleep w i) = (Inr t :: ('e request_error, rat) result)"
        "retry_from w request maxRetries maxDelay n i = (let (ts, r) = retry_from w request maxRetries maxDelay m (Suc i) in (t # ts, r))"
      obtain us where us: "retry_from w request maxRetries maxDelay m (Suc i) = (us, r)" "ts = t # us"
        using less.prems e(6) by (cases "retry_from w request maxRetries maxDelay m (Suc i)") simp
      have "m < n" using e(1) by simp
      note rest = less.IH [OF this us(1)]
      have "0 < t \<and> t \<le> max lim1 8000"
        using sleep_bounds [OF e(5), of "max lim1 8000"] retry_delay_le [OF e(4) _ _ assms(2,3)] assms(1) by simp
      moreover have "\<exists>pe. request (i + j) = Inl (ProviderError pe) \<and> isRetryableProviderError pe" if "j < length ts" for j
        using that rest e(2,3) us(2) Inl by (cases j) auto
      ultimately show ?thesis using rest us(2) e(1) by (cases r) simp_all
    qed
  qed
qed


definition busy :: provider_error where
  "busy = \<lparr>pe_status = Some 429, pe_headers = Some [(''Retry-After'', ''soon'')], pe_message = ''busy''\<rparr>"

definition example_world :: retry_world where
  "example_world = \<lparr>rw_parseDate = (\<lambda>s. NaN), rw_now = (\<lambda>i. 0), rw_random = (\<lambda>i. 0), rw_aborted = (\<lambda>i. False), rw_abortedSleep = (\<lambda>i. False)\<rparr>"

text \<open>A header that is neither a number nor a date.\<close>

lemma busy_headers:
  "error_header busy ''retry-after'' = Some ''soon''" "error_header busy ''retry-after-ms'' = None" "error_header busy ''x-should-retry'' = None"
proof -
  have eq: "error_header busy n = header_value [(''Retry-After'', ''soon'')] n" for n
    by (simp add: error_header_def busy_def)
  show "error_header busy ''retry-after'' = Some ''soon''" unfolding eq by code_simp
  show "error_header busy ''retry-after-ms'' = None" unfolding eq by code_simp
  show "error_header busy ''x-should-retry'' = None" unfolding eq by code_simp
qed

lemma soon_NaN: "parseFloat ''soon'' = NaN"
proof -
  have dec: "js_decimal ''soon'' = NaN" "js_decimal ''soo'' = NaN" "js_decimal ''so'' = NaN" "js_decimal ''s'' = NaN"
    by (simp_all add: js_decimal_def js_unsigned_def is_digit_def code_def)
  have "dropWhile js_ws ''soon'' = ''soon''" by (simp add: js_ws_def code_def)
  then show ?thesis by (simp add: parseFloat_def dec)
qed

lemma busy_retry: "isRetryableProviderError busy" "getRetryDelayMs (\<lambda>s. NaN) 0 0 busy k m = Inr NaN"
proof -
  have "pe_status busy = Some 429" by (simp add: busy_def)
  then show "isRetryableProviderError busy" by (simp add: isRetryableProviderError_def busy_headers)
  show "getRetryDelayMs (\<lambda>s. NaN) 0 0 busy k m = Inr NaN"
    by (simp add: getRetryDelayMs_def busy_headers soon_NaN validateServerRetryDelayMs_def)
qed

text \<open>Such a header makes the next attempt follow after a millisecond, without any back-off.\<close>

definition busy_thrice :: "nat \<Rightarrow> (unit request_error, nat) result" where
  "busy_thrice i = (if i < 3 then Inl (ProviderError busy) else Inr i)"

lemma busy_step:
  "i < 3 \<Longrightarrow> retry_from example_world busy_thrice m None (Suc n) i =
     (let (ts, r) = retry_from example_world busy_thrice m None n (Suc i) in (1 # ts, r))"
proof -
  assume i: "i < 3"
  have world: "rw_parseDate example_world = (\<lambda>s. NaN)" "rw_now example_world i = 0" "rw_random example_world i = 0"
      "\<not> rw_aborted example_world i" "\<not> rw_abortedSleep example_world i"
    by (simp_all add: example_world_def)
  have sleep: "abortableSleep NaN False False = (Inr 1 :: (unit request_error, rat) result)"
    by (simp add: abortableSleep_def timer_ms_def)
  have "busy_thrice i = Inl (ProviderError busy)" using i by (simp add: busy_thrice_def)
  then show ?thesis
    by (simp add: retry_from.simps [of example_world busy_thrice m None "Suc n" i] world busy_retry sleep)
qed

lemma unreadable_retry_after: "retryProviderRequest example_world busy_thrice (Some 3) None = ([1, 1, 1], Inr 3)"
proof -
  have "retry_from example_world busy_thrice 3 None 0 3 = ([], Inr 3)"
    by (simp add: retry_from.simps [of example_world busy_thrice 3 None 0 3] busy_thrice_def)
  then show ?thesis
    by (simp add: retryProviderRequest_def busy_step eval_nat_numeral)
qed


end
