(* ===== verification/Json_Repair.thy ===== *)
theory Json_Repair
  imports Utf8_Sound Js_Prelude
begin

text \<open>
  Mending text at the border to the models (\<open>utils/json-parse.js\<close> and
  \<open>utils/sanitize-unicode.js\<close> of the bundled \<open>pi-ai\<close> in \<open>bridge.mjs\<close>). What models write as JSON
  is repaired: raw control characters inside strings are escaped and backslashes that start no
  escape are doubled. What is sent to them loses its unpaired surrogates. Text is a list of UTF-16
  code units; \<open>JSON.parse\<close> is an argument.
\<close>

subsection \<open>The repair\<close>

definition isControlCharacter :: "nat \<Rightarrow> bool" where
  "isControlCharacter c = (c \<le> 31)"

definition hex_digit :: "nat \<Rightarrow> nat" where
  "hex_digit d = (if d < 10 then 48 + d else 87 + d)"

definition escapeControlCharacter :: "nat \<Rightarrow> jstring" where
  "escapeControlCharacter c =
     (if c = 8 then [92, 98] else if c = 12 then [92, 102] else if c = 10 then [92, 110]
      else if c = 13 then [92, 114] else if c = 9 then [92, 116]
      else [92, 117, 48, 48, hex_digit (c div 16), hex_digit (c mod 16)])"

definition is_hex :: "nat \<Rightarrow> bool" where
  "is_hex c = (48 \<le> c \<and> c \<le> 57 \<or> 97 \<le> c \<and> c \<le> 102 \<or> 65 \<le> c \<and> c \<le> 70)"

definition VALID_JSON_ESCAPES :: "nat list" where
  "VALID_JSON_ESCAPES = [34, 92, 47, 98, 102, 110, 114, 116, 117]"

text \<open>The text after \<open>\u\<close> starts with four hexadecimal digits.\<close>

definition four_hex :: "jstring \<Rightarrow> bool" where
  "four_hex s = (4 \<le> length s \<and> list_all is_hex (take 4 s))"

fun repair_from :: "bool \<Rightarrow> jstring \<Rightarrow> jstring" where
  "repair_from inString [] = []"
| "repair_from False (c # cs) = c # repair_from (c = 34) cs"
| "repair_from True (c # cs) =
     (if c = 34 then 34 # repair_from False cs
      else if c = 92 then
        (case cs of
           [] \<Rightarrow> [92, 92]
         | n # rest \<Rightarrow>
             (if n = 117 \<and> four_hex rest then 92 # 117 # take 4 rest @ repair_from True (drop 4 rest)
              else if n \<in> set VALID_JSON_ESCAPES then 92 # n # repair_from True rest
              else 92 # 92 # repair_from True (n # rest)))
      else (if isControlCharacter c then escapeControlCharacter c else [c]) @ repair_from True cs)"

definition repairJson :: "jstring \<Rightarrow> jstring" where
  "repairJson json = repair_from False json"

definition parseJsonWithRepair :: "(jstring \<Rightarrow> ('e, 'v) result) \<Rightarrow> jstring \<Rightarrow> ('e, 'v) result" where
  "parseJsonWithRepair jsonParse json =
     (case jsonParse json of
        Inr v \<Rightarrow> Inr v
      | Inl e \<Rightarrow> (if repairJson json \<noteq> json then jsonParse (repairJson json) else Inl e))"

subsection \<open>What is well formed\<close>

text \<open>Inside strings there is no control character and every backslash starts an escape. A \<open>\u\<close> is
  taken for one whatever follows it.\<close>

fun strings_ok :: "bool \<Rightarrow> jstring \<Rightarrow> bool" where
  "strings_ok inString [] = True"
| "strings_ok False (c # cs) = strings_ok (c = 34) cs"
| "strings_ok True (c # cs) =
     (if c = 34 then strings_ok False cs
      else if c = 92 then
        (case cs of
           [] \<Rightarrow> False
         | n # rest \<Rightarrow> n \<in> set VALID_JSON_ESCAPES \<and> strings_ok True rest)
      else \<not> isControlCharacter c \<and> strings_ok True cs)"

text \<open>What a text says: its units outside strings, and the units its strings stand for. A
  backslash that starts no escape and a control character stand for themselves.\<close>

datatype unit_at = Outside nat | Inside nat

definition hex_value :: "nat \<Rightarrow> nat" where
  "hex_value c = (if c \<le> 57 then c - 48 else if c \<le> 70 then c - 55 else c - 87)"

definition unicode_value :: "jstring \<Rightarrow> nat" where
  "unicode_value ds = fold (\<lambda>d v. v * 16 + hex_value d) ds 0"

definition escape_value :: "nat \<Rightarrow> nat" where
  "escape_value n = (if n = 98 then 8 else if n = 102 then 12 else if n = 110 then 10 else if n = 114 then 13
     else if n = 116 then 9 else n)"

fun meaning :: "bool \<Rightarrow> jstring \<Rightarrow> unit_at list" where
  "meaning inString [] = []"
| "meaning False (c # cs) = Outside c # meaning (c = 34) cs"
| "meaning True (c # cs) =
     (if c = 34 then Outside 34 # meaning False cs
      else if c = 92 then
        (case cs of
           [] \<Rightarrow> [Inside 92]
         | n # rest \<Rightarrow>
             (if n = 117 \<and> four_hex rest then Inside (unicode_value (take 4 rest)) # meaning True (drop 4 rest)
              else if n = 117 then Inside 92 # Inside 117 # meaning True rest
              else if n \<in> set VALID_JSON_ESCAPES then Inside (escape_value n) # meaning True rest
              else Inside 92 # meaning True (n # rest)))
      else Inside c # meaning True cs)"

subsection \<open>Properties\<close>

lemma escapes: "n \<in> set VALID_JSON_ESCAPES \<longleftrightarrow> n = 34 \<or> n = 92 \<or> n = 47 \<or> n = 98 \<or> n = 102 \<or> n = 110 \<or> n = 114 \<or> n = 116 \<or> n = 117"
  by (auto simp: VALID_JSON_ESCAPES_def)

lemma hex_digit_props: "d < 16 \<Longrightarrow> is_hex (hex_digit d) \<and> hex_value (hex_digit d) = d"
  by (auto simp: hex_digit_def is_hex_def hex_value_def)

lemma is_hex_plain: "is_hex c \<Longrightarrow> c \<noteq> 34 \<and> c \<noteq> 92 \<and> \<not> isControlCharacter c"
  by (auto simp: is_hex_def isControlCharacter_def)

lemma hex_prefix_ok: "list_all is_hex ds \<Longrightarrow> strings_ok True (ds @ s) = strings_ok True s"
  by (induction ds) (auto simp: is_hex_plain)

lemma take_four: "four_hex s \<Longrightarrow> take 4 s @ drop 4 s = s" "four_hex s \<Longrightarrow> length (take 4 s) = 4"
  by (auto simp: four_hex_def)

lemma four_hex_append: "list_all is_hex ds \<Longrightarrow> length ds = 4 \<Longrightarrow> four_hex (ds @ s)"
  by (simp add: four_hex_def)

text \<open>An escaped control character is well formed and stands for the character.\<close>

lemma control_digits:
  assumes "isControlCharacter c"
  shows "is_hex (hex_digit (c div 16)) \<and> is_hex (hex_digit (c mod 16))
    \<and> hex_value (hex_digit (c div 16)) * 16 + hex_value (hex_digit (c mod 16)) = c"
proof -
  have "c div 16 < 16" "c mod 16 < 16"
    using assms by (auto simp: isControlCharacter_def)
  then show ?thesis
    using hex_digit_props [of "c div 16"] hex_digit_props [of "c mod 16"] by simp
qed

lemma escape_ok: "isControlCharacter c \<Longrightarrow> strings_ok True (escapeControlCharacter c @ s) = strings_ok True s"
  using control_digits [of c] by (simp add: escapeControlCharacter_def escapes is_hex_plain) (simp add: isControlCharacter_def)

lemma unicode_control:
  assumes "isControlCharacter c"
  shows "four_hex (48 # 48 # hex_digit (c div 16) # hex_digit (c mod 16) # s)
    \<and> unicode_value [48, 48, hex_digit (c div 16), hex_digit (c mod 16)] = c"
  using control_digits [OF assms] by (simp add: four_hex_def unicode_value_def hex_value_def is_hex_def)

lemma escape_meaning:
  assumes "isControlCharacter c"
  shows "meaning True (escapeControlCharacter c @ s) = Inside c # meaning True s"
  using unicode_control [OF assms, of s]
  by (simp add: escapeControlCharacter_def escapes escape_value_def)

text \<open>The cases of a text inside a string, with the induction hypothesis of each.\<close>

lemma string_induct [case_names empty outside quote lone unicode escape stray plain]:
  assumes "\<And>inString. P inString []"
    and "\<And>c cs. P (c = 34) cs \<Longrightarrow> P False (c # cs)"
    and "\<And>cs. P False cs \<Longrightarrow> P True (34 # cs)"
    and "P True [92]"
    and "\<And>ds rest. list_all is_hex ds \<Longrightarrow> length ds = 4 \<Longrightarrow> P True rest \<Longrightarrow> P True (92 # 117 # ds @ rest)"
    and "\<And>n rest. n \<in> set VALID_JSON_ESCAPES \<Longrightarrow> \<not> (n = 117 \<and> four_hex rest) \<Longrightarrow> P True rest \<Longrightarrow> P True (92 # n # rest)"
    and "\<And>n rest. n \<notin> set VALID_JSON_ESCAPES \<Longrightarrow> P True (n # rest) \<Longrightarrow> P True (92 # n # rest)"
    and "\<And>c cs. c \<noteq> 34 \<Longrightarrow> c \<noteq> 92 \<Longrightarrow> P True cs \<Longrightarrow> P True (c # cs)"
  shows "P inString s"
proof (induction inString s rule: repair_from.induct)
  case (3 c cs)
  consider "c = 34" | "c = 92" | "c \<noteq> 34" "c \<noteq> 92" by blast
  then show ?case
  proof cases
    case 1
    with 3 assms(3) show ?thesis by simp
  next
    case 2
    show ?thesis
    proof (cases cs)
      case Nil
      with 2 assms(4) show ?thesis by simp
    next
      case (Cons n rest)
      consider "n = 117" "four_hex rest" | "n \<in> set VALID_JSON_ESCAPES" "\<not> (n = 117 \<and> four_hex rest)"
        | "n \<notin> set VALID_JSON_ESCAPES" by blast
      then show ?thesis
      proof cases
        case 1
        then have "P True (drop 4 rest)" using 3(2) 2 Cons by simp
        from assms(5) [OF _ _ this, of "take 4 rest"] 1 show ?thesis
          by (simp add: four_hex_def 2 Cons)
      next
        case b: 2
        then have "P True rest" using 3(3) 2 Cons by auto
        with b assms(6) show ?thesis by (simp add: 2 Cons)
      next
        case b: 3
        then have "P True (n # rest)" using 3(4) 2 Cons by (auto simp: escapes)
        with b assms(7) show ?thesis by (simp add: 2 Cons)
      qed
    qed
  next
    case b: 3
    with 3(5) assms(8) show ?thesis by simp
  qed
qed (use assms(1,2) in simp_all)

lemma repaired_ok: "strings_ok inString (repair_from inString s)"
proof (induction inString s rule: string_induct)
  case (unicode ds rest)
  then show ?case by (simp add: four_hex_append escapes hex_prefix_ok)
next
  case (plain c cs)
  then show ?case by (simp add: escape_ok)
qed (auto simp: escapes)

text \<open>Repairing neither makes nor breaks a run of hexadecimal digits.\<close>

lemma repair_head:
  "is_hex c \<Longrightarrow> repair_from True (c # cs) = c # repair_from True cs"
  "\<not> is_hex c \<Longrightarrow> \<exists>d ds. repair_from True (c # cs) = d # ds \<and> \<not> is_hex d"
  by (simp add: is_hex_plain)
    (auto simp: escapeControlCharacter_def is_hex_def split: list.splits)

lemma hex_run_kept:
  "(n \<le> length (repair_from True s) \<and> list_all is_hex (take n (repair_from True s)))
    = (n \<le> length s \<and> list_all is_hex (take n s))"
proof (induction n arbitrary: s)
  case (Suc n)
  show ?case
  proof (cases s)
    case (Cons c cs)
    show ?thesis
    proof (cases "is_hex c")
      case True
      show ?thesis
        using Suc [of cs] by (simp add: Cons repair_head(1) [OF True] True del: repair_from.simps)
    next
      case False
      obtain d ds where "repair_from True (c # cs) = d # ds" "\<not> is_hex d"
        using repair_head(2) [OF False] by blast
      then show ?thesis
        by (simp add: Cons False del: repair_from.simps)
    qed
  qed simp
qed simp

lemma four_hex_kept: "four_hex (repair_from True s) = four_hex s"
  unfolding four_hex_def by (rule hex_run_kept)

lemma meaning_kept: "meaning inString (repair_from inString s) = meaning inString s"
proof (induction inString s rule: string_induct)
  case (unicode ds rest)
  then show ?case by (simp add: four_hex_append)
next
  case (plain c cs)
  then show ?case by (simp add: escape_meaning)
qed (auto simp: escapes escape_value_def four_hex_kept)

lemma ok_unchanged: "strings_ok inString s \<Longrightarrow> repair_from inString s = s"
proof (induction inString s rule: string_induct)
  case (unicode ds rest)
  then show ?case by (simp add: four_hex_append escapes hex_prefix_ok)
qed (auto simp: escapes)

lemma repair_unchanged_iff: "repair_from False s = s \<longleftrightarrow> strings_ok False s"
  using repaired_ok [of False s] ok_unchanged [of False s] by metis


text \<open>A \<open>\u\<close> that lacks its four digits is one of \<open>VALID_JSON_ESCAPES\<close> and stays as it is, so
  \<open>"C:\users"\<close> is not repaired although \<open>JSON.parse\<close> refuses it; \<open>"C:\work"\<close> is.\<close>

lemma bare_unicode_escape:
  "repairJson [34, 67, 58, 92, 117, 115, 101, 114, 115, 34] = [34, 67, 58, 92, 117, 115, 101, 114, 115, 34]"
  "repairJson [34, 67, 58, 92, 119, 111, 114, 107, 34] = [34, 67, 58, 92, 92, 119, 111, 114, 107, 34]"
  by code_simp+

subsection \<open>Unpaired surrogates\<close>

text \<open>The two alternatives of the pattern: a high surrogate that no low one follows, and a low
  one that follows no high one. Looking back reads the original text.\<close>

fun sanitize_from :: "bool \<Rightarrow> jstring \<Rightarrow> jstring" where
  "sanitize_from afterHigh [] = []"
| "sanitize_from afterHigh (c # cs) =
     (if hi_surrogate c \<and> \<not> (cs \<noteq> [] \<and> lo_surrogate (hd cs)) \<or> \<not> afterHigh \<and> lo_surrogate c then [] else [c])
       @ sanitize_from (hi_surrogate c) cs"

definition sanitizeSurrogates :: "jstring \<Rightarrow> jstring" where
  "sanitizeSurrogates s = sanitize_from False s"

definition paired_only :: "jstring \<Rightarrow> jstring" where
  "paired_only s = concat (filter (\<lambda>c. \<not> unpaired c) (chars s))"

lemma lo_not_hi [simp]: "lo_surrogate c \<Longrightarrow> \<not> hi_surrogate c"
  using hi_not_lo by blast

lemma sanitize_paired:
  "afterHigh \<longrightarrow> s = [] \<or> \<not> lo_surrogate (hd s) \<Longrightarrow> sanitize_from afterHigh s = paired_only s"
proof (induction s arbitrary: afterHigh rule: chars.induct)
  case (3 a b s)
  then show ?case
    by (cases "hi_surrogate a \<and> lo_surrogate b") (auto simp: paired_only_def unpaired_def surrogate_def)
qed (auto simp: paired_only_def unpaired_def surrogate_def)

lemma well_formed_concat:
  "list_all well_formed cs \<Longrightarrow> well_formed (concat cs)"
  by (induction cs) (simp_all add: well_formed_append)

lemma paired_well_formed: "well_formed (paired_only s)"
  unfolding paired_only_def
proof (rule well_formed_concat, unfold list_all_iff, rule ballI)
  fix c
  assume "c \<in> set (filter (\<lambda>c. \<not> unpaired c) (chars s))"
  then show "well_formed c"
    using chars_single [of c s] by (auto simp: well_formed_def)
qed

lemma paired_same: "well_formed s \<Longrightarrow> paired_only s = s"
  by (simp add: paired_only_def well_formed_def list_ex_iff filter_True)

text \<open>Text sent to a model: \<open>sanitizeSurrogates\<close> removes the unpaired surrogates of a text and
  nothing else, what remains is well-formed Unicode, and well-formed text is not changed.\<close>

theorem sanitize_exact:
  "sanitizeSurrogates s = concat (filter (\<lambda>c. \<not> unpaired c) (chars s))
    \<and> well_formed (sanitizeSurrogates s)
    \<and> (sanitizeSurrogates s = s \<longleftrightarrow> well_formed s)"
  using paired_well_formed [of s] paired_same [of s]
  by (auto simp: sanitizeSurrogates_def sanitize_paired paired_only_def)

end
