(* ===== verification/Partial_Json.thy ===== *)
theory Partial_Json
  imports Json_Repair "HOL-Library.Sublist"
begin

text \<open>
  Reading the JSON of tool calls while the model is still writing it: the parser of
  \<open>partial-json\<close> as it is bundled in \<open>bridge.mjs\<close>, called with every kind of value allowed to be
  incomplete, and \<open>parseStreamingJson\<close> on top of it. The parser keeps one index into the text; an
  exception leaves the index where it was thrown, and the enclosing object or array goes on from
  there. \<open>jsonParse\<close> stands for \<open>JSON.parse\<close> and \<open>keyText\<close> for the conversion of a property key.
  The messages of the exceptions are not kept: every handler drops them.
\<close>

subsection \<open>Values and positions\<close>

datatype jvalue =
    VNull
  | VBool bool
  | VNum jsnum
  | VStr jstring
  | VArr "jvalue list"
  | VObj "(jstring \<times> jvalue) list"

datatype parse_error = PartialJSON | MalformedJSON | SyntaxError

type_synonym json_parse = "jstring \<Rightarrow> jvalue option"
type_synonym 'a parsed = "nat \<times> (parse_error, 'a) result"

definition unit_of :: "jstring \<Rightarrow> nat \<Rightarrow> nat option" where
  "unit_of s i = (if i < length s then Some (s ! i) else None)"

function while_at :: "(nat \<Rightarrow> bool) \<Rightarrow> jstring \<Rightarrow> nat \<Rightarrow> nat" where
  "while_at P s i = (if i < length s \<and> P (s ! i) then while_at P s (i + 1) else i)"
  by auto
termination by (relation "measure (\<lambda>(P, s, i). length s - i)") auto

declare while_at.simps [simp del]

definition blank :: "nat \<Rightarrow> bool" where
  "blank c = (c \<in> {32, 10, 13, 9})"

definition skipBlank :: "jstring \<Rightarrow> nat \<Rightarrow> nat" where
  "skipBlank s i = while_at blank s i"

text \<open>\<open>String.prototype.substring\<close> clamps its bounds and swaps them if they are out of order.\<close>

definition js_substring :: "jstring \<Rightarrow> int \<Rightarrow> int \<Rightarrow> jstring" where
  "js_substring s a b =
     (let a' = nat (min (max a 0) (int (length s))); b' = nat (min (max b 0) (int (length s)))
      in take (max a' b' - min a' b') (drop (min a' b') s))"

fun lastIndexOf :: "nat \<Rightarrow> jstring \<Rightarrow> int" where
  "lastIndexOf c [] = - 1"
| "lastIndexOf c (d # s) =
     (if lastIndexOf c s \<ge> 0 then lastIndexOf c s + 1 else if c = d then 0 else - 1)"

definition parse_or :: "json_parse \<Rightarrow> parse_error \<Rightarrow> jstring \<Rightarrow> (parse_error, jvalue) result" where
  "parse_or jsonParse e s = (case jsonParse s of Some v \<Rightarrow> Inr v | None \<Rightarrow> Inl e)"

subsection \<open>Strings and numbers\<close>

function string_end :: "jstring \<Rightarrow> bool \<Rightarrow> nat \<Rightarrow> bool \<times> nat" where
  "string_end s escape2 i =
     (if i < length s \<and> (s ! i \<noteq> 34 \<or> escape2 \<and> s ! (i - 1) = 92)
      then string_end s (if s ! i = 92 then \<not> escape2 else False) (i + 1)
      else (escape2, i))"
  by auto
termination by (relation "measure (\<lambda>(s, escape2, i). length s - i)") auto

declare string_end.simps [simp del]

definition parseStr :: "json_parse \<Rightarrow> jstring \<Rightarrow> nat \<Rightarrow> jvalue parsed" where
  "parseStr jsonParse s start =
     (let (escape2, i) = string_end s False (start + 1)
      in if unit_of s i = Some 34
         then (i + 1, parse_or jsonParse MalformedJSON (js_substring s (int start) (int (i + 1) - of_bool escape2)))
         else (i, (case jsonParse (js_substring s (int start) (int i - of_bool escape2) @ [34]) of
                     Some v \<Rightarrow> Inr v
                   | None \<Rightarrow> parse_or jsonParse SyntaxError (js_substring s (int start) (lastIndexOf 92 s) @ [34]))))"

definition ends_number :: "nat \<Rightarrow> bool" where
  "ends_number c = (c \<in> {44, 93, 125})"

definition parseNum :: "json_parse \<Rightarrow> jstring \<Rightarrow> nat \<Rightarrow> jvalue parsed" where
  "parseNum jsonParse s start =
     (if start = 0 then
        (0, (if s = [45] then Inl MalformedJSON
             else case jsonParse s of
                    Some v \<Rightarrow> Inr v
                  | None \<Rightarrow> parse_or jsonParse MalformedJSON (js_substring s 0 (lastIndexOf 101 s))))
      else
        (let i = while_at (\<lambda>c. \<not> ends_number c) s (if unit_of s start = Some 45 then start + 1 else start)
         in (i, (case jsonParse (js_substring s (int start) (int i)) of
                   Some v \<Rightarrow> Inr v
                 | None \<Rightarrow>
                     (if js_substring s (int start) (int i) = [45] then Inl PartialJSON
                      else parse_or jsonParse MalformedJSON (js_substring s (int start) (lastIndexOf 101 s)))))))"

subsection \<open>Values, objects and arrays\<close>

text \<open>The word, or at the end of the text what there is of it.\<close>

definition word_at :: "jstring \<Rightarrow> nat \<Rightarrow> string \<Rightarrow> bool" where
  "word_at s i w =
     (take (length w) (drop i s) = js_text w \<or> length s - i < length w \<and> prefix (drop i s) (js_text w))"

definition set_field :: "'k \<Rightarrow> 'v \<Rightarrow> ('k \<times> 'v) list \<Rightarrow> ('k \<times> 'v) list" where
  "set_field k v obj =
     (if k \<in> fst ` set obj then map (\<lambda>(k', v'). (k', if k' = k then v else v')) obj else obj @ [(k, v)])"

text \<open>The values of \<open>parseAny\<close> that hold no others.\<close>

definition parse_atom :: "json_parse \<Rightarrow> jstring \<Rightarrow> nat \<Rightarrow> jvalue parsed" where
  "parse_atom jsonParse s i =
     (if s ! i = 34 then parseStr jsonParse s i
      else if word_at s i ''null'' then (i + 4, Inr VNull)
      else if word_at s i ''true'' then (i + 4, Inr (VBool True))
      else if word_at s i ''false'' then (i + 5, Inr (VBool False))
      else if word_at s i ''Infinity'' then (i + 8, Inr (VNum Infinity))
      else if word_at s i ''-Infinity'' \<and> 1 < length s - i then (i + 9, Inr (VNum NegInfinity))
      else if word_at s i ''NaN'' then (i + 3, Inr (VNum NaN))
      else parseNum jsonParse s i)"

text \<open>The loops of \<open>parseObj\<close> and \<open>parseArr\<close> carry the object and the array built so far, which is
  what their handlers return. They call \<open>parseAny\<close> for the values they hold: the first argument is
  \<open>parseAny\<close> one level down, the second bounds the number of turns. \<open>None\<close> is a parse that did not
  end within the bounds.\<close>

fun parseObj :: "(nat \<Rightarrow> jvalue parsed option) \<Rightarrow> nat \<Rightarrow> json_parse \<Rightarrow> (jvalue \<Rightarrow> jstring) \<Rightarrow> jstring \<Rightarrow> nat
    \<Rightarrow> (jstring \<times> jvalue) list \<Rightarrow> jvalue parsed option" where
  "parseObj any 0 jsonParse keyText s index obj = None"
| "parseObj any (Suc n) jsonParse keyText s index obj =
     (if unit_of s index = Some 125 then Some (index + 1, Inr (VObj obj))
      else if skipBlank s index \<ge> length s then Some (skipBlank s index, Inr (VObj obj))
      else case parseStr jsonParse s (skipBlank s index) of
        (i, Inl e) \<Rightarrow> Some (i, Inr (VObj obj))
      | (i, Inr key) \<Rightarrow>
          (case any (skipBlank s i + 1) of
             None \<Rightarrow> None
           | Some (i, Inl e) \<Rightarrow> Some (i, Inr (VObj obj))
           | Some (i, Inr v) \<Rightarrow>
               parseObj any n jsonParse keyText s
                 (if unit_of s (skipBlank s i) = Some 44 then skipBlank s i + 1 else skipBlank s i)
                 (set_field (keyText key) v obj)))"

fun parseArr :: "(nat \<Rightarrow> jvalue parsed option) \<Rightarrow> nat \<Rightarrow> jstring \<Rightarrow> nat \<Rightarrow> jvalue list \<Rightarrow> jvalue parsed option" where
  "parseArr any 0 s index arr = None"
| "parseArr any (Suc n) s index arr =
     (if unit_of s index = Some 93 then Some (index + 1, Inr (VArr arr))
      else case any index of
        None \<Rightarrow> None
      | Some (i, Inl e) \<Rightarrow> Some (i, Inr (VArr arr))
      | Some (i, Inr v) \<Rightarrow>
          parseArr any n s
            (if unit_of s (skipBlank s i) = Some 44 then skipBlank s i + 1 else skipBlank s i) (arr @ [v]))"

primrec parseAny :: "nat \<Rightarrow> json_parse \<Rightarrow> (jvalue \<Rightarrow> jstring) \<Rightarrow> jstring \<Rightarrow> nat \<Rightarrow> jvalue parsed option" where
  "parseAny 0 jsonParse keyText s index = None"
| "parseAny (Suc n) jsonParse keyText s index =
     (let i = skipBlank s index
      in if i \<ge> length s then Some (i, Inl PartialJSON)
         else if s ! i = 123
         then parseObj (parseAny n jsonParse keyText s) (length s + 1) jsonParse keyText s (skipBlank s (i + 1)) []
         else if s ! i = 91
         then parseArr (parseAny n jsonParse keyText s) (length s + 1) s (i + 1) []
         else Some (parse_atom jsonParse s i))"

definition trim_units :: "jstring \<Rightarrow> jstring" where
  "trim_units s = rev (dropWhile js_space (rev (dropWhile js_space s)))"

definition parseJSON2 :: "json_parse \<Rightarrow> (jvalue \<Rightarrow> jstring) \<Rightarrow> jstring \<Rightarrow> (parse_error, jvalue) result option" where
  "parseJSON2 jsonParse keyText s =
     (if trim_units s = [] then Some (Inl SyntaxError)
      else map_option snd (parseAny (length s + 1) jsonParse keyText (trim_units s) 0))"

text \<open>\<open>result ?? {}\<close>.\<close>

definition or_empty :: "jvalue \<Rightarrow> jvalue" where
  "or_empty v = (if v = VNull then VObj [] else v)"

definition parseStreamingJson :: "json_parse \<Rightarrow> (jvalue \<Rightarrow> jstring) \<Rightarrow> jstring option \<Rightarrow> jvalue option" where
  "parseStreamingJson jsonParse keyText partialJson =
     (case partialJson of
        None \<Rightarrow> Some (VObj [])
      | Some s \<Rightarrow>
          (if trim_units s = [] then Some (VObj [])
           else case parseJsonWithRepair (parse_or jsonParse SyntaxError) s of
             Inr v \<Rightarrow> Some v
           | Inl _ \<Rightarrow>
               (case parseJSON2 jsonParse keyText s of
                  None \<Rightarrow> None
                | Some (Inr v) \<Rightarrow> Some (or_empty v)
                | Some (Inl _) \<Rightarrow>
                    (case parseJSON2 jsonParse keyText (repairJson s) of
                       None \<Rightarrow> None
                     | Some (Inr v) \<Rightarrow> Some (or_empty v)
                     | Some (Inl _) \<Rightarrow> Some (VObj [])))))"

subsection \<open>One turn of each loop\<close>

definition past_comma :: "jstring \<Rightarrow> nat \<Rightarrow> nat" where
  "past_comma s i = (if unit_of s (skipBlank s i) = Some 44 then skipBlank s i + 1 else skipBlank s i)"

lemma parseArr_close: "unit_of s i = Some 93 \<Longrightarrow> parseArr any (Suc n) s i arr = Some (i + 1, Inr (VArr arr))"
  by simp

lemma parseArr_stop:
  "unit_of s i \<noteq> Some 93 \<Longrightarrow> any i = Some (j, Inl e) \<Longrightarrow> parseArr any (Suc n) s i arr = Some (j, Inr (VArr arr))"
  by simp

lemma parseArr_next:
  "unit_of s i \<noteq> Some 93 \<Longrightarrow> any i = Some (j, Inr v) \<Longrightarrow>
    parseArr any (Suc n) s i arr = parseArr any n s (past_comma s j) (arr @ [v])"
  by (simp add: past_comma_def)

lemma parseObj_close:
  "unit_of s i = Some 125 \<Longrightarrow> parseObj any (Suc n) jsonParse keyText s i obj = Some (i + 1, Inr (VObj obj))"
  by simp

lemma parseObj_end:
  "unit_of s i \<noteq> Some 125 \<Longrightarrow> length s \<le> skipBlank s i \<Longrightarrow>
    parseObj any (Suc n) jsonParse keyText s i obj = Some (skipBlank s i, Inr (VObj obj))"
  by simp

lemma parseObj_no_key:
  "unit_of s i \<noteq> Some 125 \<Longrightarrow> skipBlank s i < length s \<Longrightarrow> parseStr jsonParse s (skipBlank s i) = (j, Inl e) \<Longrightarrow>
    parseObj any (Suc n) jsonParse keyText s i obj = Some (j, Inr (VObj obj))"
  by simp

lemma parseObj_no_value:
  "unit_of s i \<noteq> Some 125 \<Longrightarrow> skipBlank s i < length s \<Longrightarrow> parseStr jsonParse s (skipBlank s i) = (j, Inr key) \<Longrightarrow>
    any (skipBlank s j + 1) = Some (m, Inl e) \<Longrightarrow>
    parseObj any (Suc n) jsonParse keyText s i obj = Some (m, Inr (VObj obj))"
  by simp

lemma parseObj_next:
  "unit_of s i \<noteq> Some 125 \<Longrightarrow> skipBlank s i < length s \<Longrightarrow> parseStr jsonParse s (skipBlank s i) = (j, Inr key) \<Longrightarrow>
    any (skipBlank s j + 1) = Some (m, Inr v) \<Longrightarrow>
    parseObj any (Suc n) jsonParse keyText s i obj
      = parseObj any n jsonParse keyText s (past_comma s m) (set_field (keyText key) v obj)"
  by (simp add: past_comma_def)

lemma parseAny_end:
  "length s \<le> skipBlank s i \<Longrightarrow> parseAny (Suc n) jsonParse keyText s i = Some (skipBlank s i, Inl PartialJSON)"
  by simp

lemma parseAny_obj:
  "skipBlank s i < length s \<Longrightarrow> s ! skipBlank s i = 123 \<Longrightarrow> parseAny (Suc n) jsonParse keyText s i
    = parseObj (parseAny n jsonParse keyText s) (length s + 1) jsonParse keyText s (skipBlank s (skipBlank s i + 1)) []"
  by simp

lemma parseAny_arr:
  "skipBlank s i < length s \<Longrightarrow> s ! skipBlank s i = 91 \<Longrightarrow> parseAny (Suc n) jsonParse keyText s i
    = parseArr (parseAny n jsonParse keyText s) (length s + 1) s (skipBlank s i + 1) []"
  by simp

lemma parseAny_atom:
  "skipBlank s i < length s \<Longrightarrow> s ! skipBlank s i \<noteq> 123 \<Longrightarrow> s ! skipBlank s i \<noteq> 91 \<Longrightarrow>
    parseAny (Suc n) jsonParse keyText s i = Some (parse_atom jsonParse s (skipBlank s i))"
  by simp

declare parseArr.simps [simp del] parseObj.simps [simp del] parseAny.simps [simp del]

subsection \<open>Every parse ends\<close>

text \<open>What the parser relies on \<open>JSON.parse\<close> for: it takes neither the empty text nor text that
  starts with a comma, a closing bracket or the letter e for a value.\<close>

definition json_reader :: "json_parse \<Rightarrow> bool" where
  "json_reader jsonParse = (\<forall>t. t = [] \<or> hd t \<in> {44, 93, 125, 101} \<longrightarrow> jsonParse t = None)"

text \<open>No beginning of the text is a complete value, as for every text that was cut off within an
  object or an array.\<close>

definition incomplete :: "json_parse \<Rightarrow> jstring \<Rightarrow> bool" where
  "incomplete jsonParse s = (\<forall>k \<le> length s. jsonParse (take k s) = None)"

lemma while_at_ge: "i \<le> while_at P s i"
  by (induction P s i rule: while_at.induct) (subst while_at.simps, auto)

lemma while_at_enter: "i < length s \<Longrightarrow> P (s ! i) \<Longrightarrow> i < while_at P s i"
  by (subst while_at.simps) (use while_at_ge [of "i + 1" P s] in auto)

lemma skipBlank_ge: "i \<le> skipBlank s i"
  by (simp add: skipBlank_def while_at_ge)

lemma string_end_ge: "i \<le> snd (string_end s e i)"
  by (induction s e i rule: string_end.induct) (subst string_end.simps, auto)

lemma parseStr_advances: "i < fst (parseStr jsonParse s i)"
  using string_end_ge [of "i + 1" s False] by (auto simp: parseStr_def split: prod.splits)

lemma lastIndexOf_range: "lastIndexOf c s < int (length s)" "- 1 \<le> lastIndexOf c s"
  by (induction s) auto

lemma lastIndexOf_nth: "0 \<le> lastIndexOf c s \<Longrightarrow> s ! nat (lastIndexOf c s) = c"
  by (induction s) (auto simp: nat_add_distrib split: if_splits)

lemma hd_substring:
  assumes "a \<noteq> b" "a \<le> length s" "b \<le> length s"
  shows "js_substring s (int a) (int b) \<noteq> [] \<and> hd (js_substring s (int a) (int b)) = s ! min a b"
  using assms by (cases s) (auto simp: js_substring_def Let_def hd_drop_conv_nth min_def max_def)

lemma substring_same [simp]: "js_substring s (int a) (int a) = []"
  by (simp add: js_substring_def Let_def)

lemma substring_start: "a \<le> length s \<Longrightarrow> js_substring s (int a) (- 1) = take a s"
  by (simp add: js_substring_def Let_def)

text \<open>The second try of \<open>parseNum\<close> on an empty literal fails: what lies between the literal and the
  last e of the text is no value.\<close>

lemma empty_literal:
  assumes "json_reader jsonParse" "incomplete jsonParse s" "start < length s" "ends_number (s ! start)"
  shows "jsonParse (js_substring s (int start) (lastIndexOf 101 s)) = None"
proof (cases "lastIndexOf 101 s \<ge> 0")
  case True
  define k where "k = nat (lastIndexOf 101 s)"
  have k: "lastIndexOf 101 s = int k" "s ! k = 101" "k < length s"
    using True lastIndexOf_nth [of 101 s] lastIndexOf_range(1) [of 101 s] by (auto simp: k_def)
  then have "start \<noteq> k" using assms(4) by (auto simp: ends_number_def)
  then have "hd (js_substring s (int start) (int k)) \<in> {44, 93, 125, 101}"
    using hd_substring [of start k s] assms(3,4) k by (auto simp: ends_number_def min_def)
  then show ?thesis
    using assms(1) k(1) by (auto simp: json_reader_def)
next
  case False
  then have "lastIndexOf 101 s = - 1" using lastIndexOf_range(2) [of 101 s] by simp
  then show ?thesis
    using assms(2,3) substring_start [of start s] by (simp add: incomplete_def)
qed

lemma parseNum_advances:
  assumes "json_reader jsonParse" "incomplete jsonParse s" "0 < start" "start < length s"
    and "snd (parseNum jsonParse s start) = Inr v"
  shows "start < fst (parseNum jsonParse s start)"
proof (cases "ends_number (s ! start)")
  case True
  then have "while_at (\<lambda>c. \<not> ends_number c) s start = start" "unit_of s start \<noteq> Some 45"
    by (auto simp: while_at.simps [of _ s start] unit_of_def ends_number_def)
  moreover have "jsonParse [] = None" using assms(1) by (simp add: json_reader_def)
  ultimately have "snd (parseNum jsonParse s start) = Inl MalformedJSON"
    using empty_literal [OF assms(1,2,4) True] assms(3) by (simp add: parseNum_def parse_or_def)
  with assms(5) show ?thesis by simp
next
  case False
  have "start < while_at (\<lambda>c. \<not> ends_number c) s start" using while_at_enter [OF assms(4), of "\<lambda>c. \<not> ends_number c"] False by simp
  then show ?thesis
    using assms(3) while_at_ge [of "start + 1" "\<lambda>c. \<not> ends_number c" s] by (auto simp: parseNum_def Let_def)
qed

lemma atom_ge: "i \<le> fst (parse_atom jsonParse s i)"
  using parseStr_advances [of i jsonParse s] while_at_ge [of i "\<lambda>c. \<not> ends_number c" s]
    while_at_ge [of "i + 1" "\<lambda>c. \<not> ends_number c" s]
  by (auto simp: parse_atom_def parseNum_def Let_def)

lemma atom_advances:
  assumes "json_reader jsonParse" "incomplete jsonParse s" "0 < i" "i < length s"
    and "snd (parse_atom jsonParse s i) = Inr v"
  shows "i < fst (parse_atom jsonParse s i)"
  using assms(5) parseStr_advances [of i jsonParse s] parseNum_advances [OF assms(1-4)]
  by (auto simp: parse_atom_def split: if_splits)

text \<open>A parser that ends and moves forward on every position from some point on.\<close>

definition progresses :: "(nat \<Rightarrow> jvalue parsed option) \<Rightarrow> jstring \<Rightarrow> nat \<Rightarrow> bool" where
  "progresses any s n = (\<forall>i. 0 < i \<longrightarrow> length s - i < n \<longrightarrow>
     (\<exists>j r. any i = Some (j, r) \<and> i \<le> j \<and> (\<forall>v. r = Inr v \<longrightarrow> i < j \<and> i < length s)))"

lemma progressesD:
  assumes "progresses any s n" "0 < i" "length s - i < n"
  obtains j e where "any i = Some (j, Inl e)" "i \<le> j" | j v where "any i = Some (j, Inr v)" "i < j" "i < length s"
  using assms unfolding progresses_def by (metis sum.exhaust)

lemma past_comma_ge: "i \<le> past_comma s i"
  using skipBlank_ge [of i s] by (auto simp: past_comma_def)

lemma parseArr_total:
  assumes "progresses any s n" "0 < index" "length s - index < n" "length s - index < k"
  shows "\<exists>j v. parseArr any k s index arr = Some (j, Inr v) \<and> index \<le> j"
  using assms(2-4)
proof (induction k arbitrary: index arr)
  case (Suc k)
  show ?case
  proof (cases "unit_of s index = Some 93")
    case True
    then show ?thesis by (simp add: parseArr_close)
  next
    case False
    from progressesD [OF assms(1) Suc.prems(1,2)] show ?thesis
    proof cases
      case (1 j e)
      with False show ?thesis by (simp add: parseArr_stop)
    next
      case (2 j v)
      have "index < past_comma s j" using past_comma_ge [of j s] 2(2) by linarith
      moreover from this have "\<exists>m w. parseArr any k s (past_comma s j) (arr @ [v]) = Some (m, Inr w) \<and> past_comma s j \<le> m"
        using 2(3) Suc.prems by (intro Suc.IH) linarith+
      ultimately show ?thesis
        using False 2(1) by (auto simp: parseArr_next intro: less_imp_le less_le_trans)
    qed
  qed
qed simp

lemma parseObj_total:
  assumes "progresses any s n" "0 < index" "length s - index \<le> n" "length s - index < k"
  shows "\<exists>j v. parseObj any k jsonParse keyText s index obj = Some (j, Inr v) \<and> index \<le> j"
  using assms(2-4)
proof (induction k arbitrary: index obj)
  case (Suc k)
  let ?i = "skipBlank s index"
  have ge: "index \<le> ?i" by (rule skipBlank_ge)
  obtain j r where key: "parseStr jsonParse s ?i = (j, r)" "?i < j"
    using parseStr_advances [of ?i jsonParse s] by (metis prod.collapse)
  consider "unit_of s index = Some 125" | "unit_of s index \<noteq> Some 125" "length s \<le> ?i"
    | e where "unit_of s index \<noteq> Some 125" "?i < length s" "r = Inl e"
    | name where "unit_of s index \<noteq> Some 125" "?i < length s" "r = Inr name"
    by (metis linorder_not_le sum.exhaust)
  then show ?case
  proof cases
    case (4 name)
    have later: "index < skipBlank s j + 1" "length s - (skipBlank s j + 1) < n"
      using ge key(2) skipBlank_ge [of j s] 4(2) Suc.prems by linarith+
    have "0 < skipBlank s j + 1" by simp
    from progressesD [OF assms(1) this later(2)] show ?thesis
    proof cases
      case (1 m e)
      with 4 key later show ?thesis by (simp add: parseObj_no_value)
    next
      case (2 m v)
      have "index < past_comma s m" using past_comma_ge [of m s] 2(2) later(1) by linarith
      moreover from this have "\<exists>j w. parseObj any k jsonParse keyText s (past_comma s m) (set_field (keyText name) v obj) = Some (j, Inr w)
          \<and> past_comma s m \<le> j"
        using ge 4(2) Suc.prems by (intro Suc.IH) linarith+
      ultimately show ?thesis
        using 4 key(1) 2(1) by (auto simp: parseObj_next intro: less_imp_le less_le_trans)
    qed
  qed (use ge key in \<open>simp_all add: parseObj_close parseObj_end parseObj_no_key\<close>)
qed simp

lemma parseAny_total:
  assumes "json_reader jsonParse" "incomplete jsonParse s"
    and "progresses (parseAny n jsonParse keyText s) s n" "length s - index < Suc n"
  shows "\<exists>j r. parseAny (Suc n) jsonParse keyText s index = Some (j, r) \<and> index \<le> j
    \<and> (\<forall>v. r = Inr v \<longrightarrow> 0 < index \<longrightarrow> index < j \<and> index < length s)"
proof -
  let ?i = "skipBlank s index"
  have ge: "index \<le> ?i" by (rule skipBlank_ge)
  consider "length s \<le> ?i" | "?i < length s" "s ! ?i = 123" | "?i < length s" "s ! ?i = 91"
    | "?i < length s" "s ! ?i \<noteq> 123" "s ! ?i \<noteq> 91" by linarith
  then show ?thesis
  proof cases
    case 1
    with ge show ?thesis by (simp add: parseAny_end)
  next
    case 2
    have later: "?i + 1 \<le> skipBlank s (?i + 1)" by (rule skipBlank_ge)
    then have "length s - skipBlank s (?i + 1) \<le> n" using 2 ge assms(4) by linarith
    then obtain j v where "parseObj (parseAny n jsonParse keyText s) (length s + 1) jsonParse keyText s (skipBlank s (?i + 1)) [] = Some (j, Inr v)"
      "skipBlank s (?i + 1) \<le> j"
      using parseObj_total [OF assms(3), of "skipBlank s (?i + 1)" "length s + 1" jsonParse keyText "[]"] later by fastforce
    then show ?thesis using 2 ge later by (simp add: parseAny_obj)
  next
    case 3
    then have "length s - (?i + 1) < n" using ge assms(4) by linarith
    then obtain j v where "parseArr (parseAny n jsonParse keyText s) (length s + 1) s (?i + 1) [] = Some (j, Inr v)" "?i + 1 \<le> j"
      using parseArr_total [OF assms(3), of "?i + 1" "length s + 1" "[]"] by fastforce
    then show ?thesis using 3 ge by (simp add: parseAny_arr)
  next
    case 4
    obtain j r where atom: "parse_atom jsonParse s ?i = (j, r)" by fastforce
    have "?i \<le> j" "\<forall>v. r = Inr v \<longrightarrow> 0 < ?i \<longrightarrow> ?i < j"
      using atom_ge [of ?i jsonParse s] atom_advances [OF assms(1,2), of ?i] 4(1) atom by auto
    then show ?thesis using 4 ge atom by (auto simp: parseAny_atom)
  qed
qed

lemma parseAny_progress:
  assumes "json_reader jsonParse" "incomplete jsonParse s"
  shows "progresses (parseAny n jsonParse keyText s) s n"
proof (induction n)
  case (Suc n)
  show ?case
    unfolding progresses_def
    using parseAny_total [OF assms Suc] by (metis (no_types, lifting))
qed (simp add: progresses_def)

lemma parseAny_returns:
  assumes "json_reader jsonParse" "incomplete jsonParse s" "length s < n"
  shows "\<exists>r. parseAny n jsonParse keyText s 0 = Some r"
proof -
  obtain m where "n = Suc m" using assms(3) by (cases n) auto
  then show ?thesis
    using parseAny_total [OF assms(1,2) parseAny_progress [OF assms(1,2)], of 0 m keyText] assms(3) by auto
qed

lemma trim_length: "length (trim_units s) \<le> length s"
  unfolding trim_units_def length_rev
  by (rule order_trans [OF length_dropWhile_le]) (simp add: length_dropWhile_le)

lemma parseJSON2_returns:
  assumes "json_reader jsonParse" "incomplete jsonParse (trim_units s)"
  shows "\<exists>r. parseJSON2 jsonParse keyText s = Some r"
  using parseAny_returns [OF assms, of "length s + 1" keyText] trim_length [of s] by (auto simp: parseJSON2_def)

text \<open>C39. Reading arguments while they arrive: \<open>parseStreamingJson\<close> returns a value for every text
  that neither as it is nor repaired begins with a complete value. The loops of the partial parser
  end on it, and none of its exceptions leaves the function.\<close>

theorem streaming_returns:
  assumes "json_reader jsonParse"
    and "incomplete jsonParse (trim_units s)" "incomplete jsonParse (trim_units (repairJson s))"
  shows "\<exists>v. parseStreamingJson jsonParse keyText (Some s) = Some v"
proof -
  obtain r r' where "parseJSON2 jsonParse keyText s = Some r" "parseJSON2 jsonParse keyText (repairJson s) = Some r'"
    using parseJSON2_returns [OF assms(1,2)] parseJSON2_returns [OF assms(1,3)] by blast
  then show ?thesis
    by (cases r; cases r') (auto simp: parseStreamingJson_def split: sum.split)
qed

definition table_parse :: "(jstring \<times> jvalue) list \<Rightarrow> json_parse" where
  "table_parse entries t = map_of entries t"

text \<open>The text \<open>{"a":[1,\<close> and what of \<open>JSON.parse\<close> it takes to read it.\<close>

definition example_parse :: json_parse where
  "example_parse = table_parse [([34, 97, 34], VStr [97]), ([49], VNum (Num 1))]"

definition example_text :: jstring where
  "example_text = [123, 34, 97, 34, 58, 91, 49, 44]"

theorem streaming_returns_witness:
  "json_reader example_parse \<and> (\<exists>v. parseStreamingJson example_parse (\<lambda>_. [97]) (Some example_text) = Some v)"
proof -
  have "json_reader example_parse"
    by (auto simp: json_reader_def example_parse_def table_parse_def)
  moreover have "repairJson example_text = example_text" "trim_units example_text = example_text"
    by (simp_all add: example_text_def repairJson_def trim_units_def js_space_def isControlCharacter_def)
  moreover have "incomplete example_parse example_text"
    unfolding incomplete_def
  proof (intro allI impI)
    fix k
    show "example_parse (take k example_text) = None"
      by (cases k) (simp_all add: example_parse_def table_parse_def example_text_def)
  qed
  ultimately show ?thesis
    using streaming_returns [of example_parse example_text "\<lambda>_. [97]"] by simp
qed

end
