(* ===== verification/Spec2Isabelle.thy ===== *)
theory Spec2Isabelle
  imports Plugin_Bridge_Route Coderunner_Life Coderunner_Pool Pi_Estimate Pi_Transform Pi_Models Pi_Stream Pi_Bridge Mutation_Queue Bash_Tool Pi_Dispatch Provider_Retry Partial_Json
begin

text \<open>
  Verification of the JavaScript parts of atoll.
\<close>

end
